(* ===== verification/Braid_Prelude.thy ===== *)
theory Braid_Prelude
  imports Main "HOL-Library.Word" "HOL-Library.Multiset"
begin

text \<open>
  Shared vocabulary of the development: the faults a C++ execution of the braid sources can end
  in, fallible results, 32-bit \<open>int\<close> and 64-bit \<open>size_t\<close> arithmetic, byte memory (what
  \<open>memcpy\<close> and \<open>memmove\<close> do to a buffer) and the generic lemmas on lists and multisets that
  the components share.
\<close>

named_theorems outcome_simps "evaluation of fallible results"

section \<open>Faults and fallible results\<close>

text \<open>
  The build type is forced to \<open>Debug\<close> by every \<open>CMakeLists.txt\<close>, so \<open>assert\<close> is active: a
  failed one ends the process (\<open>Assertion_Failure\<close>). The other faults are the undefined
  behaviours the sources can run into; nothing is said of an execution after one.
\<close>

datatype fault =
    Assertion_Failure
  | Null_Dereference
  | Out_Of_Bounds
  | Use_After_Free
  | Division_By_Zero
  | Signed_Overflow
  | Uninitialized_Read

type_synonym 'a outcome = "fault + 'a"

definition bind_outcome :: "'a outcome \<Rightarrow> ('a \<Rightarrow> 'b outcome) \<Rightarrow> 'b outcome" where
  "bind_outcome m f = (case m of Inl e \<Rightarrow> Inl e | Inr x \<Rightarrow> f x)"

lemma bind_outcome_simps [simp, outcome_simps]:
  "bind_outcome (Inl e) f = Inl e"
  "bind_outcome (Inr x) f = f x"
  by (simp_all add: bind_outcome_def)

lemma bind_outcome_eq_Inr [outcome_simps]:
  "bind_outcome m f = Inr y \<longleftrightarrow> (\<exists>x. m = Inr x \<and> f x = Inr y)"
  by (cases m) simp_all

lemma bind_outcome_eq_Inl:
  "bind_outcome m f = Inl e \<longleftrightarrow> m = Inl e \<or> (\<exists>x. m = Inr x \<and> f x = Inl e)"
  by (cases m) simp_all

section \<open>Machine integers\<close>

text \<open>
  \<open>int\<close> has 32 bits and its arithmetic is undefined out of range: the result is checked. An
  \<open>atomic<int>\<close> wraps around instead and is a \<open>32 word\<close>. \<open>size_t\<close> has 64 bits and is
  kept as a \<open>nat\<close>, reduced modulo \<open>2 ^ 64\<close> where the code multiplies or adds.
\<close>

type_synonym byte = "8 word"
type_synonym u32 = "32 word"

definition fits_int :: "int \<Rightarrow> bool" where
  "fits_int x \<longleftrightarrow> - (2 ^ 31) \<le> x \<and> x < 2 ^ 31"

definition checked_int :: "int \<Rightarrow> int outcome" where
  "checked_int x = (if fits_int x then Inr x else Inl Signed_Overflow)"

definition size_t :: "nat \<Rightarrow> nat" where
  "size_t n = n mod 2 ^ 64"

lemma checked_int_fits [simp, outcome_simps]: "fits_int x \<Longrightarrow> checked_int x = Inr x"
  by (simp add: checked_int_def)

lemma checked_int_eq_Inr [outcome_simps]: "checked_int x = Inr y \<longleftrightarrow> fits_int x \<and> y = x"
  by (auto simp: checked_int_def)

lemma fits_int_small: "\<bar>x\<bar> \<le> 1000000 \<Longrightarrow> fits_int x"
  by (auto simp: fits_int_def)

lemma fits_int_of_nat: "k \<le> 1000000 \<Longrightarrow> fits_int (int k)"
  by (simp add: fits_int_def)

lemma size_t_small [simp]: "n < 2 ^ 64 \<Longrightarrow> size_t n = n"
  by (simp add: size_t_def)

lemma size_t_le: "size_t n \<le> n"
  by (simp add: size_t_def)

section \<open>Byte memory\<close>

text \<open>
  A buffer is a list of bytes. A read or write that leaves it is the fault \<open>Out_Of_Bounds\<close>;
  \<open>memmove\<close> within one buffer is a read followed by a write, so overlap does not matter.
\<close>

definition mem_read :: "nat \<Rightarrow> nat \<Rightarrow> 'a list \<Rightarrow> 'a list outcome" where
  "mem_read off n mem =
     (if off + n \<le> length mem then Inr (take n (drop off mem)) else Inl Out_Of_Bounds)"

definition mem_write :: "nat \<Rightarrow> 'a list \<Rightarrow> 'a list \<Rightarrow> 'a list outcome" where
  "mem_write off bs mem =
     (if off + length bs \<le> length mem
      then Inr (take off mem @ bs @ drop (off + length bs) mem) else Inl Out_Of_Bounds)"

definition mem_move :: "nat \<Rightarrow> nat \<Rightarrow> nat \<Rightarrow> 'a list \<Rightarrow> 'a list outcome" where
  "mem_move dst src n mem = bind_outcome (mem_read src n mem) (\<lambda>bs. mem_write dst bs mem)"

lemma mem_read_ok [outcome_simps]:
  "off + n \<le> length mem \<Longrightarrow> mem_read off n mem = Inr (take n (drop off mem))"
  by (simp add: mem_read_def)

lemma mem_write_ok [outcome_simps]:
  "off + length bs \<le> length mem \<Longrightarrow>
     mem_write off bs mem = Inr (take off mem @ bs @ drop (off + length bs) mem)"
  by (simp add: mem_write_def)

lemma mem_write_length: "mem_write off bs mem = Inr mem' \<Longrightarrow> length mem' = length mem"
  by (auto simp: mem_write_def split: if_splits)

lemma mem_write_take_prefix:
  "mem_write off bs mem = Inr mem' \<Longrightarrow> take (off + length bs) mem' = take off mem @ bs"
  by (auto simp: mem_write_def split: if_splits)

lemma mem_move_down:
  assumes "src + n \<le> length mem"
  shows "mem_move 0 src n mem = Inr (take n (drop src mem) @ drop n mem)"
  using assms by (simp add: mem_move_def outcome_simps)

section \<open>Lists and multisets\<close>

lemma mset_last_butlast: "xs \<noteq> [] \<Longrightarrow> mset xs = mset (butlast xs) + {#last xs#}"
  by (metis append_butlast_last_id mset.simps(1) mset.simps(2) mset_append)

lemma sum_fun_upd_mset:
  fixes f :: "'t \<Rightarrow> 'a multiset"
  assumes "finite T" and "t \<in> T"
  shows "(\<Sum>s\<in>T. (f(t := m)) s) + f t = (\<Sum>s\<in>T. f s) + m"
proof -
  have "(\<Sum>s\<in>T. (f(t := m)) s) = m + (\<Sum>s\<in>T - {t}. f s)"
    using assms by (simp add: sum.remove)
  moreover have "(\<Sum>s\<in>T. f s) = f t + (\<Sum>s\<in>T - {t}. f s)"
    using assms by (rule sum.remove)
  ultimately show ?thesis by (simp add: ac_simps)
qed

lemma mset_balance:
  fixes A B C D E :: "'a multiset"
  assumes "A + B = C + D" and "D + E = B"
  shows "A + E = C"
proof -
  have "(A + E) + D = A + B" using assms(2) by (simp add: ac_simps)
  with assms(1) show ?thesis by simp
qed

lemma distinct_mset_part:
  assumes "distinct xs" and "A + B = mset xs"
  shows "count A x \<le> 1" and "set_mset A \<inter> set_mset B = {}"
proof -
  have c: "count A y + count B y \<le> 1" for y
    using assms by (metis count_union distinct_count_atmost_1 le_refl zero_le)
  from c [of x] show "count A x \<le> 1" by simp
  have "\<not> (y \<in># A \<and> y \<in># B)" for y
    using c [of y] by (auto simp flip: count_greater_zero_iff)
  then show "set_mset A \<inter> set_mset B = {}" by blast
qed

end
