(* ===== verification/Message_Buffer.thy ===== *)
theory Message_Buffer
  imports Braid_Prelude
begin

unbundle bit_operations_syntax

text \<open>
  The message module (\<open>braid/src/service\<close>, \<open>message/\<close>): \<open>SendBuffer\<close> with its three overloads of
  \<open>write\<close>, the wire format of \<open>MessageHeader\<close>, \<open>SendMessage\<close> and \<open>MessageDispatcher\<close>. The three
  overloads share one contract, the locale \<open>message_sink\<close>.
\<close>

section \<open>SendBuffer\<close>

definition MAX_MESSAGE_SIZE :: int where "MAX_MESSAGE_SIZE = 2048"

record send_buffer =
  sb_buffer :: "byte list"
  sb_size :: int

text \<open>The array of a new buffer is not initialised: its content is a parameter.\<close>

definition send_buffer_new :: "byte list \<Rightarrow> send_buffer" where
  "send_buffer_new garbage = \<lparr>sb_buffer = garbage, sb_size = 0\<rparr>"

text \<open>
  \<open>write(const Args&...)\<close>: each argument is its object representation; \<open>append_one\<close> is called
  from left to right.
\<close>

fun append_each :: "nat \<Rightarrow> byte list list \<Rightarrow> byte list \<Rightarrow> byte list outcome" where
  "append_each out [] buf = Inr buf"
| "append_each out (x # xs) buf =
     bind_outcome (mem_write out x buf) (append_each (out + length x) xs)"

definition write_args :: "byte list list \<Rightarrow> send_buffer \<Rightarrow> send_buffer outcome" where
  "write_args args sb =
     (let total_size = int (sum_list (map length args))
      in bind_outcome (checked_int (sb_size sb + total_size)) (\<lambda>size'.
           if MAX_MESSAGE_SIZE < size' then Inr sb
           else bind_outcome (append_each (nat (sb_size sb)) args (sb_buffer sb)) (\<lambda>buf.
             Inr (sb\<lparr>sb_buffer := buf, sb_size := size'\<rparr>))))"

text \<open>\<open>write(const std::string&)\<close>: the comparison is made in \<open>size_t\<close>.\<close>

definition write_string :: "byte list \<Rightarrow> send_buffer \<Rightarrow> send_buffer outcome" where
  "write_string str sb =
     (if nat MAX_MESSAGE_SIZE < size_t (nat (sb_size sb) + length str) then Inr sb
      else bind_outcome (mem_write (nat (sb_size sb)) str (sb_buffer sb)) (\<lambda>buf.
        bind_outcome (checked_int (sb_size sb + int (length str))) (\<lambda>size'.
          Inr (sb\<lparr>sb_buffer := buf, sb_size := size'\<rparr>))))"

text \<open>
  \<open>write(const char*, int)\<close>: the memory at the pointer is a byte list; a negative size becomes a
  huge \<open>size_t\<close> in the call of \<open>memcpy\<close>.
\<close>

definition write_raw :: "byte list \<Rightarrow> int \<Rightarrow> send_buffer \<Rightarrow> send_buffer outcome" where
  "write_raw str n sb =
     bind_outcome (checked_int (sb_size sb + n)) (\<lambda>size'.
       if MAX_MESSAGE_SIZE < size' then Inr sb
       else if n < 0 then Inl Out_Of_Bounds
       else bind_outcome (mem_read 0 (nat n) str) (\<lambda>bs.
         bind_outcome (mem_write (nat (sb_size sb)) bs (sb_buffer sb)) (\<lambda>buf.
           Inr (sb\<lparr>sb_buffer := buf, sb_size := size'\<rparr>))))"

definition get_buffer :: "send_buffer \<Rightarrow> byte list" where
  "get_buffer sb = take (nat (sb_size sb)) (sb_buffer sb)"

definition sb_reset :: "send_buffer \<Rightarrow> send_buffer" where
  "sb_reset sb = sb\<lparr>sb_size := 0\<rparr>"

definition sb_ok :: "send_buffer \<Rightarrow> bool" where
  "sb_ok sb \<longleftrightarrow> length (sb_buffer sb) = 2048 \<and> 0 \<le> sb_size sb \<and> sb_size sb \<le> 2048"

section \<open>The contract of the writes: all of a message or nothing of it\<close>

definition bounded_append :: "byte list \<Rightarrow> byte list \<Rightarrow> byte list" where
  "bounded_append xs ys = (if length xs + length ys \<le> 2048 then xs @ ys else xs)"

fun write_seq :: "('m \<Rightarrow> 's \<Rightarrow> 's outcome) \<Rightarrow> 'm list \<Rightarrow> 's \<Rightarrow> 's outcome" where
  "write_seq w [] s = Inr s"
| "write_seq w (m # ms) s = bind_outcome (w m s) (write_seq w ms)"

locale message_sink =
  fixes put :: "'m \<Rightarrow> 's \<Rightarrow> 's outcome"
    and repr :: "'m \<Rightarrow> byte list"
    and legal :: "'m \<Rightarrow> bool"
    and content :: "'s \<Rightarrow> byte list"
    and ok :: "'s \<Rightarrow> bool"
  assumes put_spec: "ok s \<Longrightarrow> legal m \<Longrightarrow>
      \<exists>s'. put m s = Inr s' \<and> ok s' \<and> content s' = bounded_append (content s) (repr m)"
begin

lemma write_seq_spec:
  "ok s \<Longrightarrow> list_all legal ms \<Longrightarrow>
     \<exists>s'. write_seq put ms s = Inr s' \<and> ok s' \<and>
       content s' = foldl bounded_append (content s) (map repr ms)"
proof (induction ms arbitrary: s)
  case (Cons m ms)
  then obtain s1 where s1: "put m s = Inr s1" "ok s1"
      "content s1 = bounded_append (content s) (repr m)"
    using put_spec by fastforce
  from Cons.IH [OF s1(2)] Cons.prems s1 show ?case by simp
qed simp

end

lemma foldl_bounded_append_fits:
  "length xs + length (concat yss) \<le> 2048 \<Longrightarrow> foldl bounded_append xs yss = xs @ concat yss"
  by (induction yss arbitrary: xs) (simp_all add: bounded_append_def)

lemma foldl_bounded_append_length:
  "length xs \<le> 2048 \<Longrightarrow> length (foldl bounded_append xs yss) \<le> 2048"
  by (induction yss arbitrary: xs) (simp_all add: bounded_append_def)

lemma get_buffer_length: "sb_ok sb \<Longrightarrow> length (get_buffer sb) = nat (sb_size sb)"
  by (simp add: sb_ok_def get_buffer_def nat_le_iff)

lemma append_each_spec:
  "out + length (concat args) \<le> length buf \<Longrightarrow>
     append_each out args buf =
       Inr (take out buf @ concat args @ drop (out + length (concat args)) buf)"
proof (induction args arbitrary: out buf)
  case (Cons x xs)
  let ?buf = "take out buf @ x @ drop (out + length x) buf"
  from Cons.prems have len: "length ?buf = length buf" by simp
  from Cons.prems have "mem_write out x buf = Inr ?buf" by (simp add: outcome_simps)
  moreover have "take (out + length x) ?buf = take out buf @ x"
    using Cons.prems by simp
  moreover have "drop (out + length x + length (concat xs)) ?buf =
      drop (out + length x + length (concat xs)) buf"
    using Cons.prems by (simp add: ac_simps)
  moreover have "append_each (out + length x) xs ?buf =
      Inr (take (out + length x) ?buf @ concat xs @ drop (out + length x + length (concat xs)) ?buf)"
    using Cons.prems len by (intro Cons.IH) simp
  ultimately show ?case by (simp add: ac_simps)
qed simp

lemma store_spec:
  assumes ok: "sb_ok sb" and fit: "nat (sb_size sb) + length bs \<le> 2048"
    and buf: "buf = take (nat (sb_size sb)) (sb_buffer sb) @ bs @
      drop (nat (sb_size sb) + length bs) (sb_buffer sb)"
    and sz: "size' = sb_size sb + int (length bs)"
  shows "sb_ok (sb\<lparr>sb_buffer := buf, sb_size := size'\<rparr>)"
    and "get_buffer (sb\<lparr>sb_buffer := buf, sb_size := size'\<rparr>) = get_buffer sb @ bs"
proof -
  have n: "nat size' = nat (sb_size sb) + length bs" and size': "0 \<le> size'" "size' \<le> 2048"
    using ok fit sz by (auto simp: sb_ok_def)
  have len: "length (take (nat (sb_size sb)) (sb_buffer sb)) = nat (sb_size sb)"
    using ok by (simp add: sb_ok_def nat_le_iff)
  from ok fit buf size' show "sb_ok (sb\<lparr>sb_buffer := buf, sb_size := size'\<rparr>)"
    by (simp add: sb_ok_def)
  show "get_buffer (sb\<lparr>sb_buffer := buf, sb_size := size'\<rparr>) = get_buffer sb @ bs"
    using buf n len by (simp add: get_buffer_def)
qed

text \<open>Lengths that a real object can have, so that no \<open>int\<close> of the code overflows.\<close>

definition args_legal :: "byte list list \<Rightarrow> bool" where
  "args_legal args \<longleftrightarrow> length (concat args) < 2 ^ 30"

definition string_legal :: "byte list \<Rightarrow> bool" where
  "string_legal str \<longleftrightarrow> length str < 2 ^ 63"

definition raw_legal :: "byte list \<times> int \<Rightarrow> bool" where
  "raw_legal m \<longleftrightarrow> 0 \<le> snd m \<and> snd m < 2 ^ 30 \<and> nat (snd m) \<le> length (fst m)"

lemma sb_fits_int:
  assumes "sb_ok sb" and "0 \<le> n" and "n < 2 ^ 30"
  shows "fits_int (sb_size sb + n)"
  using assms by (auto simp: sb_ok_def fits_int_def)

lemma too_long_iff:
  "sb_ok sb \<Longrightarrow> MAX_MESSAGE_SIZE < sb_size sb + int k \<longleftrightarrow> \<not> nat (sb_size sb) + k \<le> 2048"
  by (simp add: sb_ok_def MAX_MESSAGE_SIZE_def) arith

lemma write_args_spec:
  assumes ok: "sb_ok sb" and legal: "args_legal args"
  shows "\<exists>sb'. write_args args sb = Inr sb' \<and> sb_ok sb' \<and>
    get_buffer sb' = bounded_append (get_buffer sb) (concat args)"
proof -
  have tot: "sum_list (map length args) = length (concat args)" by (simp add: length_concat)
  have fi: "fits_int (sb_size sb + int (length (concat args)))"
    using legal by (intro sb_fits_int ok) (simp_all add: args_legal_def)
  show ?thesis
  proof (cases "nat (sb_size sb) + length (concat args) \<le> 2048")
    case True
    then have "append_each (nat (sb_size sb)) args (sb_buffer sb) =
        Inr (take (nat (sb_size sb)) (sb_buffer sb) @ concat args @
          drop (nat (sb_size sb) + length (concat args)) (sb_buffer sb))"
      using ok by (intro append_each_spec) (simp add: sb_ok_def)
    moreover have "\<not> MAX_MESSAGE_SIZE < sb_size sb + int (length (concat args))"
      using True by (simp add: too_long_iff [OF ok])
    ultimately show ?thesis
      using store_spec [OF ok True refl refl] fi True get_buffer_length [OF ok]
      by (simp add: write_args_def tot bounded_append_def)
  next
    case False
    then have "MAX_MESSAGE_SIZE < sb_size sb + int (length (concat args))"
      by (simp add: too_long_iff [OF ok])
    with False fi ok get_buffer_length [OF ok] show ?thesis
      by (simp add: write_args_def tot bounded_append_def)
  qed
qed

lemma write_string_spec:
  assumes ok: "sb_ok sb" and legal: "string_legal str"
  shows "\<exists>sb'. write_string str sb = Inr sb' \<and> sb_ok sb' \<and>
    get_buffer sb' = bounded_append (get_buffer sb) str"
proof -
  have st: "size_t (nat (sb_size sb) + length str) = nat (sb_size sb) + length str"
    using ok legal by (intro size_t_small) (auto simp: sb_ok_def string_legal_def)
  show ?thesis
  proof (cases "nat (sb_size sb) + length str \<le> 2048")
    case True
    have "fits_int (sb_size sb + int (length str))"
      using True by (intro sb_fits_int ok) simp_all
    then show ?thesis
      using store_spec [OF ok True refl refl] True st ok get_buffer_length [OF ok]
      by (simp add: write_string_def bounded_append_def outcome_simps sb_ok_def MAX_MESSAGE_SIZE_def)
  next
    case False
    with st ok get_buffer_length [OF ok] show ?thesis
      by (simp add: write_string_def bounded_append_def MAX_MESSAGE_SIZE_def)
  qed
qed

lemma write_raw_spec:
  assumes ok: "sb_ok sb" and legal: "raw_legal (str, n)"
  shows "\<exists>sb'. write_raw str n sb = Inr sb' \<and> sb_ok sb' \<and>
    get_buffer sb' = bounded_append (get_buffer sb) (take (nat n) str)"
proof -
  have fi: "fits_int (sb_size sb + n)"
    using legal by (intro sb_fits_int ok) (simp_all add: raw_legal_def)
  have len: "length (take (nat n) str) = nat n" and n0: "0 \<le> n"
    using legal by (simp_all add: raw_legal_def)
  show ?thesis
  proof (cases "nat (sb_size sb) + nat n \<le> 2048")
    case True
    have sp: "nat (sb_size sb) + length (take (nat n) str) \<le> 2048" using True len by simp
    have "\<not> MAX_MESSAGE_SIZE < sb_size sb + n"
      using True too_long_iff [OF ok, of "nat n"] n0 by simp
    then show ?thesis
      using store_spec [OF ok sp refl, of "sb_size sb + n"] True fi ok n0 len legal
        get_buffer_length [OF ok]
      by (simp add: write_raw_def bounded_append_def outcome_simps sb_ok_def raw_legal_def)
  next
    case False
    then have "MAX_MESSAGE_SIZE < sb_size sb + n"
      using too_long_iff [OF ok, of "nat n"] n0 by simp
    with False fi ok len get_buffer_length [OF ok] show ?thesis
      by (simp add: write_raw_def bounded_append_def)
  qed
qed

interpretation args_sink: message_sink write_args concat args_legal get_buffer sb_ok
  by unfold_locales (rule write_args_spec)

interpretation string_sink: message_sink write_string "\<lambda>str. str" string_legal get_buffer sb_ok
  by unfold_locales (rule write_string_spec)

interpretation raw_sink: message_sink "\<lambda>(str, n). write_raw str n" "\<lambda>(str, n). take (nat n) str"
    raw_legal get_buffer sb_ok
  by unfold_locales (auto intro: write_raw_spec)

section \<open>MessageHeader\<close>

text \<open>
  \<open>int size; uint message_type;\<close> laid out in 8 bytes, little-endian (the targets of io_uring
  builds). \<open>parse_message\<close> is the reinterpreting cast, with the read of both fields.
\<close>

record message_header =
  hd_size :: int
  hd_type :: u32

definition HEADER_SIZE :: int where "HEADER_SIZE = 8"

definition le32_bytes :: "u32 \<Rightarrow> byte list" where
  "le32_bytes w = [ucast w, ucast (drop_bit 8 w), ucast (drop_bit 16 w), ucast (drop_bit 24 w)]"

fun le32_word :: "byte list \<Rightarrow> u32" where
  "le32_word [b0, b1, b2, b3] =
     ucast b0 OR push_bit 8 (ucast b1) OR push_bit 16 (ucast b2) OR push_bit 24 (ucast b3)"
| "le32_word _ = 0"

definition encode_header :: "message_header \<Rightarrow> byte list" where
  "encode_header h = le32_bytes (word_of_int (hd_size h)) @ le32_bytes (hd_type h)"

definition parse_message :: "byte list \<Rightarrow> message_header outcome" where
  "parse_message data =
     bind_outcome (mem_read 0 4 data) (\<lambda>a. bind_outcome (mem_read 4 4 data) (\<lambda>b.
       Inr \<lparr>hd_size = sint (le32_word a), hd_type = le32_word b\<rparr>))"

lemma le32_bytes_length [simp]: "length (le32_bytes w) = 4"
  by (simp add: le32_bytes_def)

lemma encode_header_length [simp]: "length (encode_header h) = 8"
  by (simp add: encode_header_def)

lemma le32_roundtrip [simp]: "le32_word (le32_bytes w) = w"
proof (rule bit_word_eqI)
  fix n
  assume "n < LENGTH(32)"
  then consider "n < 8" | "8 \<le> n" "n < 16" | "16 \<le> n" "n < 24" | "24 \<le> n" "n < 32"
    by fastforce
  then show "bit (le32_word (le32_bytes w)) n = bit w n"
    by cases (auto simp: le32_bytes_def bit_simps)
qed

lemma sint_word_of_fits: "fits_int x \<Longrightarrow> sint (word_of_int x :: u32) = x"
  by (simp add: fits_int_def sint_sbintrunc' signed_take_bit_int_eq_self)

lemma parse_encode:
  "fits_int (hd_size h) \<Longrightarrow> parse_message (encode_header h @ rest) = Inr h"
  by (simp add: parse_message_def encode_header_def mem_read_def sint_word_of_fits)

section \<open>SendMessage\<close>

text \<open>
  The two overloads of \<open>SendMessage\<close>: \<open>w\<close> is the call of \<open>write\<close> on the new buffer, the result
  the calls of \<open>request_send\<close> that are made, each an actor with the buffer.
\<close>

definition send_message ::
    "(send_buffer \<Rightarrow> send_buffer outcome) \<Rightarrow> byte list \<Rightarrow> nat option
       \<Rightarrow> (nat \<times> send_buffer) list outcome" where
  "send_message w garbage actor =
     (case actor of
        None \<Rightarrow> Inr []
      | Some a \<Rightarrow> bind_outcome (w (send_buffer_new garbage)) (\<lambda>sb. Inr [(a, sb)]))"

fun send_each :: "send_buffer \<Rightarrow> nat option list \<Rightarrow> (nat \<times> send_buffer) list" where
  "send_each sb [] = []"
| "send_each sb (None # as) = send_each sb as"
| "send_each sb (Some a # as) = (a, sb) # send_each sb as"

definition send_message_all ::
    "(send_buffer \<Rightarrow> send_buffer outcome) \<Rightarrow> byte list \<Rightarrow> nat option list
       \<Rightarrow> (nat \<times> send_buffer) list outcome" where
  "send_message_all w garbage actors =
     bind_outcome (w (send_buffer_new garbage)) (\<lambda>sb. Inr (send_each sb actors))"

section \<open>Any sequence of writes\<close>

datatype write_call =
    Write_Args "byte list list"
  | Write_String "byte list"
  | Write_Raw "byte list" int

fun do_write :: "write_call \<Rightarrow> send_buffer \<Rightarrow> send_buffer outcome" where
  "do_write (Write_Args args) sb = write_args args sb"
| "do_write (Write_String str) sb = write_string str sb"
| "do_write (Write_Raw str n) sb = write_raw str n sb"

fun call_bytes :: "write_call \<Rightarrow> byte list" where
  "call_bytes (Write_Args args) = concat args"
| "call_bytes (Write_String str) = str"
| "call_bytes (Write_Raw str n) = take (nat n) str"

fun call_legal :: "write_call \<Rightarrow> bool" where
  "call_legal (Write_Args args) = args_legal args"
| "call_legal (Write_String str) = string_legal str"
| "call_legal (Write_Raw str n) = raw_legal (str, n)"

interpretation any_sink: message_sink do_write call_bytes call_legal get_buffer sb_ok
proof unfold_locales
  fix sb m
  assume "sb_ok sb" "call_legal m"
  then show "\<exists>sb'. do_write m sb = Inr sb' \<and> sb_ok sb' \<and>
      get_buffer sb' = bounded_append (get_buffer sb) (call_bytes m)"
    using args_sink.put_spec string_sink.put_spec raw_sink.put_spec by (cases m) auto
qed

lemma send_buffer_new_ok [simp]:
  "length garbage = 2048 \<Longrightarrow> sb_ok (send_buffer_new garbage)"
  "get_buffer (send_buffer_new garbage) = []"
  by (simp_all add: sb_ok_def send_buffer_new_def get_buffer_def)

section \<open>Properties of the message module\<close>

text \<open>
  C26: A write puts a whole message into a \<open>SendBuffer\<close> or leaves the buffer as it is. After any
  sequence of calls of the three overloads on a new buffer the content is what the appends that
  fit into the 2048 bytes leave, no call is out of bounds, and the content never exceeds the
  capacity, whatever the memory held before.
\<close>

theorem send_buffer_all_or_nothing:
  assumes "length garbage = 2048" and "list_all call_legal calls"
  shows "\<exists>sb. write_seq do_write calls (send_buffer_new garbage) = Inr sb \<and>
    get_buffer sb = foldl bounded_append [] (map call_bytes calls) \<and>
    length (get_buffer sb) \<le> 2048"
  using any_sink.write_seq_spec [OF _ assms(2), of "send_buffer_new garbage"] assms(1)
    foldl_bounded_append_length [of "[]"] by auto

theorem send_buffer_all_or_nothing_witness:
  "\<exists>sb. write_seq do_write [Write_String (replicate 2000 65), Write_Raw (replicate 100 66) 100,
        Write_Args [[1, 2], [3]]] (send_buffer_new (replicate 2048 0)) = Inr sb \<and>
     get_buffer sb = foldl bounded_append [] (map call_bytes [Write_String (replicate 2000 65),
        Write_Raw (replicate 100 66) 100, Write_Args [[1, 2], [3]]]) \<and>
     length (get_buffer sb) \<le> 2048"
  by (rule send_buffer_all_or_nothing)
    (simp_all add: string_legal_def raw_legal_def args_legal_def)

text \<open>
  Messages that fit together into the buffer are sent as their concatenation, in the order of
  the calls.
\<close>

theorem send_buffer_concatenates:
  assumes "length garbage = 2048" and "list_all call_legal calls"
    and "length (concat (map call_bytes calls)) \<le> 2048"
  shows "\<exists>sb. write_seq do_write calls (send_buffer_new garbage) = Inr sb \<and>
    get_buffer sb = concat (map call_bytes calls)"
  using any_sink.write_seq_spec [OF _ assms(2), of "send_buffer_new garbage"] assms(1,3)
    foldl_bounded_append_fits [of "[]" "map call_bytes calls"] by auto

theorem send_buffer_concatenates_witness:
  "\<exists>sb. write_seq do_write [Write_String [65, 66], Write_Raw [67, 68, 69] 2]
      (send_buffer_new (replicate 2048 0)) = Inr sb \<and>
    get_buffer sb = concat (map call_bytes [Write_String [65, 66], Write_Raw [67, 68, 69] 2])"
  by (rule send_buffer_concatenates) (simp_all add: string_legal_def raw_legal_def)

text \<open>
  The size check of \<open>write(const char*, int)\<close> lets a negative size through: the call of
  \<open>memcpy\<close> then leaves the buffers.
\<close>

theorem write_raw_negative_size:
  assumes "sb_ok sb" and "n < 0" and "fits_int n"
  shows "write_raw str n sb = Inl Out_Of_Bounds"
proof -
  have "fits_int (sb_size sb + n)" and "\<not> MAX_MESSAGE_SIZE < sb_size sb + n"
    using assms by (auto simp: sb_ok_def fits_int_def MAX_MESSAGE_SIZE_def)
  with assms(2) show ?thesis by (simp add: write_raw_def)
qed

theorem write_raw_negative_size_witness:
  "write_raw [1, 2, 3] (- 1) (send_buffer_new (replicate 2048 0)) = Inl Out_Of_Bounds"
  by (rule write_raw_negative_size) (simp_all add: fits_int_def)

text \<open>
  Reading a header back from the bytes it was written as gives the header, whatever follows
  it, for every size an \<open>int\<close> can hold and every type.
\<close>

theorem header_roundtrip:
  assumes "fits_int (hd_size h)"
  shows "parse_message (encode_header h @ rest) = Inr h"
  using assms by (rule parse_encode)

theorem header_roundtrip_witness:
  "parse_message (encode_header \<lparr>hd_size = - 2, hd_type = 4000000000\<rparr> @ [9]) =
     Inr \<lparr>hd_size = - 2, hd_type = 4000000000\<rparr>"
  by (rule header_roundtrip) (simp add: fits_int_def)

end
