(* ===== verification/Dispatcher.thy ===== *)
theory Dispatcher
  imports Braid_Prelude
begin

text \<open>
  \<open>MessageDispatcher\<close> (\<open>message/MessageDispatcher.h\<close> and \<open>.cc\<close>): a map from message types to
  handlers. A handler is user code. It is given a span that points into the receive buffer and the actor
  of the session: the model passes the memory from the span's start to the end of the buffer and the span's
  length, and lets the handler change that memory and the rest of the program's state \<open>'s\<close>. The operations of
  \<open>Actor\<close> (\<open>service/Actor.h\<close>) are in \<open>Session\<close>; an \<open>ObjectPtr<Actor>\<close> is an option.
\<close>

record actor =
  actor_session :: "nat option"

type_synonym 's handler = "byte list \<Rightarrow> nat \<Rightarrow> actor option \<Rightarrow> 's \<Rightarrow> (byte list \<times> 's) outcome"
type_synonym 's handlers = "int \<Rightarrow> 's handler option"

definition register_handler :: "int \<Rightarrow> 's handler \<Rightarrow> 's handlers \<Rightarrow> 's handlers" where
  "register_handler message_type h handlers =
     (if handlers message_type \<noteq> None then handlers else handlers(message_type \<mapsto> h))"

definition dispatch ::
    "'s handlers \<Rightarrow> int \<Rightarrow> byte list \<Rightarrow> nat \<Rightarrow> actor option \<Rightarrow> 's \<Rightarrow> (bool \<times> byte list \<times> 's) outcome" where
  "dispatch handlers message_type mem n a s =
     (case handlers message_type of
        None \<Rightarrow> Inr (False, mem, s)
      | Some h \<Rightarrow> bind_outcome (h mem n a s) (\<lambda>(mem', s'). Inr (True, mem', s')))"

fun register_all :: "(int \<times> 's handler) list \<Rightarrow> 's handlers \<Rightarrow> 's handlers" where
  "register_all [] handlers = handlers"
| "register_all ((t, h) # regs) handlers = register_all regs (register_handler t h handlers)"

lemma register_all_lookup:
  "register_all regs handlers t =
     (case handlers t of Some h \<Rightarrow> Some h | None \<Rightarrow> map_of regs t)"
  by (induction regs arbitrary: handlers)
    (auto simp: register_handler_def split: option.splits)

text \<open>
  A handler that respects its span: it neither faults nor changes the buffer, and what it does
  depends on the actor and the bytes of the span only (\<open>f\<close> is its effect).
\<close>

definition handler_respects_span :: "'s handler \<Rightarrow> (actor option \<Rightarrow> byte list \<Rightarrow> 's \<Rightarrow> 's) \<Rightarrow> bool" where
  "handler_respects_span h f \<longleftrightarrow>
     (\<forall>mem n a s. n \<le> length mem \<longrightarrow> h mem n a s = Inr (mem, f a (take n mem) s))"

definition handlers_respect_span ::
    "'s handlers \<Rightarrow> (actor option \<Rightarrow> int \<Rightarrow> byte list \<Rightarrow> 's \<Rightarrow> 's) \<Rightarrow> bool" where
  "handlers_respect_span handlers f \<longleftrightarrow>
     (\<forall>t. case handlers t of
            None \<Rightarrow> (\<forall>a bs s. f a t bs s = s)
          | Some h \<Rightarrow> handler_respects_span h (\<lambda>a. f a t))"

lemma dispatch_respectful:
  assumes "handlers_respect_span handlers f" and "n \<le> length mem"
  shows "dispatch handlers t mem n a s = Inr (handlers t \<noteq> None, mem, f a t (take n mem) s)"
proof (cases "handlers t")
  case None
  with assms(1) have "f a t (take n mem) s = s"
    by (auto simp: handlers_respect_span_def dest!: spec [of _ t])
  with None show ?thesis by (simp add: dispatch_def)
next
  case (Some h)
  with assms have "h mem n a s = Inr (mem, f a t (take n mem) s)"
    by (auto simp: handlers_respect_span_def handler_respects_span_def dest!: spec [of _ t])
  with Some show ?thesis by (simp add: dispatch_def)
qed

text \<open>
  Dispatching a message runs the handler that was registered first for its type, however many
  were registered for it later; without one the dispatch reports false and changes nothing.
\<close>

theorem dispatch_first_registered:
  "dispatch (register_all regs Map.empty) t mem n a s =
     (case map_of regs t of
        None \<Rightarrow> Inr (False, mem, s)
      | Some h \<Rightarrow> bind_outcome (h mem n a s) (\<lambda>(mem', s'). Inr (True, mem', s')))"
  by (simp add: dispatch_def register_all_lookup)

end
