(* ===== verification/Session.thy ===== *)
theory Session
  imports Message_Buffer Dispatcher
begin

text \<open>
  A connection: the receive buffer of \<open>IOUringObject\<close> (\<open>net/IOUringObject.h\<close>), \<open>Actor\<close>
  (\<open>service/Actor.h\<close>, \<open>.cc\<close>), \<open>ServiceSession\<close> (\<open>service/ServiceSession.h\<close>, \<open>.cc\<close>) and the
  completion handlers of the I/O operations that call it (\<open>net/IOOperation*.cc\<close>). What a session
  asks of its service is returned as the list of calls it makes, in order; \<open>Service_Loop\<close> executes
  them. The specification is \<open>parse_frames\<close>: a stream of bytes read as length-prefixed messages.
\<close>

section \<open>IOUringObject\<close>

definition MAX_RECEIVE_BUFFER_SIZE :: int where "MAX_RECEIVE_BUFFER_SIZE = 4096"

record io_object =
  rx_buffer :: "byte list"
  commited_size :: int
  socket_fd :: int

definition reset :: "('b) io_object_scheme \<Rightarrow> 'b io_object_scheme" where
  "reset ob = ob\<lparr>commited_size := 0\<rparr>"

definition commit :: "int \<Rightarrow> 'b io_object_scheme \<Rightarrow> 'b io_object_scheme outcome" where
  "commit n ob =
     bind_outcome (checked_int (commited_size ob + n)) (\<lambda>c. Inr (ob\<lparr>commited_size := c\<rparr>))"

definition process_completed :: "int \<Rightarrow> 'b io_object_scheme \<Rightarrow> 'b io_object_scheme outcome" where
  "process_completed n ob =
     bind_outcome (checked_int (commited_size ob - n)) (\<lambda>rest.
       bind_outcome
         (if 0 < rest
          then (if n < 0 then Inl Out_Of_Bounds else mem_move 0 (nat n) (nat rest) (rx_buffer ob))
          else Inr (rx_buffer ob))
         (\<lambda>buf. Inr (ob\<lparr>rx_buffer := buf, commited_size := rest\<rparr>)))"

text \<open>Spans into \<open>buffer_\<close> are an offset and a length.\<close>

definition get_received_span :: "'b io_object_scheme \<Rightarrow> nat \<times> nat" where
  "get_received_span ob = (0, nat (commited_size ob))"

definition get_remain_span :: "'b io_object_scheme \<Rightarrow> nat \<times> nat" where
  "get_remain_span ob =
     (nat (commited_size ob), nat (MAX_RECEIVE_BUFFER_SIZE - commited_size ob))"

section \<open>Actor and ServiceSession\<close>

text \<open>
  The calls a session makes on its service: \<open>request_io\<close> of an operation for a session,
  \<open>request_accept_one\<close> and \<open>on_session_closed\<close>.
\<close>

datatype io_kind =
    Io_Recv nat nat
  | Io_Send_Buffer send_buffer
  | Io_Accept int
  | Io_Close

datatype service_call =
    Call_Request_Io nat io_kind
  | Call_Accept_One
  | Call_Session_Closed nat

record session = io_object +
  main_actor :: "actor option"

definition new_session :: session where
  "new_session = \<lparr>rx_buffer = replicate 4096 0, commited_size = 0, socket_fd = - 1, main_actor = None\<rparr>"

text \<open>\<open>self\<close> is the session, \<open>alive\<close> says whether \<open>service_instance_.lock()\<close> succeeds.\<close>

definition request_receive :: "nat \<Rightarrow> bool \<Rightarrow> session \<Rightarrow> service_call list" where
  "request_receive self alive ss =
     (let (off, len) = get_remain_span ss
      in if alive then [Call_Request_Io self (Io_Recv off len)] else [])"

definition session_request_send :: "nat \<Rightarrow> bool \<Rightarrow> send_buffer \<Rightarrow> service_call list" where
  "session_request_send self alive sb =
     (if alive then [Call_Request_Io self (Io_Send_Buffer sb)] else [])"

definition request_accept :: "nat \<Rightarrow> bool \<Rightarrow> int \<Rightarrow> service_call list" where
  "request_accept self alive accept_fd =
     (if alive then [Call_Request_Io self (Io_Accept accept_fd)] else [])"

definition session_request_close :: "nat \<Rightarrow> bool \<Rightarrow> service_call list" where
  "session_request_close self alive =
     (if alive then [Call_Request_Io self Io_Close] else [])"

definition actor_request_send :: "bool \<Rightarrow> send_buffer \<Rightarrow> actor \<Rightarrow> service_call list" where
  "actor_request_send alive sb a =
     (case actor_session a of None \<Rightarrow> [] | Some s \<Rightarrow> session_request_send s alive sb)"

definition actor_request_close :: "bool \<Rightarrow> actor \<Rightarrow> service_call list" where
  "actor_request_close alive a =
     (case actor_session a of None \<Rightarrow> [] | Some s \<Rightarrow> session_request_close s alive)"

definition actor_on_closed :: "actor \<Rightarrow> actor" where
  "actor_on_closed a = a\<lparr>actor_session := None\<rparr>"

definition on_accepted :: "nat \<Rightarrow> bool \<Rightarrow> session \<Rightarrow> session \<times> service_call list" where
  "on_accepted self alive ss =
     (let ss1 = (if main_actor ss = None
                 then ss\<lparr>main_actor := Some \<lparr>actor_session = Some self\<rparr>\<rparr> else ss)
      in (ss1, request_receive self alive ss1 @ (if alive then [Call_Accept_One] else [])))"

definition on_receive_failed :: "bool \<Rightarrow> session \<Rightarrow> service_call list" where
  "on_receive_failed alive ss =
     (case main_actor ss of None \<Rightarrow> [] | Some a \<Rightarrow> actor_request_close alive a)"

definition on_send_failed :: "bool \<Rightarrow> session \<Rightarrow> service_call list" where
  "on_send_failed alive ss =
     (case main_actor ss of None \<Rightarrow> [] | Some a \<Rightarrow> actor_request_close alive a)"

definition on_closed :: "nat \<Rightarrow> bool \<Rightarrow> session \<Rightarrow> session \<times> service_call list" where
  "on_closed self alive ss =
     (reset (ss\<lparr>main_actor := None\<rparr>), if alive then [Call_Session_Closed self] else [])"

text \<open>
  The loop of \<open>on_received\<close>. After the dispatch \<open>header->size\<close> is read again, from the buffer the
  handler may have changed. A handler that rewrites it can make the loop run forever, so not
  returning is the value \<open>None\<close>.
\<close>

partial_function (option) receive_loop ::
    "'s handlers \<Rightarrow> session \<Rightarrow> 's \<Rightarrow> (session \<times> 's) outcome option" where
  "receive_loop handlers ss s =
     (if commited_size ss < HEADER_SIZE then Some (Inr (ss, s))
      else (case parse_message (rx_buffer ss) of
        Inl e \<Rightarrow> Some (Inl e)
      | Inr header \<Rightarrow>
          if hd_size header < HEADER_SIZE then Some (Inr (ss, s))
          else if snd (get_received_span ss) < nat (hd_size header) then Some (Inr (ss, s))
          else (case dispatch handlers (sint (hd_type header)) (rx_buffer ss) (nat (hd_size header))
                   (main_actor ss) s of
            Inl e \<Rightarrow> Some (Inl e)
          | Inr (found, mem, s') \<Rightarrow>
              (case parse_message mem of
                 Inl e \<Rightarrow> Some (Inl e)
               | Inr header' \<Rightarrow>
                   (case process_completed (hd_size header') (ss\<lparr>rx_buffer := mem\<rparr>) of
                      Inl e \<Rightarrow> Some (Inl e)
                    | Inr ss' \<Rightarrow> receive_loop handlers ss' s')))))"

definition on_received ::
    "'s handlers \<Rightarrow> nat \<Rightarrow> bool \<Rightarrow> session \<Rightarrow> 's
       \<Rightarrow> (session \<times> 's \<times> service_call list) outcome option" where
  "on_received handlers self alive ss s =
     map_option (\<lambda>r. bind_outcome r (\<lambda>(ss', s'). Inr (ss', s', request_receive self alive ss')))
       (receive_loop handlers ss s)"

section \<open>Completion handlers of the operations\<close>

definition recv_completion ::
    "'s handlers \<Rightarrow> nat \<Rightarrow> bool \<Rightarrow> int \<Rightarrow> session \<Rightarrow> 's
       \<Rightarrow> (session \<times> 's \<times> service_call list) outcome option" where
  "recv_completion handlers self alive result ss s =
     (if result < 0 then Some (Inr (ss, s, on_receive_failed alive ss))
      else (case commit result ss of
              Inl e \<Rightarrow> Some (Inl e)
            | Inr ss' \<Rightarrow> on_received handlers self alive ss' s))"

text \<open>\<open>IOUringObject::on_sent\<close> and \<open>on_accept_failed\<close> do nothing and \<open>ServiceSession\<close> keeps them.\<close>

definition send_completion :: "int \<Rightarrow> session \<Rightarrow> session \<times> service_call list" where
  "send_completion result ss = (ss, [])"

definition accept_completion ::
    "nat \<Rightarrow> bool \<Rightarrow> int \<Rightarrow> session \<Rightarrow> session \<times> service_call list" where
  "accept_completion self alive result ss =
     (if result < 0 then (ss, [])
      else on_accepted self alive (ss\<lparr>socket_fd := result\<rparr>))"

definition close_completion :: "int \<Rightarrow> session \<Rightarrow> session \<times> service_call list" where
  "close_completion result ss = (ss, [])"

end
