(* ===== verification/Stream_Framing.thy ===== *)
theory Stream_Framing
  imports Session
begin

text \<open>
  What \<open>ServiceSession::on_received\<close> promises: the bytes a peer sends are cut into messages by the
  size field of their headers and each complete message is dispatched once, in order, however the
  transport splits the stream. \<open>parse_frames\<close> is that specification; the lemmas show that the
  receive loop refines it, the properties draw the consequences.
\<close>

section \<open>The specification\<close>

definition frame_length :: "byte list \<Rightarrow> nat option" where
  "frame_length bs =
     (if length bs < 8 then None
      else (let n = sint (le32_word (take 4 bs))
            in if n < 8 \<or> int (length bs) < n then None else Some (nat n)))"

definition frame_type :: "byte list \<Rightarrow> int" where
  "frame_type bs = sint (le32_word (take 4 (drop 4 bs)))"

lemma frame_length_bounds: "frame_length bs = Some n \<Longrightarrow> 8 \<le> n \<and> n \<le> length bs"
  by (auto simp: frame_length_def Let_def split: if_splits)

function parse_frames :: "byte list \<Rightarrow> byte list list \<times> byte list" where
  "parse_frames bs =
     (case frame_length bs of
        None \<Rightarrow> ([], bs)
      | Some n \<Rightarrow> (let (fs, rest) = parse_frames (drop n bs) in (take n bs # fs, rest)))"
  by pat_completeness auto
termination
  by (relation "measure length") (use frame_length_bounds in fastforce)+

declare parse_frames.simps [simp del]

abbreviation frames :: "byte list \<Rightarrow> byte list list" where
  "frames bs \<equiv> fst (parse_frames bs)"

abbreviation leftover :: "byte list \<Rightarrow> byte list" where
  "leftover bs \<equiv> snd (parse_frames bs)"

lemma parse_frames_None: "frame_length bs = None \<Longrightarrow> parse_frames bs = ([], bs)"
  by (simp add: parse_frames.simps)

lemma parse_frames_Some:
  "frame_length bs = Some n \<Longrightarrow>
     parse_frames bs = (take n bs # frames (drop n bs), leftover (drop n bs))"
  by (simp add: parse_frames.simps [of bs] split: prod.split)

lemma frame_length_append:
  assumes "frame_length xs = Some n"
  shows "frame_length (xs @ ys) = Some n"
  using assms by (auto simp: frame_length_def Let_def split: if_splits)

lemma parse_frames_append:
  "parse_frames (xs @ ys) =
     (frames xs @ frames (leftover xs @ ys), leftover (leftover xs @ ys))"
proof (induction xs rule: parse_frames.induct)
  case (1 xs)
  show ?case
  proof (cases "frame_length xs")
    case None
    then show ?thesis by (simp add: parse_frames_None [OF None])
  next
    case (Some n)
    from frame_length_bounds [OF Some] have n: "n \<le> length xs" by simp
    note IH = "1.IH" [OF Some]
    from frame_length_append [OF Some, of ys] n show ?thesis
      by (simp add: parse_frames_Some [OF Some] parse_frames_Some IH)
  qed
qed

lemma frames_concat: "concat (frames bs) @ leftover bs = bs"
proof (induction bs rule: parse_frames.induct)
  case (1 bs)
  show ?case
  proof (cases "frame_length bs")
    case None
    then show ?thesis by (simp add: parse_frames_None [OF None])
  next
    case (Some n)
    from "1.IH" [OF Some] show ?thesis
      by (simp add: parse_frames_Some [OF Some])
  qed
qed

lemma leftover_length: "length (leftover bs) \<le> length bs"
  by (metis frames_concat le_add2 length_append)

lemma leftover_no_frame: "frame_length (leftover bs) = None"
proof (induction bs rule: parse_frames.induct)
  case (1 bs)
  show ?case
    by (cases "frame_length bs") (simp_all add: parse_frames_None parse_frames_Some "1.IH")
qed

text \<open>Messages as a peer writes them.\<close>

definition encode_message :: "u32 \<Rightarrow> byte list \<Rightarrow> byte list" where
  "encode_message t payload =
     encode_header \<lparr>hd_size = 8 + int (length payload), hd_type = t\<rparr> @ payload"

lemma take_encode_header:
  "take 4 (encode_header h @ xs) = le32_bytes (word_of_int (hd_size h))"
  "take 4 (drop 4 (encode_header h @ xs)) = le32_bytes (hd_type h)"
  "take 4 (encode_header h) = le32_bytes (word_of_int (hd_size h))"
  "drop 4 (encode_header h) = le32_bytes (hd_type h)"
  by (simp_all add: encode_header_def)

lemma frame_length_encode:
  assumes "length payload < 2 ^ 30"
  shows "frame_length (encode_message t payload @ xs) = Some (8 + length payload)"
proof -
  have "fits_int (8 + int (length payload))" using assms by (simp add: fits_int_def)
  then have "sint (le32_word (take 4 (encode_message t payload @ xs))) = 8 + int (length payload)"
    by (simp only: encode_message_def append.assoc take_encode_header le32_roundtrip
        message_header.simps sint_word_of_fits)
  then show ?thesis by (simp add: frame_length_def encode_message_def Let_def)
qed

lemma frames_encode:
  "list_all (\<lambda>(t, payload). length payload < 2 ^ 30) ms \<Longrightarrow>
     parse_frames (concat (map (\<lambda>(t, p). encode_message t p) ms) @ xs) =
       (map (\<lambda>(t, p). encode_message t p) ms @ frames xs, leftover xs)"
proof (induction ms)
  case (Cons m ms)
  obtain t p where m: "m = (t, p)" by fastforce
  with Cons.prems have p: "length p < 2 ^ 30" by simp
  have len: "length (encode_message t p) = 8 + length p" by (simp add: encode_message_def)
  from frame_length_encode [OF p, of t] Cons m len show ?case
    by (simp add: parse_frames_Some)
qed simp

lemma frame_type_encode: "frame_type (encode_message t payload) = sint t"
  by (simp add: frame_type_def encode_message_def take_encode_header)

section \<open>The receive loop refines it\<close>

definition session_ok :: "session \<Rightarrow> bool" where
  "session_ok ss \<longleftrightarrow> length (rx_buffer ss) = 4096 \<and> 0 \<le> commited_size ss \<and> commited_size ss \<le> 4096"

definition received :: "session \<Rightarrow> byte list" where
  "received ss = take (nat (commited_size ss)) (rx_buffer ss)"

definition run_frames :: "(int \<Rightarrow> byte list \<Rightarrow> 's \<Rightarrow> 's) \<Rightarrow> byte list list \<Rightarrow> 's \<Rightarrow> 's" where
  "run_frames f fs s = foldl (\<lambda>s fr. f (frame_type fr) fr s) s fs"

lemma received_length: "session_ok ss \<Longrightarrow> length (received ss) = nat (commited_size ss)"
  by (simp add: session_ok_def received_def nat_le_iff)

lemma parse_message_received:
  assumes "session_ok ss" and "8 \<le> length (received ss)"
  shows "parse_message (rx_buffer ss) =
    Inr \<lparr>hd_size = sint (le32_word (take 4 (received ss))),
         hd_type = le32_word (take 4 (drop 4 (received ss)))\<rparr>"
proof -
  have n: "8 \<le> nat (commited_size ss)" using assms received_length by metis
  then have "take 4 (received ss) = take 4 (rx_buffer ss)"
    "take 4 (drop 4 (received ss)) = take 4 (drop 4 (rx_buffer ss))"
    by (simp_all add: received_def min_def drop_take)
  then show ?thesis using assms(1)
    by (simp add: parse_message_def mem_read_def session_ok_def)
qed

lemma process_completed_received:
  assumes ok: "session_ok ss" and n: "n \<le> length (received ss)"
  shows "\<exists>ss'. process_completed (int n) ss = Inr ss' \<and> session_ok ss' \<and>
    received ss' = drop n (received ss) \<and> socket_fd ss' = socket_fd ss \<and>
    main_actor ss' = main_actor ss"
proof -
  obtain c where c: "commited_size ss = int c"
    using ok by (auto simp: session_ok_def elim: nonneg_int_cases)
  with ok n have le: "n \<le> c" "c \<le> 4096" "length (rx_buffer ss) = 4096"
    by (auto simp: session_ok_def received_length)
  have d: "int c - int n = int (c - n)" using le by simp
  have fi: "fits_int (int (c - n))" using le by (intro fits_int_of_nat) simp
  let ?buf = "if n < c then take (c - n) (drop n (rx_buffer ss)) @ drop (c - n) (rx_buffer ss)
    else rx_buffer ss"
  let ?ss = "ss\<lparr>rx_buffer := ?buf, commited_size := int (c - n)\<rparr>"
  have "n < c \<Longrightarrow> mem_move 0 n (c - n) (rx_buffer ss) =
      Inr (take (c - n) (drop n (rx_buffer ss)) @ drop (c - n) (rx_buffer ss))"
    using le by (intro mem_move_down) simp
  then have "process_completed (int n) ss = Inr ?ss"
    using fi by (simp add: process_completed_def c d del: of_nat_diff)
  moreover have "session_ok ?ss" using le by (simp add: session_ok_def)
  moreover have "received ?ss = drop n (received ss)"
    using le c by (simp add: received_def drop_take del: of_nat_diff)
  ultimately show ?thesis by (intro exI [of _ ?ss]) simp
qed

lemma receive_loop_refines:
  assumes "handlers_respect_span handlers f" and "session_ok ss"
  shows "\<exists>ss'. receive_loop handlers ss s = Some (Inr (ss', run_frames (f (main_actor ss)) (frames (received ss)) s)) \<and>
    session_ok ss' \<and> received ss' = leftover (received ss) \<and>
    socket_fd ss' = socket_fd ss \<and> main_actor ss' = main_actor ss"
  using assms(2)
proof (induction "received ss" arbitrary: ss s rule: parse_frames.induct)
  case 1
  note ok = \<open>session_ok ss\<close>
  have len: "length (received ss) = nat (commited_size ss)" using received_length [OF ok] .
  show ?case
  proof (cases "frame_length (received ss)")
    case None
    have "receive_loop handlers ss s = Some (Inr (ss, s))"
    proof (cases "commited_size ss < HEADER_SIZE")
      case True
      then show ?thesis by (simp add: receive_loop.simps [of handlers ss s])
    next
      case False
      then have "8 \<le> length (received ss)" using len by (simp add: HEADER_SIZE_def)
      with parse_message_received [OF ok this] None len False show ?thesis
        by (auto simp: receive_loop.simps [of handlers ss s] frame_length_def Let_def
            HEADER_SIZE_def get_received_span_def split: if_splits)
    qed
    with None ok show ?thesis by (simp add: parse_frames_None [OF None] run_frames_def)
  next
    case (Some n)
    from frame_length_bounds [OF Some] have n: "8 \<le> n" "n \<le> length (received ss)" by simp_all
    from Some have hd: "sint (le32_word (take 4 (received ss))) = int n"
      by (auto simp: frame_length_def Let_def split: if_splits)
    let ?fr = "take n (received ss)"
    have fr: "take n (rx_buffer ss) = ?fr" and nb: "n \<le> length (rx_buffer ss)"
      using n len ok by (auto simp: received_def session_ok_def)
    have ty: "frame_type ?fr = sint (le32_word (take 4 (drop 4 (received ss))))"
      using n by (simp add: frame_type_def drop_take)
    have disp: "dispatch handlers (frame_type ?fr) (rx_buffer ss) n (main_actor ss) s =
        Inr (handlers (frame_type ?fr) \<noteq> None, rx_buffer ss, f (main_actor ss) (frame_type ?fr) ?fr s)"
      using dispatch_respectful [OF assms(1) nb] fr by metis
    obtain ss1 where ss1: "process_completed (int n) ss = Inr ss1" "session_ok ss1"
      "received ss1 = drop n (received ss)" "socket_fd ss1 = socket_fd ss"
      "main_actor ss1 = main_actor ss"
      using process_completed_received [OF ok n(2)] by blast
    moreover have "\<not> commited_size ss < 8" using n len by linarith
    ultimately have "receive_loop handlers ss s = receive_loop handlers ss1 (f (main_actor ss) (frame_type ?fr) ?fr s)"
      using parse_message_received [OF ok] n len hd disp ss1(1)
      by (simp add: receive_loop.simps [of handlers ss s] HEADER_SIZE_def get_received_span_def ty)
    with "1.hyps" [OF Some ss1(3) [symmetric] ss1(2)] ss1 show ?thesis
      by (auto simp: parse_frames_Some [OF Some] run_frames_def)
  qed
qed

section \<open>A connection over time\<close>

text \<open>
  The kernel answers a receive request by writing some bytes at the requested place and reporting
  their number; \<open>recv_chunk\<close> is such a completion, followed by the session's handler. The kernel's
  promise is that the bytes fit the requested length.
\<close>

definition recv_chunk ::
    "'s handlers \<Rightarrow> nat \<Rightarrow> bool \<Rightarrow> byte list \<Rightarrow> session \<Rightarrow> 's
       \<Rightarrow> (session \<times> 's \<times> service_call list) outcome option" where
  "recv_chunk handlers self alive bs ss s =
     (case mem_write (fst (get_remain_span ss)) bs (rx_buffer ss) of
        Inl e \<Rightarrow> Some (Inl e)
      | Inr buf \<Rightarrow>
          recv_completion handlers self alive (int (length bs)) (ss\<lparr>rx_buffer := buf\<rparr>) s)"

fun recv_chunks ::
    "'s handlers \<Rightarrow> nat \<Rightarrow> bool \<Rightarrow> byte list list \<Rightarrow> session \<Rightarrow> 's
       \<Rightarrow> (session \<times> 's) outcome option" where
  "recv_chunks handlers self alive [] ss s = Some (Inr (ss, s))"
| "recv_chunks handlers self alive (bs # bss) ss s =
     (case recv_chunk handlers self alive bs ss s of
        None \<Rightarrow> None
      | Some (Inl e) \<Rightarrow> Some (Inl e)
      | Some (Inr (ss', s', calls)) \<Rightarrow> recv_chunks handlers self alive bss ss' s')"

fun chunks_fit :: "byte list \<Rightarrow> byte list list \<Rightarrow> bool" where
  "chunks_fit pending [] = True"
| "chunks_fit pending (bs # bss) \<longleftrightarrow>
     length pending + length bs \<le> 4096 \<and> chunks_fit (leftover (pending @ bs)) bss"

lemma recv_chunk_spec:
  assumes h: "handlers_respect_span handlers f" and ok: "session_ok ss"
    and fit: "length (received ss) + length bs \<le> 4096"
  shows "\<exists>ss'. recv_chunk handlers self alive bs ss s =
      Some (Inr (ss', run_frames (f (main_actor ss)) (frames (received ss @ bs)) s, request_receive self alive ss')) \<and>
    session_ok ss' \<and> received ss' = leftover (received ss @ bs) \<and>
    socket_fd ss' = socket_fd ss \<and> main_actor ss' = main_actor ss"
proof -
  obtain c where c: "commited_size ss = int c"
    using ok by (auto simp: session_ok_def elim: nonneg_int_cases)
  then have len: "length (rx_buffer ss) = 4096" "length (received ss) = c" "c + length bs \<le> 4096"
    using ok fit by (auto simp: session_ok_def received_length)
  let ?buf = "take c (rx_buffer ss) @ bs @ drop (c + length bs) (rx_buffer ss)"
  let ?ss = "ss\<lparr>rx_buffer := ?buf, commited_size := int (c + length bs)\<rparr>"
  have "mem_write (fst (get_remain_span ss)) bs (rx_buffer ss) = Inr ?buf"
    using len c by (simp add: get_remain_span_def outcome_simps)
  moreover have "fits_int (int (c + length bs))" using len by (intro fits_int_of_nat) simp
  ultimately have "recv_chunk handlers self alive bs ss s = on_received handlers self alive ?ss s"
    using c by (simp add: recv_chunk_def recv_completion_def commit_def)
  moreover have "session_ok ?ss" using len by (simp add: session_ok_def)
  moreover have "received ?ss = received ss @ bs"
    using len c by (simp add: received_def nat_add_distrib)
  ultimately show ?thesis
    using receive_loop_refines [OF h, of ?ss s] by (auto simp: on_received_def)
qed

lemma run_frames_append: "run_frames f (fs @ gs) s = run_frames f gs (run_frames f fs s)"
  by (simp add: run_frames_def)

text \<open>Between two completions no complete message is left in the buffer.\<close>

definition session_idle :: "session \<Rightarrow> bool" where
  "session_idle ss \<longleftrightarrow> session_ok ss \<and> frame_length (received ss) = None"

lemma new_session_idle [simp]: "session_idle new_session" "received new_session = []"
  by (simp_all add: session_idle_def session_ok_def new_session_def received_def frame_length_def)

lemma recv_chunks_spec:
  assumes h: "handlers_respect_span handlers f"
  shows "session_idle ss \<Longrightarrow> chunks_fit (received ss) bss \<Longrightarrow>
    \<exists>ss'. recv_chunks handlers self alive bss ss s =
      Some (Inr (ss', run_frames (f (main_actor ss)) (frames (received ss @ concat bss)) s)) \<and>
    session_idle ss' \<and> received ss' = leftover (received ss @ concat bss) \<and> main_actor ss' = main_actor ss"
proof (induction bss arbitrary: ss s)
  case Nil
  then show ?case
    by (simp add: session_idle_def parse_frames_None run_frames_def)
next
  case (Cons bs bss)
  let ?s1 = "run_frames (f (main_actor ss)) (frames (received ss @ bs)) s"
  obtain ss1 where ss1: "recv_chunk handlers self alive bs ss s =
      Some (Inr (ss1, ?s1, request_receive self alive ss1))" "session_ok ss1"
    "received ss1 = leftover (received ss @ bs)" "main_actor ss1 = main_actor ss"
    using recv_chunk_spec [OF h, of ss bs self alive s] Cons.prems by (auto simp: session_idle_def)
  then have "session_idle ss1" by (simp add: session_idle_def leftover_no_frame)
  from Cons.IH [OF this, of ?s1] Cons.prems ss1 show ?case
    using parse_frames_append [of "received ss @ bs" "concat bss"]
    by (simp add: run_frames_append)
qed

section \<open>Properties of the receive path\<close>

text \<open>Handlers for the witnesses: type 1 records the message, other types are not handled.\<close>

definition log_handlers :: "byte list list handlers" where
  "log_handlers = [1 \<mapsto> \<lambda>mem n a s. Inr (mem, s @ [take n mem])]"

definition log_effect :: "actor option \<Rightarrow> int \<Rightarrow> byte list \<Rightarrow> byte list list \<Rightarrow> byte list list" where
  "log_effect a t bs s = (if t = 1 then s @ [bs] else s)"

lemma log_handlers_respect: "handlers_respect_span log_handlers log_effect"
  by (simp add: handlers_respect_span_def handler_respects_span_def log_handlers_def log_effect_def)

lemma on_received_frames_helper:
  assumes "handlers_respect_span handlers f" and "session_ok ss"
  shows "\<exists>ss'. on_received handlers self True ss s =
      Some (Inr (ss', run_frames (f (main_actor ss)) (frames (received ss)) s,
        [Call_Request_Io self (Io_Recv (length (leftover (received ss)))
           (4096 - length (leftover (received ss))))])) \<and>
    session_ok ss' \<and> received ss' = leftover (received ss)"
proof -
  obtain ss' where ss': "receive_loop handlers ss s =
      Some (Inr (ss', run_frames (f (main_actor ss)) (frames (received ss)) s))"
    "session_ok ss'" "received ss' = leftover (received ss)"
    using receive_loop_refines [OF assms] by blast
  then have "nat (commited_size ss') = length (leftover (received ss))"
    by (metis received_length)
  with ss' show ?thesis
    by (auto simp: on_received_def request_receive_def get_remain_span_def
        MAX_RECEIVE_BUFFER_SIZE_def nat_diff_distrib session_ok_def)
qed

text \<open>
  C17: The receive loop implements the framing of the stream: from any well-formed buffer it
  terminates, dispatches exactly the complete messages in order, keeps the rest, stays within the
  buffer and asks for the next bytes right behind the rest.
\<close>

theorem on_received_frames_stream:
  assumes "handlers_respect_span handlers f" and "session_ok ss"
  shows "\<exists>ss'. on_received handlers self True ss s =
      Some (Inr (ss', run_frames (f (main_actor ss)) (frames (received ss)) s,
        [Call_Request_Io self (Io_Recv (length (leftover (received ss)))
           (4096 - length (leftover (received ss))))])) \<and>
    session_ok ss' \<and> received ss' = leftover (received ss)"
  using assms by (rule on_received_frames_helper)

definition filled_session :: "byte list \<Rightarrow> session" where
  "filled_session bs = new_session\<lparr>rx_buffer := bs @ replicate (4096 - length bs) 0,
     commited_size := int (length bs)\<rparr>"

lemma filled_session_ok [simp]:
  "length bs \<le> 4096 \<Longrightarrow> session_ok (filled_session bs)"
  "received (filled_session bs) = bs"
  "main_actor (filled_session bs) = None"
  by (simp_all add: new_session_def session_ok_def filled_session_def received_def)

theorem on_received_frames_stream_witness:
  "\<exists>ss'. on_received log_handlers 0 True (filled_session (encode_message 1 [7] @ [9])) [] =
      Some (Inr (ss', run_frames (log_effect None) (frames (encode_message 1 [7] @ [9])) [],
        [Call_Request_Io 0 (Io_Recv (length (leftover (encode_message 1 [7] @ [9])))
           (4096 - length (leftover (encode_message 1 [7] @ [9]))))])) \<and>
    session_ok ss' \<and> received ss' = leftover (encode_message 1 [7] @ [9])"
  using on_received_frames_stream [OF log_handlers_respect,
      of "filled_session (encode_message 1 [7] @ [9])" 0 "[]"]
  by (simp add: encode_message_def)

text \<open>
  C1: A peer's messages reach their handlers exactly once, whole and in order, however the
  transport cuts the stream: whatever chunks (each fitting the space that was offered) the bytes
  of the messages \<open>ms\<close> arrive in, and with any incomplete tail behind them, the handlers run on
  the encoded messages in the order they were sent, each with the actor of the session.
\<close>

theorem messages_delivered_in_order:
  assumes "handlers_respect_span handlers f"
    and "list_all (\<lambda>(t, payload). length payload < 2 ^ 30) ms" and "frame_length tail = None"
    and "concat bss = concat (map (\<lambda>(t, p). encode_message t p) ms) @ tail"
    and "chunks_fit [] bss" and "session_idle ss" and "received ss = []"
  shows "\<exists>ss'. recv_chunks handlers self alive bss ss s =
      Some (Inr (ss', foldl (\<lambda>s (t, p). f (main_actor ss) (sint t) (encode_message t p) s) s ms)) \<and>
    received ss' = tail"
proof -
  have fr: "parse_frames (concat bss) = (map (\<lambda>(t, p). encode_message t p) ms, tail)"
    using frames_encode [OF assms(2), of tail] assms(3,4) by (simp add: parse_frames_None)
  have "run_frames (f (main_actor ss)) (map (\<lambda>(t, p). encode_message t p) ms) s =
      foldl (\<lambda>s (t, p). f (main_actor ss) (sint t) (encode_message t p) s) s ms"
    by (induction ms arbitrary: s) (auto simp: run_frames_def frame_type_encode)
  with recv_chunks_spec [OF assms(1), of ss bss self alive s] assms(5-7) fr show ?thesis
    by auto
qed

definition ping :: "byte list" where
  "ping = [9, 0, 0, 0, 1, 0, 0, 0, 7]"

lemma encode_ping: "encode_message 1 [7] = ping"
  by (simp add: ping_def encode_message_def encode_header_def le32_bytes_def)

lemma leftover_short: "length bs < 8 \<Longrightarrow> leftover bs = bs"
  by (simp add: parse_frames_None frame_length_def)

text \<open>A session as it is after its first accept.\<close>

definition accepted_session :: "nat \<Rightarrow> session" where
  "accepted_session i = fst (on_accepted i True new_session)"

lemma accepted_session_eq: "accepted_session i = new_session\<lparr>main_actor := Some \<lparr>actor_session = Some i\<rparr>\<rparr>"
  by (simp add: accepted_session_def on_accepted_def Let_def new_session_def)

lemma accepted_session_idle [simp]: "session_idle (accepted_session i)" "received (accepted_session i) = []"
  "main_actor (accepted_session i) = Some \<lparr>actor_session = Some i\<rparr>"
  by (simp_all add: accepted_session_eq new_session_def session_idle_def session_ok_def received_def frame_length_def)

theorem messages_delivered_in_order_witness:
  "\<exists>ss'. recv_chunks log_handlers 0 True [take 3 ping, drop 3 ping, ping, [5]] (accepted_session 0) [] =
      Some (Inr (ss', foldl (\<lambda>s (t, p). log_effect (Some \<lparr>actor_session = Some 0\<rparr>) (sint t) (encode_message t p) s) []
        [(1, [7]), (1, [7])])) \<and>
    received ss' = [5]"
proof -
  have full: "leftover ping = []"
    using frames_encode [of "[(1, [7])]" "[]"]
    by (simp add: encode_ping parse_frames_None frame_length_def)
  have "chunks_fit [] [take 3 ping, drop 3 ping, ping, [5]]"
    using full by (simp add: leftover_short ping_def)
  then have "\<exists>ss'. recv_chunks log_handlers 0 True [take 3 ping, drop 3 ping, ping, [5]] (accepted_session 0) [] =
      Some (Inr (ss', foldl (\<lambda>s (t, p). log_effect (main_actor (accepted_session 0)) (sint t) (encode_message t p) s) []
        [(1, [7]), (1, [7])])) \<and> received ss' = [5]"
    by (intro messages_delivered_in_order [OF log_handlers_respect])
      (simp_all add: encode_ping frame_length_def)
  then show ?thesis by simp
qed

text \<open>
  The cuts of the transport do not matter: two ways of splitting the same bytes, both within
  the space offered, leave the same unconsumed bytes and the same handler effects.
\<close>

theorem segmentation_independent:
  assumes "handlers_respect_span handlers f" and "session_idle ss"
    and "chunks_fit (received ss) bss" and "chunks_fit (received ss) bss'"
    and "concat bss = concat bss'"
  shows "\<exists>ss1 ss2 s'. recv_chunks handlers self alive bss ss s = Some (Inr (ss1, s')) \<and>
    recv_chunks handlers self alive bss' ss s = Some (Inr (ss2, s')) \<and> received ss1 = received ss2"
proof -
  obtain ss1 where "recv_chunks handlers self alive bss ss s =
      Some (Inr (ss1, run_frames (f (main_actor ss)) (frames (received ss @ concat bss)) s))"
    "received ss1 = leftover (received ss @ concat bss)"
    using recv_chunks_spec [OF assms(1-3)] by blast
  moreover obtain ss2 where "recv_chunks handlers self alive bss' ss s =
      Some (Inr (ss2, run_frames (f (main_actor ss)) (frames (received ss @ concat bss)) s))"
    "received ss2 = leftover (received ss @ concat bss)"
    using recv_chunks_spec [OF assms(1,2,4)] assms(5) by metis
  ultimately show ?thesis by simp
qed

theorem segmentation_independent_witness:
  "\<exists>ss1 ss2 s'. recv_chunks log_handlers 0 True [take 3 ping, drop 3 ping] new_session [] =
      Some (Inr (ss1, s')) \<and>
    recv_chunks log_handlers 0 True [ping] new_session [] = Some (Inr (ss2, s')) \<and>
    received ss1 = received ss2"
  by (rule segmentation_independent [OF log_handlers_respect])
    (simp_all add: ping_def leftover_short)

text \<open>
  The first eight bytes hold a header no message can complete: a size below that of the header,
  or above that of the receive buffer.
\<close>

definition jammed_header :: "byte list \<Rightarrow> bool" where
  "jammed_header bs \<longleftrightarrow> 8 \<le> length bs \<and>
     (sint (le32_word (take 4 bs)) < 8 \<or> 4096 < sint (le32_word (take 4 bs)))"

lemma jammed_no_frame:
  "jammed_header bs \<Longrightarrow> length (bs @ xs) \<le> 4096 \<Longrightarrow> frame_length (bs @ xs) = None"
  by (auto simp: jammed_header_def frame_length_def Let_def)

lemma jammed_chunks:
  "jammed_header pending \<Longrightarrow> length pending \<le> 4096 \<Longrightarrow> chunks_fit pending bss \<Longrightarrow>
     length (pending @ concat bss) \<le> 4096"
proof (induction bss arbitrary: pending)
  case (Cons bs bss)
  then have fit: "length (pending @ bs) \<le> 4096" by simp
  then have "leftover (pending @ bs) = pending @ bs"
    using jammed_no_frame [OF Cons.prems(1) fit] by (simp add: parse_frames_None)
  moreover have "jammed_header (pending @ bs)" using Cons.prems(1) by (simp add: jammed_header_def)
  ultimately show ?case using Cons.IH [of "pending @ bs"] Cons.prems(3) fit by simp
qed simp

text \<open>
  C25: A bad header jams the connection for good: once the first eight bytes in the buffer announce
  a size below 8 or above 4096, no later bytes are ever dispatched, nothing is consumed, and the
  peer cannot get more than the rest of the buffer in. The session neither closes nor resynchronises.
\<close>

theorem bad_header_jams_session:
  assumes "handlers_respect_span handlers f" and "session_idle ss"
    and "jammed_header (received ss)" and "chunks_fit (received ss) bss"
  shows "\<exists>ss'. recv_chunks handlers self alive bss ss s = Some (Inr (ss', s)) \<and>
    received ss' = received ss @ concat bss \<and> length (received ss') \<le> 4096"
proof -
  have "length (received ss) \<le> 4096"
    using assms(2) by (auto simp: session_idle_def session_ok_def received_length)
  from jammed_chunks [OF assms(3) this assms(4)]
  have len: "length (received ss @ concat bss) \<le> 4096" .
  from jammed_no_frame [OF assms(3) this]
  have "parse_frames (received ss @ concat bss) = ([], received ss @ concat bss)"
    by (rule parse_frames_None)
  with recv_chunks_spec [OF assms(1,2,4), of self alive s] len show ?thesis
    by (auto simp: run_frames_def)
qed

theorem bad_header_jams_session_witness:
  "\<exists>ss'. recv_chunks log_handlers 0 True [ping, ping] (filled_session (replicate 8 0)) [] =
      Some (Inr (ss', [])) \<and>
    received ss' = received (filled_session (replicate 8 0)) @ concat [ping, ping] \<and>
    length (received ss') \<le> 4096"
proof (rule bad_header_jams_session [OF log_handlers_respect])
  have j: "jammed_header (replicate 8 0)"
    by (simp add: jammed_header_def numeral_eq_Suc)
  then show "jammed_header (received (filled_session (replicate 8 0)))" by simp
  have n: "frame_length (replicate 8 0) = None" "frame_length (replicate 8 0 @ ping) = None"
    using jammed_no_frame [OF j, of "[]"] jammed_no_frame [OF j, of ping] by (simp_all add: ping_def)
  then show "session_idle (filled_session (replicate 8 0))" by (simp add: session_idle_def)
  show "chunks_fit (received (filled_session (replicate 8 0))) [ping, ping]"
    using n by (simp add: parse_frames_None) (simp add: ping_def)
qed

text \<open>
  The end of the stream is not noticed. A receive that completes with 0 bytes, which is how
  the kernel reports that the peer has closed, changes nothing in an idle session and makes it ask
  for the same bytes again: it is neither closed nor returned to the service.
\<close>

theorem end_of_stream_is_polled:
  assumes "handlers_respect_span handlers f" and "session_idle ss"
  shows "\<exists>ss'. recv_completion handlers self True 0 ss s =
    Some (Inr (ss', s, [Call_Request_Io self (Io_Recv (length (received ss))
      (4096 - length (received ss)))])) \<and> received ss' = received ss \<and> session_idle ss'"
proof -
  have ok: "session_ok ss" and nf: "frame_length (received ss) = None"
    using assms(2) by (simp_all add: session_idle_def)
  then have "fits_int (commited_size ss)" by (auto simp: session_ok_def fits_int_def)
  then have "recv_completion handlers self True 0 ss s = on_received handlers self True ss s"
    by (simp add: recv_completion_def commit_def)
  moreover have "parse_frames (received ss) = ([], received ss)" using nf by (rule parse_frames_None)
  ultimately show ?thesis
    using on_received_frames_helper [OF assms(1) ok, of self s] nf
    by (auto simp: run_frames_def session_idle_def)
qed

theorem end_of_stream_is_polled_witness:
  "\<exists>ss'. recv_completion log_handlers 0 True 0 new_session [] =
    Some (Inr (ss', [], [Call_Request_Io 0 (Io_Recv (length (received new_session))
      (4096 - length (received new_session)))])) \<and>
    received ss' = received new_session \<and> session_idle ss'"
  by (rule end_of_stream_is_polled [OF log_handlers_respect]) simp

end
