(* ===== verification/Lockfree_Queue.thy ===== *)
theory Lockfree_Queue
  imports Braid_Prelude
begin

text \<open>
  The interface of \<open>boost::lockfree::queue\<close>, which is not part of the repository: the pool, the
  task serializer, the task distributor, the request queue and the session queue are its
  clients. Every one of them stores pointers, so an element is an address. Its operations are a parameter (a record of functions over an unknown representation
  \<open>'q\<close>); what the clients rely on is the locale \<open>lockfree_queue\<close>: a FIFO whose content is
  described by a list. Each operation is linearizable, so one call is one atomic step.
\<close>

section \<open>Operations and contract\<close>

text \<open>
  \<open>push\<close> returns false (here \<open>None\<close>, the queue unchanged) when no node can be allocated;
  \<open>pop\<close> returns false (here \<open>None\<close>) on an empty queue, and then leaves its argument alone.
\<close>

record 'q lfq_ops =
  lfq_new :: "nat \<Rightarrow> 'q"
  lfq_push :: "nat \<Rightarrow> 'q \<Rightarrow> 'q option"
  lfq_pop :: "'q \<Rightarrow> (nat \<times> 'q) option"
  lfq_empty :: "'q \<Rightarrow> bool"

locale lockfree_queue =
  fixes Q :: "'q lfq_ops"
    and contents :: "'q \<Rightarrow> nat list"
  assumes new_contents: "contents (lfq_new Q n) = []"
    and push_contents: "lfq_push Q x q = Some q' \<Longrightarrow> contents q' = contents q @ [x]"
    and pop_None: "lfq_pop Q q = None \<Longrightarrow> contents q = []"
    and pop_Some: "lfq_pop Q q = Some (x, q') \<Longrightarrow> contents q = x # contents q'"
    and empty_contents: "lfq_empty Q q \<longleftrightarrow> contents q = []"

text \<open>The documented case without memory exhaustion: a push succeeds.\<close>

locale reliable_queue = lockfree_queue +
  assumes push_succeeds: "lfq_push Q x q \<noteq> None"

section \<open>Calls whose result the clients ignore, and loops over a queue\<close>

definition push_ignore :: "'q lfq_ops \<Rightarrow> nat \<Rightarrow> 'q \<Rightarrow> 'q" where
  "push_ignore Q x q = (case lfq_push Q x q of None \<Rightarrow> q | Some q' \<Rightarrow> q')"

fun push_all :: "'q lfq_ops \<Rightarrow> nat list \<Rightarrow> 'q \<Rightarrow> 'q" where
  "push_all Q [] q = q"
| "push_all Q (x # xs) q = push_all Q xs (push_ignore Q x q)"

text \<open>
  \<open>while (queue.pop(x)) ...\<close>: nothing but the contract of the queue makes it stop, so not
  returning is the value \<open>None\<close>.
\<close>

partial_function (option) pop_all ::
    "'q lfq_ops \<Rightarrow> nat list \<Rightarrow> 'q \<Rightarrow> (nat list \<times> 'q) option" where
  "pop_all Q acc q =
     (case lfq_pop Q q of
        None \<Rightarrow> Some (acc, q)
      | Some (x, q') \<Rightarrow> pop_all Q (acc @ [x]) q')"

context lockfree_queue
begin

lemma pop_None_iff: "lfq_pop Q q = None \<longleftrightarrow> contents q = []"
proof (cases "lfq_pop Q q")
  case None
  then show ?thesis by (simp add: pop_None)
next
  case (Some p)
  then have "contents q = fst p # contents (snd p)" by (intro pop_Some) simp
  with Some show ?thesis by simp
qed

lemma pop_nonempty:
  assumes "contents q = x # xs"
  obtains q' where "lfq_pop Q q = Some (x, q')" and "contents q' = xs"
proof (cases "lfq_pop Q q")
  case None
  with assms show ?thesis by (simp add: pop_None_iff)
next
  case (Some p)
  then have "contents q = fst p # contents (snd p)" by (intro pop_Some) simp
  with assms Some that [of "snd p"] show ?thesis by (metis list.inject prod.collapse)
qed

lemma push_ignore_contents:
  "contents (push_ignore Q x q) = contents q @ [x] \<or> contents (push_ignore Q x q) = contents q"
  by (auto simp: push_ignore_def push_contents split: option.split)

lemma pop_all_returns:
  "\<exists>q'. pop_all Q acc q = Some (acc @ contents q, q') \<and> contents q' = []"
proof (induction "contents q" arbitrary: acc q)
  case Nil
  then have "lfq_pop Q q = None" by (simp add: pop_None_iff)
  with Nil show ?case by (simp add: pop_all.simps)
next
  case (Cons x xs)
  from Cons.hyps(2) [symmetric] obtain q' where
    q': "lfq_pop Q q = Some (x, q')" "contents q' = xs"
    by (rule pop_nonempty)
  from Cons.hyps(1) [OF q'(2) [symmetric], of "acc @ [x]"] show ?case
    using q' Cons.hyps(2) by (auto simp: pop_all.simps [of Q acc q])
qed

end

context reliable_queue
begin

lemma push_ignore_appends [simp]: "contents (push_ignore Q x q) = contents q @ [x]"
  using push_succeeds [of x q] push_contents [of x q]
  by (auto simp: push_ignore_def split: option.split)

lemma push_all_appends [simp]: "contents (push_all Q xs q) = contents q @ xs"
  by (induction xs arbitrary: q) simp_all

end

section \<open>The contract can be met\<close>

text \<open>
  A list satisfies the contract. The instance serves the concrete runs of the development; the
  theorems are about every queue that meets the contract.
\<close>

definition list_queue :: "nat list lfq_ops" where
  "list_queue = \<lparr>lfq_new = (\<lambda>_. []), lfq_push = (\<lambda>x q. Some (q @ [x])),
     lfq_pop = (\<lambda>q. case q of [] \<Rightarrow> None | x # q' \<Rightarrow> Some (x, q')),
     lfq_empty = (\<lambda>q. q = [])\<rparr>"

lemma list_queue_simps [simp]:
  "lfq_new list_queue n = []"
  "lfq_push list_queue x q = Some (q @ [x])"
  "lfq_pop list_queue [] = None"
  "lfq_pop list_queue (x # q) = Some (x, q)"
  "lfq_empty list_queue q = (q = [])"
  by (simp_all add: list_queue_def)

interpretation lq: reliable_queue list_queue "\<lambda>q. q"
  by unfold_locales (auto simp: list_queue_def split: list.splits)

lemma list_queue_push_ignore [simp]: "push_ignore list_queue x q = q @ [x]"
  by (simp add: push_ignore_def)

lemma list_queue_push_all [simp]: "push_all list_queue xs q = q @ xs"
  by (induction xs arbitrary: q) simp_all

end
