(* ===== verification/Ref_Count.thy ===== *)
theory Ref_Count
  imports Braid_Prelude
begin

text \<open>
  \<open>RefCountable\<close> (\<open>task/RefCountable.h\<close>) and its use by \<open>PooledObject\<close>: an intrusive counter, an
  \<open>atomic<int>\<close> that wraps around, whose last release runs \<open>on_final_release\<close>. The lemmas relate
  it to the number of references that are held.
\<close>

section \<open>The counter\<close>

definition add_ref :: "u32 \<Rightarrow> u32" where
  "add_ref n = n + 1"

text \<open>The result says whether this was the final release; releasing at 0 fails the assertion.\<close>

definition release_ref :: "u32 \<Rightarrow> (u32 \<times> bool) outcome" where
  "release_ref n = (if 0 < sint n then Inr (n - 1, n = 1) else Inl Assertion_Failure)"

text \<open>What the final release does: \<open>delete this\<close>, or \<open>on_zero_ref\<close> for a pooled object.\<close>

datatype final_action = Delete_This | On_Zero_Ref

definition on_final_release :: "bool \<Rightarrow> final_action" where
  "on_final_release pooled = (if pooled then On_Zero_Ref else Delete_This)"

text \<open>A history of references taken and given back; the result lists the final releases.\<close>

datatype ref_event = Take | Drop

fun run_refs :: "ref_event list \<Rightarrow> u32 \<Rightarrow> (u32 \<times> bool list) outcome" where
  "run_refs [] n = Inr (n, [])"
| "run_refs (Take # es) n = run_refs es (add_ref n)"
| "run_refs (Drop # es) n =
     bind_outcome (release_ref n) (\<lambda>(n', final).
       bind_outcome (run_refs es n') (\<lambda>(m, fs). Inr (m, final # fs)))"

section \<open>Reference counting is counting\<close>

lemma sint_of_small: "k < 2 ^ 31 \<Longrightarrow> sint (word_of_nat k :: u32) = int k"
  by (simp add: signed_of_nat signed_take_bit_int_eq_self)

lemma word_of_small_eq_1: "k < 2 ^ 31 \<Longrightarrow> (word_of_nat k :: u32) = 1 \<longleftrightarrow> k = 1"
  using sint_of_small [of k] sint_of_small [of 1] by auto

lemma release_ref_count:
  assumes "0 < k" and "k < 2 ^ 31"
  shows "release_ref (word_of_nat k) = Inr (word_of_nat (k - 1), k = 1)"
proof -
  obtain j where "k = Suc j" using assms(1) by (cases k) auto
  then have "(word_of_nat k :: u32) - 1 = word_of_nat (k - 1)" by simp
  then show ?thesis
    using assms sint_of_small [OF assms(2)] word_of_small_eq_1 [OF assms(2)]
    by (simp add: release_ref_def)
qed

lemma release_ref_simps [simp]:
  "release_ref 0 = Inl Assertion_Failure"
  "release_ref 1 = Inr (0, True)"
  "release_ref 2 = Inr (1, False)"
  by (simp_all add: release_ref_def)

text \<open>
  The specification counts references with a natural number: \<open>legal_refs k es\<close> when the history
  drops only references that are held and never holds \<open>2 ^ 31\<close> of them, \<open>last_drops k es\<close> marks
  the drops of the last reference.
\<close>

fun legal_refs :: "nat \<Rightarrow> ref_event list \<Rightarrow> bool" where
  "legal_refs k [] = True"
| "legal_refs k (Take # es) \<longleftrightarrow> Suc k < 2 ^ 31 \<and> legal_refs (Suc k) es"
| "legal_refs k (Drop # es) \<longleftrightarrow> 0 < k \<and> legal_refs (k - 1) es"

fun refs_after :: "nat \<Rightarrow> ref_event list \<Rightarrow> nat" where
  "refs_after k [] = k"
| "refs_after k (Take # es) = refs_after (Suc k) es"
| "refs_after k (Drop # es) = refs_after (k - 1) es"

fun last_drops :: "nat \<Rightarrow> ref_event list \<Rightarrow> bool list" where
  "last_drops k [] = []"
| "last_drops k (Take # es) = last_drops (Suc k) es"
| "last_drops k (Drop # es) = (k = 1) # last_drops (k - 1) es"

lemma run_refs_count:
  "k < 2 ^ 31 \<Longrightarrow> legal_refs k es \<Longrightarrow>
     run_refs es (word_of_nat k) = Inr (word_of_nat (refs_after k es), last_drops k es)"
proof (induction es arbitrary: k)
  case (Cons e es)
  show ?case
  proof (cases e)
    case Take
    have "add_ref (word_of_nat k) = word_of_nat (Suc k)" by (simp add: add_ref_def)
    moreover have "run_refs es (word_of_nat (Suc k)) =
        Inr (word_of_nat (refs_after (Suc k) es), last_drops (Suc k) es)"
      using Cons.prems Take by (intro Cons.IH) auto
    ultimately show ?thesis using Take by (simp del: of_nat_Suc)
  next
    case Drop
    with Cons.prems have "release_ref (word_of_nat k) = Inr (word_of_nat (k - 1), k = 1)"
      by (intro release_ref_count) simp_all
    moreover have "run_refs es (word_of_nat (k - 1)) =
        Inr (word_of_nat (refs_after (k - 1) es), last_drops (k - 1) es)"
      using Cons.prems Drop by (intro Cons.IH) auto
    ultimately show ?thesis using Drop by simp
  qed
qed simp

text \<open>
  Reference counting agrees with counting: over any history of a new object that drops only
  references it holds, no assertion fails and a release is final exactly when it drops the last
  reference held at that moment.
\<close>

theorem final_release_iff_last_reference:
  assumes "legal_refs 0 es"
  shows "run_refs es 0 = Inr (word_of_nat (refs_after 0 es), last_drops 0 es)"
  using run_refs_count [OF _ assms] by simp

theorem final_release_iff_last_reference_witness:
  "run_refs [Take, Take, Drop, Take, Drop, Drop] 0 =
     Inr (word_of_nat (refs_after 0 [Take, Take, Drop, Take, Drop, Drop]),
       last_drops 0 [Take, Take, Drop, Take, Drop, Drop])"
  by (rule final_release_iff_last_reference) simp

end
