(* ===== verification/Task_Machine.thy ===== *)
theory Task_Machine
  imports Lockfree_Queue Ref_Count
begin

text \<open>
  Task serialization (\<open>braid/src/task\<close>): \<open>TaskSerializer\<close>, \<open>TaskDistributor\<close>, the tasks and the
  threads that run them, as a small-step machine. A thread has a stack of frames, one per active
  call; a step executes the code of the top frame up to and including its next access to shared
  memory (an atomic load or store, or one queue operation), so the reachable states cover every
  interleaving of the threads.

  \<open>TaskDistributor.h\<close> defines \<open>g_task_distributor\<close> and \<open>tl_process_task_serializer\<close> as \<open>static\<close>:
  every source file that includes it has its own copy of both. \<open>TaskSerializer::push\<close> is compiled
  in \<open>TaskSerializer.cc\<close>, the members of \<open>TaskDistributor\<close> in \<open>TaskDistributor.cc\<close>, the call of the
  worker loop in \<open>WorkerThread.cc\<close>; \<open>unit\<close> names the copy.
\<close>

section \<open>State\<close>

datatype source_unit = TU_Serializer | TU_Distributor | TU_Worker

datatype serializer_state = RUNNING | DESTROYING | DESTROYED

definition MAX_PROCESS_TASK_COUNT :: nat where "MAX_PROCESS_TASK_COUNT = 30"

record 'q serializer =
  task_queue :: 'q
  state :: serializer_state

text \<open>
  A task runs a user function or \<open>TaskSerializer::clear\<close>. User functions are a parameter: \<open>prog\<close>
  gives, for each, the calls on serializers it makes; what else it does is not modelled.
\<close>

datatype task_code = User_Task nat | Clear_Task nat

datatype action = Act_Request nat nat | Act_Set_Destroy nat | Act_Clear nat

fun task_body :: "(nat \<Rightarrow> action list) \<Rightarrow> task_code \<Rightarrow> action list" where
  "task_body prog (User_Task f) = prog f"
| "task_body prog (Clear_Task s) = [Act_Clear s]"

record task_object =
  task_code :: task_code
  ref_count :: u32

text \<open>
  Frames. The argument of type \<open>source_unit\<close> of the frames of \<open>process_task_serializer\<close> is the
  distributor object it was called on; \<open>cur\<close> is the task the local \<open>ObjectPtr\<close> holds.
\<close>

datatype frame =
    F_Request nat task_code
  | F_Push nat nat
  | F_Enqueue nat nat bool
  | F_Route nat
  | F_Process source_unit nat
  | F_Loop source_unit nat "nat option"
  | F_Invoke source_unit nat nat "action list"
  | F_Check_State source_unit "nat option"
  | F_Check_Empty source_unit "nat option"
  | F_Readd source_unit "nat option"
  | F_Leave "nat option"
  | F_Poll source_unit
  | F_Clear nat
  | F_Clear_Pop nat
  | F_Free nat
  | F_Store_Destroying nat

record 'q task_sys =
  sers :: "nat \<Rightarrow> 'q serializer option"
  tasks :: "nat \<Rightarrow> task_object option"
  next_task :: nat
  dist :: "source_unit \<Rightarrow> 'q"
  tl_process :: "source_unit \<Rightarrow> nat \<Rightarrow> nat option"
  stacks :: "nat \<Rightarrow> frame list"

type_synonym 'q frame_step = "(frame list \<times> 'q task_sys) outcome"

section \<open>Reference-counted tasks\<close>

text \<open>\<open>new Task\<close>, the constructor of an \<open>ObjectPtr\<close> and its destruction or reassignment.\<close>

definition new_task :: "task_code \<Rightarrow> 'q task_sys \<Rightarrow> nat \<times> 'q task_sys" where
  "new_task c \<sigma> =
     (next_task \<sigma>, \<sigma>\<lparr>tasks := (tasks \<sigma>)(next_task \<sigma> \<mapsto> \<lparr>task_code = c, ref_count = 0\<rparr>),
                      next_task := Suc (next_task \<sigma>)\<rparr>)"

definition hold_task :: "nat \<Rightarrow> 'q task_sys \<Rightarrow> 'q task_sys outcome" where
  "hold_task x \<sigma> =
     (case tasks \<sigma> x of
        None \<Rightarrow> Inl Use_After_Free
      | Some k \<Rightarrow> Inr (\<sigma>\<lparr>tasks := (tasks \<sigma>)(x \<mapsto> k\<lparr>ref_count := add_ref (ref_count k)\<rparr>)\<rparr>))"

definition drop_task :: "nat \<Rightarrow> 'q task_sys \<Rightarrow> 'q task_sys outcome" where
  "drop_task x \<sigma> =
     (case tasks \<sigma> x of
        None \<Rightarrow> Inl Use_After_Free
      | Some k \<Rightarrow>
          bind_outcome (release_ref (ref_count k)) (\<lambda>(n, final).
            Inr (\<sigma>\<lparr>tasks := (tasks \<sigma>)(x := if final then None else Some (k\<lparr>ref_count := n\<rparr>))\<rparr>)))"

definition drop_held :: "nat option \<Rightarrow> 'q task_sys \<Rightarrow> 'q task_sys outcome" where
  "drop_held cur \<sigma> = (case cur of None \<Rightarrow> Inr \<sigma> | Some x \<Rightarrow> drop_task x \<sigma>)"

section \<open>Access to a serializer, through a pointer that may dangle\<close>

definition with_ser ::
    "nat \<Rightarrow> 'q task_sys \<Rightarrow> ('q serializer \<Rightarrow> 'b outcome) \<Rightarrow> 'b outcome" where
  "with_ser s \<sigma> f = (case sers \<sigma> s of None \<Rightarrow> Inl Use_After_Free | Some z \<Rightarrow> f z)"

definition put_ser :: "nat \<Rightarrow> 'q serializer \<Rightarrow> 'q task_sys \<Rightarrow> 'q task_sys" where
  "put_ser s z \<sigma> = \<sigma>\<lparr>sers := (sers \<sigma>)(s \<mapsto> z)\<rparr>"

definition with_current ::
    "nat \<Rightarrow> 'q task_sys \<Rightarrow> (nat \<Rightarrow> 'q serializer \<Rightarrow> 'b outcome) \<Rightarrow> 'b outcome" where
  "with_current t \<sigma> f =
     (case tl_process \<sigma> TU_Distributor t of
        None \<Rightarrow> Inl Null_Dereference
      | Some s \<Rightarrow> with_ser s \<sigma> (f s))"

definition set_tl :: "source_unit \<Rightarrow> nat \<Rightarrow> nat option \<Rightarrow> 'q task_sys \<Rightarrow> 'q task_sys" where
  "set_tl u t v \<sigma> = \<sigma>\<lparr>tl_process := (tl_process \<sigma>)(u := (tl_process \<sigma> u)(t := v))\<rparr>"

definition dist_push :: "'q lfq_ops \<Rightarrow> source_unit \<Rightarrow> nat \<Rightarrow> 'q task_sys \<Rightarrow> 'q task_sys" where
  "dist_push Q u s \<sigma> = \<sigma>\<lparr>dist := (dist \<sigma>)(u := push_ignore Q s (dist \<sigma> u))\<rparr>"

section \<open>Steps\<close>

text \<open>The frames a call made by a running task puts on the stack.\<close>

fun action_frames :: "action \<Rightarrow> frame list" where
  "action_frames (Act_Request s f) = [F_Request s (User_Task f)]"
| "action_frames (Act_Set_Destroy s) = [F_Request s (Clear_Task s), F_Store_Destroying s]"
| "action_frames (Act_Clear s) = [F_Clear s]"

text \<open>
  The code between two accesses to shared memory, one definition per piece: its result is the list
  of frames that replaces the current one, and the new state. The reference count of a task is
  changed in the same piece as the pop or the reset of the \<open>ObjectPtr\<close> that changes it, since no other
  thread has a pointer to the task at that time.

  \<open>request_task\<close> checks the state and allocates; \<open>push\<close> looks whether the queue is empty, enqueues, and
  decides who processes.
\<close>

definition request_task :: "nat \<Rightarrow> task_code \<Rightarrow> 'q task_sys \<Rightarrow> 'q frame_step" where
  [simp]: "request_task s c \<sigma> =
     with_ser s \<sigma> (\<lambda>z.
       if state z \<noteq> RUNNING then Inr ([], \<sigma>)
       else (let (x, \<sigma>1) = new_task c \<sigma> in Inr ([F_Push s x], \<sigma>1)))"

definition push_look :: "'q lfq_ops \<Rightarrow> nat \<Rightarrow> nat \<Rightarrow> 'q task_sys \<Rightarrow> 'q frame_step" where
  [simp]: "push_look Q s x \<sigma> =
     with_ser s \<sigma> (\<lambda>z. Inr ([F_Enqueue s x (lfq_empty Q (task_queue z))], \<sigma>))"

definition push_enqueue :: "'q lfq_ops \<Rightarrow> nat \<Rightarrow> nat \<Rightarrow> bool \<Rightarrow> 'q task_sys \<Rightarrow> 'q frame_step" where
  [simp]: "push_enqueue Q s x was_empty \<sigma> =
     with_ser s \<sigma> (\<lambda>z.
       Inr (if was_empty then [F_Route s] else [],
            put_ser s (z\<lparr>task_queue := push_ignore Q x (task_queue z)\<rparr>) \<sigma>))"

definition push_route :: "'q lfq_ops \<Rightarrow> nat \<Rightarrow> nat \<Rightarrow> 'q task_sys \<Rightarrow> 'q frame_step" where
  [simp]: "push_route Q t s \<sigma> =
     (if tl_process \<sigma> TU_Serializer t = None then Inr ([F_Process TU_Serializer s], \<sigma>)
      else Inr ([], dist_push Q TU_Serializer s \<sigma>))"

text \<open>
  \<open>process_task_serializer(TaskSerializer*)\<close>: entry, head of the loop (\<open>task = pop()\<close> and the start of
  \<open>invoke\<close>), end of the body, the two checks after the loop, the return.
\<close>

definition process_enter :: "source_unit \<Rightarrow> nat \<Rightarrow> nat \<Rightarrow> 'q task_sys \<Rightarrow> 'q frame_step" where
  [simp]: "process_enter d t s \<sigma> =
     (if tl_process \<sigma> TU_Distributor t \<noteq> None then Inl Assertion_Failure
      else Inr ([F_Loop d 0 None], set_tl TU_Distributor t (Some s) \<sigma>))"

definition process_pop ::
    "'q lfq_ops \<Rightarrow> (nat \<Rightarrow> action list) \<Rightarrow> source_unit \<Rightarrow> nat \<Rightarrow> nat \<Rightarrow> nat option \<Rightarrow> 'q task_sys \<Rightarrow> 'q frame_step" where
  [simp]: "process_pop Q prog d t n cur \<sigma> =
     with_current t \<sigma> (\<lambda>s z.
       case lfq_pop Q (task_queue z) of
         None \<Rightarrow> bind_outcome (drop_held cur \<sigma>) (\<lambda>\<sigma>1. Inr ([F_Check_State d None], \<sigma>1))
       | Some (x, q) \<Rightarrow>
           bind_outcome (hold_task x (put_ser s (z\<lparr>task_queue := q\<rparr>) \<sigma>)) (\<lambda>\<sigma>1.
           bind_outcome (drop_held cur \<sigma>1) (\<lambda>\<sigma>2.
             case tasks \<sigma>2 x of
               None \<Rightarrow> Inl Use_After_Free
             | Some k \<Rightarrow> Inr ([F_Invoke d n x (task_body prog (task_code k))], \<sigma>2))))"

definition process_next :: "source_unit \<Rightarrow> nat \<Rightarrow> nat \<Rightarrow> 'q task_sys \<Rightarrow> 'q frame_step" where
  [simp]: "process_next d n x \<sigma> =
     Inr ([if MAX_PROCESS_TASK_COUNT \<le> Suc n then F_Check_State d (Some x)
           else F_Loop d (Suc n) (Some x)], \<sigma>)"

definition process_check_state :: "source_unit \<Rightarrow> nat \<Rightarrow> nat option \<Rightarrow> 'q task_sys \<Rightarrow> 'q frame_step" where
  [simp]: "process_check_state d t cur \<sigma> =
     with_current t \<sigma> (\<lambda>s z.
       Inr (if state z = DESTROYED then [F_Clear s, F_Free s, F_Leave cur]
            else [F_Check_Empty d cur], \<sigma>))"

definition process_check_empty ::
    "'q lfq_ops \<Rightarrow> source_unit \<Rightarrow> nat \<Rightarrow> nat option \<Rightarrow> 'q task_sys \<Rightarrow> 'q frame_step" where
  [simp]: "process_check_empty Q d t cur \<sigma> =
     with_current t \<sigma> (\<lambda>s z.
       Inr (if lfq_empty Q (task_queue z) then [F_Leave cur] else [F_Readd d cur], \<sigma>))"

definition process_readd ::
    "'q lfq_ops \<Rightarrow> source_unit \<Rightarrow> nat \<Rightarrow> nat option \<Rightarrow> 'q task_sys \<Rightarrow> 'q frame_step" where
  [simp]: "process_readd Q d t cur \<sigma> =
     (case tl_process \<sigma> TU_Distributor t of
        None \<Rightarrow> Inl Null_Dereference
      | Some s \<Rightarrow> Inr ([F_Leave cur], dist_push Q d s \<sigma>))"

definition process_leave :: "nat \<Rightarrow> nat option \<Rightarrow> 'q task_sys \<Rightarrow> 'q frame_step" where
  [simp]: "process_leave t cur \<sigma> =
     bind_outcome (drop_held cur (set_tl TU_Distributor t None \<sigma>)) (\<lambda>\<sigma>1. Inr ([], \<sigma>1))"

text \<open>\<open>process_task_serializer()\<close>, the entry point of a worker.\<close>

definition poll_serializer :: "'q lfq_ops \<Rightarrow> source_unit \<Rightarrow> nat \<Rightarrow> 'q task_sys \<Rightarrow> 'q frame_step" where
  [simp]: "poll_serializer Q d t \<sigma> =
     (if tl_process \<sigma> TU_Distributor t \<noteq> None then Inl Assertion_Failure
      else (case lfq_pop Q (dist \<sigma> d) of
              None \<Rightarrow> Inr ([], \<sigma>)
            | Some (s, q) \<Rightarrow> Inr ([F_Process d s], \<sigma>\<lparr>dist := (dist \<sigma>)(d := q)\<rparr>)))"

text \<open>
  \<open>clear\<close>, two pieces per round: the look at the queue (and the store after the loop), the pop and
  release (\<open>task\<close> is not initialised: a pop that fails leaves an indeterminate pointer). Then \<open>delete\<close>,
  whose destructor has cleared the queue, and the second half of \<open>set_destroy\<close>.
\<close>

definition clear_look :: "'q lfq_ops \<Rightarrow> nat \<Rightarrow> 'q task_sys \<Rightarrow> 'q frame_step" where
  [simp]: "clear_look Q s \<sigma> =
     with_ser s \<sigma> (\<lambda>z.
       if lfq_empty Q (task_queue z) then Inr ([], put_ser s (z\<lparr>state := DESTROYED\<rparr>) \<sigma>)
       else Inr ([F_Clear_Pop s], \<sigma>))"

definition clear_pop :: "'q lfq_ops \<Rightarrow> nat \<Rightarrow> 'q task_sys \<Rightarrow> 'q frame_step" where
  [simp]: "clear_pop Q s \<sigma> =
     with_ser s \<sigma> (\<lambda>z.
       case lfq_pop Q (task_queue z) of
         None \<Rightarrow> Inl Uninitialized_Read
       | Some (x, q) \<Rightarrow>
           bind_outcome (drop_task x (put_ser s (z\<lparr>task_queue := q\<rparr>) \<sigma>)) (\<lambda>\<sigma>1.
             Inr ([F_Clear s], \<sigma>1)))"

definition free_serializer :: "nat \<Rightarrow> 'q task_sys \<Rightarrow> 'q frame_step" where
  [simp]: "free_serializer s \<sigma> =
     with_ser s \<sigma> (\<lambda>z. Inr ([], \<sigma>\<lparr>sers := (sers \<sigma>)(s := None)\<rparr>))"

definition store_destroying :: "nat \<Rightarrow> 'q task_sys \<Rightarrow> 'q frame_step" where
  [simp]: "store_destroying s \<sigma> =
     with_ser s \<sigma> (\<lambda>z. Inr ([], put_ser s (z\<lparr>state := DESTROYING\<rparr>) \<sigma>))"

text \<open>One step of thread \<open>t\<close>: the top frame is replaced by the frames of the result.\<close>

fun step_frame ::
    "'q lfq_ops \<Rightarrow> (nat \<Rightarrow> action list) \<Rightarrow> nat \<Rightarrow> frame \<Rightarrow> 'q task_sys \<Rightarrow> 'q frame_step" where
  "step_frame Q prog t (F_Request s c) \<sigma> = request_task s c \<sigma>"
| "step_frame Q prog t (F_Push s x) \<sigma> = push_look Q s x \<sigma>"
| "step_frame Q prog t (F_Enqueue s x was_empty) \<sigma> = push_enqueue Q s x was_empty \<sigma>"
| "step_frame Q prog t (F_Route s) \<sigma> = push_route Q t s \<sigma>"
| "step_frame Q prog t (F_Process d s) \<sigma> = process_enter d t s \<sigma>"
| "step_frame Q prog t (F_Loop d n cur) \<sigma> = process_pop Q prog d t n cur \<sigma>"
| "step_frame Q prog t (F_Invoke d n x (a # acts)) \<sigma> = Inr (action_frames a @ [F_Invoke d n x acts], \<sigma>)"
| "step_frame Q prog t (F_Invoke d n x []) \<sigma> = process_next d n x \<sigma>"
| "step_frame Q prog t (F_Check_State d cur) \<sigma> = process_check_state d t cur \<sigma>"
| "step_frame Q prog t (F_Check_Empty d cur) \<sigma> = process_check_empty Q d t cur \<sigma>"
| "step_frame Q prog t (F_Readd d cur) \<sigma> = process_readd Q d t cur \<sigma>"
| "step_frame Q prog t (F_Leave cur) \<sigma> = process_leave t cur \<sigma>"
| "step_frame Q prog t (F_Poll d) \<sigma> = poll_serializer Q d t \<sigma>"
| "step_frame Q prog t (F_Clear s) \<sigma> = clear_look Q s \<sigma>"
| "step_frame Q prog t (F_Clear_Pop s) \<sigma> = clear_pop Q s \<sigma>"
| "step_frame Q prog t (F_Free s) \<sigma> = free_serializer s \<sigma>"
| "step_frame Q prog t (F_Store_Destroying s) \<sigma> = store_destroying s \<sigma>"

definition thread_step ::
    "'q lfq_ops \<Rightarrow> (nat \<Rightarrow> action list) \<Rightarrow> nat \<Rightarrow> 'q task_sys \<Rightarrow> 'q task_sys outcome" where
  "thread_step Q prog t \<sigma> =
     (case stacks \<sigma> t of
        [] \<Rightarrow> Inr \<sigma>
      | fr # rest \<Rightarrow>
          bind_outcome (step_frame Q prog t fr \<sigma>) (\<lambda>(frs, \<sigma>').
            Inr (\<sigma>'\<lparr>stacks := (stacks \<sigma>')(t := frs @ rest)\<rparr>)))"

text \<open>
  The calls that come from outside: the service code requests a task or destroys a serializer,
  a worker thread polls its distributor.
\<close>

datatype outside_call = Call_Request nat nat | Call_Set_Destroy nat | Call_Poll

fun call_frames :: "outside_call \<Rightarrow> frame list" where
  "call_frames (Call_Request s f) = action_frames (Act_Request s f)"
| "call_frames (Call_Set_Destroy s) = action_frames (Act_Set_Destroy s)"
| "call_frames Call_Poll = [F_Poll TU_Worker]"

definition enter :: "nat \<Rightarrow> outside_call \<Rightarrow> 'q task_sys \<Rightarrow> 'q task_sys" where
  "enter t c \<sigma> = \<sigma>\<lparr>stacks := (stacks \<sigma>)(t := call_frames c)\<rparr>"

inductive sys_step ::
    "'q lfq_ops \<Rightarrow> (nat \<Rightarrow> action list) \<Rightarrow> 'q task_sys \<Rightarrow> 'q task_sys \<Rightarrow> bool"
  for Q prog where
  enter_call: "stacks \<sigma> t = [] \<Longrightarrow> sys_step Q prog \<sigma> (enter t c \<sigma>)"
| run_thread: "stacks \<sigma> t \<noteq> [] \<Longrightarrow> thread_step Q prog t \<sigma> = Inr \<sigma>' \<Longrightarrow> sys_step Q prog \<sigma> \<sigma>'"

text \<open>At the start any number of serializers exist, all running and empty.\<close>

definition start_sys :: "'q lfq_ops \<Rightarrow> nat \<Rightarrow> 'q task_sys" where
  "start_sys Q n =
     \<lparr>sers = (\<lambda>s. if s < n then Some \<lparr>task_queue = lfq_new Q 1024, state = RUNNING\<rparr> else None),
      tasks = Map.empty, next_task = 0, dist = (\<lambda>_. lfq_new Q 1024),
      tl_process = (\<lambda>_ _. None), stacks = (\<lambda>_. [])\<rparr>"

inductive reachable ::
    "'q lfq_ops \<Rightarrow> (nat \<Rightarrow> action list) \<Rightarrow> nat \<Rightarrow> 'q task_sys \<Rightarrow> bool"
  for Q prog n where
  start: "reachable Q prog n (start_sys Q n)"
| step: "reachable Q prog n \<sigma> \<Longrightarrow> sys_step Q prog \<sigma> \<sigma>' \<Longrightarrow> reachable Q prog n \<sigma>'"

end
