(* ===== verification/Task_Invariants.thy ===== *)
theory Task_Invariants
  imports Task_Machine
begin

text \<open>
  Invariants of the task machine: which copy of the per-file globals is used, the bound on one
  round of processing, and the life of a task from \<open>new\<close> to its last release. Each is shown for one
  step of a frame and lifted to every reachable state.
\<close>

named_theorems machine_defs "the state updates of the machine"

lemmas [machine_defs] =
  with_ser_def with_current_def put_ser_def set_tl_def dist_push_def
  new_task_def hold_task_def drop_task_def drop_held_def bind_outcome_eq_Inr

lemma step_frame_stacks:
  "step_frame Q prog t fr \<sigma> = Inr (frs, \<sigma>') \<Longrightarrow> stacks \<sigma>' = stacks \<sigma>"
  by (cases "(Q, prog, t, fr, \<sigma>)" rule: step_frame.cases)
    (auto simp: machine_defs split: option.splits if_splits)

lemma thread_step_cases:
  assumes "thread_step Q prog t \<sigma> = Inr \<sigma>'" and "stacks \<sigma> t \<noteq> []"
  obtains fr rest frs \<sigma>1 where "stacks \<sigma> t = fr # rest" and "step_frame Q prog t fr \<sigma> = Inr (frs, \<sigma>1)"
    and "stacks \<sigma>1 = stacks \<sigma>" and "\<sigma>' = \<sigma>1\<lparr>stacks := (stacks \<sigma>)(t := frs @ rest)\<rparr>"
  using assms step_frame_stacks
  by (fastforce simp: thread_step_def bind_outcome_eq_Inr split: list.splits)

text \<open>The invariant rule: one obligation per kind of step.\<close>

lemma reachable_invariant [consumes 1, case_names start enter run]:
  assumes "reachable Q prog n \<sigma>"
    and start: "I (start_sys Q n)"
    and enter: "\<And>\<sigma> t c. reachable Q prog n \<sigma> \<Longrightarrow> I \<sigma> \<Longrightarrow> stacks \<sigma> t = [] \<Longrightarrow> I (enter t c \<sigma>)"
    and run: "\<And>\<sigma> t fr rest frs \<sigma>1. reachable Q prog n \<sigma> \<Longrightarrow> I \<sigma> \<Longrightarrow> stacks \<sigma> t = fr # rest \<Longrightarrow>
      step_frame Q prog t fr \<sigma> = Inr (frs, \<sigma>1) \<Longrightarrow> stacks \<sigma>1 = stacks \<sigma> \<Longrightarrow>
      I (\<sigma>1\<lparr>stacks := (stacks \<sigma>)(t := frs @ rest)\<rparr>)"
  shows "I \<sigma>"
  using assms(1)
proof (induction rule: reachable.induct)
  case start
  show ?case by (rule assms(2))
next
  case (step \<sigma> \<sigma>')
  from step.hyps(2) show ?case
  proof cases
    case (enter_call t c)
    with step enter show ?thesis by blast
  next
    case (run_thread t)
    from thread_step_cases [OF run_thread(2) run_thread(1)] show ?thesis
      using step.hyps(1) step.IH run by metis
  qed
qed

text \<open>A condition on single frames survives a step when the new frames meet it.\<close>

lemma frames_step:
  assumes "\<forall>t. \<forall>fr\<in>set (\<phi> t). P fr" and "\<phi> t = fr # rest" and "P fr \<Longrightarrow> \<forall>fr\<in>set frs. P fr"
  shows "\<forall>t'. \<forall>fr\<in>set ((\<phi>(t := frs @ rest)) t'). P fr"
proof -
  from assms(1) have "\<forall>fr\<in>set (\<phi> t). P fr" ..
  with assms show ?thesis by auto
qed

section \<open>Per-file globals\<close>

fun frame_unit :: "frame \<Rightarrow> source_unit option" where
  "frame_unit (F_Process d s) = Some d"
| "frame_unit (F_Loop d n cur) = Some d"
| "frame_unit (F_Invoke d n x acts) = Some d"
| "frame_unit (F_Check_State d cur) = Some d"
| "frame_unit (F_Check_Empty d cur) = Some d"
| "frame_unit (F_Readd d cur) = Some d"
| "frame_unit _ = None"

definition worker_copy_unused :: "('q \<Rightarrow> nat list) \<Rightarrow> 'q task_sys \<Rightarrow> bool" where
  "worker_copy_unused contents \<sigma> \<longleftrightarrow>
     (\<forall>t. tl_process \<sigma> TU_Serializer t = None) \<and> contents (dist \<sigma> TU_Worker) = [] \<and>
     (\<forall>t. \<forall>fr\<in>set (stacks \<sigma> t). frame_unit fr \<noteq> Some TU_Worker)"

lemma action_frames_unit [simp]: "fr \<in> set (action_frames a) \<Longrightarrow> frame_unit fr = None"
  by (cases a) auto

lemma call_frames_unit [simp]: "fr \<in> set (call_frames c) \<Longrightarrow> frame_unit fr = None"
  by (cases c) auto

lemma step_frame_units:
  assumes "step_frame Q prog t fr \<sigma> = Inr (frs, \<sigma>')"
    and "\<forall>t. tl_process \<sigma> TU_Serializer t = None" and "lfq_pop Q (dist \<sigma> TU_Worker) = None"
    and "frame_unit fr \<noteq> Some TU_Worker"
  shows "(\<forall>t. tl_process \<sigma>' TU_Serializer t = None) \<and> dist \<sigma>' TU_Worker = dist \<sigma> TU_Worker \<and>
    (\<forall>fr\<in>set frs. frame_unit fr \<noteq> Some TU_Worker)"
  using assms
  by (cases "(Q, prog, t, fr, \<sigma>)" rule: step_frame.cases)
    (auto simp: machine_defs split: option.splits if_splits)

context lockfree_queue
begin

lemma reachable_worker_copy:
  "reachable Q prog n \<sigma> \<Longrightarrow> worker_copy_unused contents \<sigma>"
proof (induction rule: reachable_invariant)
  case start
  show ?case by (simp add: worker_copy_unused_def start_sys_def new_contents)
next
  case (enter \<sigma> t c)
  then show ?case by (simp add: worker_copy_unused_def enter_def)
next
  case (run \<sigma> t fr rest frs \<sigma>1)
  then have frames: "\<forall>t. \<forall>fr\<in>set (stacks \<sigma> t). frame_unit fr \<noteq> Some TU_Worker"
    and tl: "\<forall>t. tl_process \<sigma> TU_Serializer t = None" and d: "contents (dist \<sigma> TU_Worker) = []"
    by (simp_all add: worker_copy_unused_def)
  note units = step_frame_units [OF run(3) tl, unfolded pop_None_iff, OF d]
  have "fr \<in> set (stacks \<sigma> t)" by (simp add: run(2))
  with frames have "frame_unit fr \<noteq> Some TU_Worker" by blast
  note units = units [OF this]
  have "\<forall>t'. \<forall>f\<in>set (((stacks \<sigma>)(t := frs @ rest)) t'). frame_unit f \<noteq> Some TU_Worker"
    by (rule frames_step [OF frames run(2)]) (use units in blast)
  with units d show ?case by (simp add: worker_copy_unused_def)
qed

end

section \<open>One round of processing\<close>

fun frame_round_ok :: "frame \<Rightarrow> bool" where
  "frame_round_ok (F_Loop d n cur) \<longleftrightarrow> n < MAX_PROCESS_TASK_COUNT"
| "frame_round_ok (F_Invoke d n x acts) \<longleftrightarrow> n < MAX_PROCESS_TASK_COUNT"
| "frame_round_ok _ \<longleftrightarrow> True"

lemma action_frames_round [simp]: "fr \<in> set (action_frames a) \<Longrightarrow> frame_round_ok fr"
  by (cases a) auto

lemma call_frames_round [simp]: "fr \<in> set (call_frames c) \<Longrightarrow> frame_round_ok fr"
  by (cases c) auto

lemma step_frame_round:
  assumes "step_frame Q prog t fr \<sigma> = Inr (frs, \<sigma>')" and "frame_round_ok fr"
  shows "\<forall>fr\<in>set frs. frame_round_ok fr"
  using assms
  by (cases "(Q, prog, t, fr, \<sigma>)" rule: step_frame.cases)
    (auto simp: machine_defs MAX_PROCESS_TASK_COUNT_def split: option.splits if_splits)

lemma reachable_round:
  "reachable Q prog n \<sigma> \<Longrightarrow> \<forall>t. \<forall>fr\<in>set (stacks \<sigma> t). frame_round_ok fr"
proof (induction rule: reachable_invariant)
  case (run \<sigma> t fr rest frs \<sigma>1)
  then have "\<forall>t'. \<forall>f\<in>set (((stacks \<sigma>)(t := frs @ rest)) t'). frame_round_ok f"
    by (intro frames_step step_frame_round [OF run(3)])
  then show ?case by simp
qed (auto simp: start_sys_def enter_def)

section \<open>Who holds a task\<close>

text \<open>
  A task waits in the queue of a serializer or belongs to a frame of one thread. The pair tells the
  reference count it must have there: none while nobody has popped it, one in the \<open>ObjectPtr\<close> of
  the processing thread.
\<close>

datatype place = In_Queue nat | In_Stack nat

fun held_refs :: "nat option \<Rightarrow> (nat \<times> u32) list" where
  "held_refs None = []"
| "held_refs (Some x) = [(x, 1)]"

fun frame_refs :: "frame \<Rightarrow> (nat \<times> u32) list" where
  "frame_refs (F_Push s x) = [(x, 0)]"
| "frame_refs (F_Enqueue s x b) = [(x, 0)]"
| "frame_refs (F_Loop d n cur) = held_refs cur"
| "frame_refs (F_Invoke d n x acts) = [(x, 1)]"
| "frame_refs (F_Check_State d cur) = held_refs cur"
| "frame_refs (F_Check_Empty d cur) = held_refs cur"
| "frame_refs (F_Readd d cur) = held_refs cur"
| "frame_refs (F_Leave cur) = held_refs cur"
| "frame_refs _ = []"

definition frames_refs :: "frame list \<Rightarrow> (nat \<times> u32) list" where
  "frames_refs frs = concat (map frame_refs frs)"

lemma frames_refs_simps [simp]:
  "frames_refs [] = []"
  "frames_refs (fr # frs) = frame_refs fr @ frames_refs frs"
  "frames_refs (frs @ frs') = frames_refs frs @ frames_refs frs'"
  by (simp_all add: frames_refs_def)

lemma action_frames_refs [simp]: "frames_refs (action_frames a) = []"
  by (cases a) simp_all

lemma call_frames_refs [simp]: "frames_refs (call_frames c) = []"
  by (cases c) simp_all

definition frame_tasks :: "frame \<Rightarrow> nat list" where
  "frame_tasks fr = map fst (frame_refs fr)"

definition frames_tasks :: "frame list \<Rightarrow> nat list" where
  "frames_tasks frs = map fst (frames_refs frs)"

lemmas frame_task_defs = frame_tasks_def frames_tasks_def

lemma frames_tasks_simps [simp]:
  "frames_tasks [] = []"
  "frames_tasks (fr # frs) = frame_tasks fr @ frames_tasks frs"
  "frames_tasks (frs @ frs') = frames_tasks frs @ frames_tasks frs'"
  by (simp_all add: frame_task_defs)

definition queued :: "('q \<Rightarrow> nat list) \<Rightarrow> 'q task_sys \<Rightarrow> nat \<Rightarrow> nat list" where
  "queued contents \<sigma> s = (case sers \<sigma> s of None \<Rightarrow> [] | Some z \<Rightarrow> contents (task_queue z))"

fun tasks_at :: "('q \<Rightarrow> nat list) \<Rightarrow> 'q task_sys \<Rightarrow> place \<Rightarrow> nat list" where
  "tasks_at contents \<sigma> (In_Queue s) = queued contents \<sigma> s"
| "tasks_at contents \<sigma> (In_Stack t) = frames_tasks (stacks \<sigma> t)"

definition exclusive :: "('p \<Rightarrow> nat list) \<Rightarrow> bool" where
  "exclusive h \<longleftrightarrow> (\<forall>p. distinct (h p)) \<and> (\<forall>p q. p \<noteq> q \<longrightarrow> set (h p) \<inter> set (h q) = {})"

definition refs_of :: "'q task_sys \<Rightarrow> nat \<Rightarrow> u32 option" where
  "refs_of \<sigma> x = map_option ref_count (tasks \<sigma> x)"

definition tasks_ok :: "('q \<Rightarrow> nat list) \<Rightarrow> 'q task_sys \<Rightarrow> bool" where
  "tasks_ok contents \<sigma> \<longleftrightarrow>
     exclusive (tasks_at contents \<sigma>) \<and>
     (\<forall>p. \<forall>x\<in>set (tasks_at contents \<sigma> p). x < next_task \<sigma>) \<and>
     (\<forall>s. \<forall>x\<in>set (queued contents \<sigma> s). refs_of \<sigma> x = Some 0) \<and>
     (\<forall>t. \<forall>(x, r)\<in>set (frames_refs (stacks \<sigma> t)). refs_of \<sigma> x = Some r)"

text \<open>Places can lose tasks, a new task can appear in one place, a task can change its place.\<close>

lemma exclusive_shrink:
  assumes "exclusive h" and "\<And>p. distinct (h p) \<Longrightarrow> distinct (h' p)" and "\<And>p. set (h' p) \<subseteq> set (h p)"
  shows "exclusive h'"
  using assms by (fastforce simp: exclusive_def)

lemma exclusive_add:
  assumes "exclusive h" and "\<And>q. x \<notin> set (h q)" and "h' = h(p := xs)"
    and "distinct xs" and "set xs \<subseteq> insert x (set (h p))"
  shows "exclusive h'"
  using assms by (fastforce simp: exclusive_def)

lemma exclusive_remove:
  assumes "exclusive h" and "h p = x # xs"
  shows "exclusive (h(p := xs))" and "\<And>q. x \<notin> set ((h(p := xs)) q)"
proof -
  have "distinct (h p)" using assms(1) by (simp add: exclusive_def)
  then show "exclusive (h(p := xs))"
    by (intro exclusive_shrink [OF assms(1)]) (auto simp: assms(2))
  fix q
  show "x \<notin> set ((h(p := xs)) q)"
  proof (cases "q = p")
    case True
    with \<open>distinct (h p)\<close> assms(2) show ?thesis by simp
  next
    case False
    with assms(1) have "set (h q) \<inter> set (h p) = {}" by (simp add: exclusive_def)
    with False assms(2) show ?thesis by auto
  qed
qed

lemma exclusive_move:
  assumes "exclusive h" and "h p = x # xs" and "p \<noteq> q"
    and "distinct (h q) \<Longrightarrow> x \<notin> set (h q) \<Longrightarrow> distinct ys" and "set ys \<subseteq> insert x (set (h q))"
  shows "exclusive (h(p := xs, q := ys))"
proof -
  note rem = exclusive_remove [OF assms(1,2)]
  have "distinct (h q)" and "x \<notin> set (h q)"
    using assms(1) rem(2) [of q] assms(3) by (auto simp: exclusive_def)
  then have "distinct ys" by (rule assms(4))
  then show ?thesis
    using assms(3,5) by (intro exclusive_add [OF rem refl]) auto
qed

text \<open>The two outcomes of one round of the loop: the queue is empty, or a task is taken out.\<close>

lemma loop_cases:
  assumes "step_frame Q prog t (F_Loop d n cur) \<sigma> = Inr (frs, \<sigma>1)"
  obtains (empty) s z where "tl_process \<sigma> TU_Distributor t = Some s" and "sers \<sigma> s = Some z"
      and "lfq_pop Q (task_queue z) = None" and "drop_held cur \<sigma> = Inr \<sigma>1" and "frs = [F_Check_State d None]"
    | (pop) s z x q \<sigma>2 k where "tl_process \<sigma> TU_Distributor t = Some s" and "sers \<sigma> s = Some z"
      and "lfq_pop Q (task_queue z) = Some (x, q)"
      and "hold_task x (put_ser s (z\<lparr>task_queue := q\<rparr>) \<sigma>) = Inr \<sigma>2" and "drop_held cur \<sigma>2 = Inr \<sigma>1"
      and "tasks \<sigma>1 x = Some k" and "frs = [F_Invoke d n x (task_body prog (task_code k))]"
  using assms
  by (simp add: with_ser_def with_current_def bind_outcome_eq_Inr split: option.splits)
    (auto simp: bind_outcome_eq_Inr split: option.splits)

text \<open>How one step can move tasks: nothing new, a new task, into a queue, out of a queue.\<close>

definition tasks_stay where
  "tasks_stay contents fr \<sigma> frs \<sigma>1 \<longleftrightarrow>
     (\<forall>s. queued contents \<sigma>1 s = queued contents \<sigma> s \<or> queued contents \<sigma>1 s = []) \<and>
     (frames_tasks frs = frame_tasks fr \<or> frames_tasks frs = []) \<and> next_task \<sigma>1 = next_task \<sigma>"

definition task_created where
  "task_created contents fr \<sigma> frs \<sigma>1 \<longleftrightarrow>
     queued contents \<sigma>1 = queued contents \<sigma> \<and> frame_tasks fr = [] \<and>
     frames_tasks frs = [next_task \<sigma>] \<and> next_task \<sigma>1 = Suc (next_task \<sigma>)"

definition task_enqueued where
  "task_enqueued contents fr \<sigma> frs \<sigma>1 s x \<longleftrightarrow>
     frame_refs fr = [(x, 0)] \<and> frames_tasks frs = [] \<and> next_task \<sigma>1 = next_task \<sigma> \<and>
     queued contents \<sigma>1 = (queued contents \<sigma>)(s := queued contents \<sigma> s @ [x])"

definition task_popped where
  "task_popped contents fr \<sigma> frs \<sigma>1 s x xs \<longleftrightarrow>
     frames_tasks frs = [x] \<and> next_task \<sigma>1 = next_task \<sigma> \<and>
     queued contents \<sigma> s = x # xs \<and> queued contents \<sigma>1 = (queued contents \<sigma>)(s := xs)"

context lockfree_queue
begin

lemma queued_put_ser:
  "queued contents (put_ser s z \<sigma>) = (queued contents \<sigma>)(s := contents (task_queue z))"
  by (auto simp: queued_def put_ser_def fun_eq_iff)

lemma queued_same_sers: "sers \<sigma>1 = sers \<sigma> \<Longrightarrow> queued contents \<sigma>1 = queued contents \<sigma>"
  by (simp add: queued_def fun_eq_iff)

lemma queued_Some: "sers \<sigma> s = Some z \<Longrightarrow> queued contents \<sigma> s = contents (task_queue z)"
  by (simp add: queued_def)

lemma queued_upd_same:
  "sers \<sigma> s = Some z \<Longrightarrow> contents (task_queue z) = contents q \<Longrightarrow>
     (queued contents \<sigma>)(s := contents q) = queued contents \<sigma>"
  by (auto simp: queued_def fun_eq_iff)

lemma drop_task_sers:
  "drop_task x \<sigma> = Inr \<sigma>' \<Longrightarrow> sers \<sigma>' = sers \<sigma> \<and> next_task \<sigma>' = next_task \<sigma>"
  by (auto simp: drop_task_def outcome_simps split: option.splits)

lemma drop_held_sers:
  "drop_held c \<sigma> = Inr \<sigma>' \<Longrightarrow> sers \<sigma>' = sers \<sigma> \<and> next_task \<sigma>' = next_task \<sigma>"
  by (auto simp: drop_held_def dest: drop_task_sers split: option.splits)

lemma hold_task_sers:
  "hold_task x \<sigma> = Inr \<sigma>' \<Longrightarrow> sers \<sigma>' = sers \<sigma> \<and> next_task \<sigma>' = next_task \<sigma>"
  by (auto simp: hold_task_def split: option.splits)

lemma enqueue_tasks:
  assumes "step_frame Q prog t (F_Enqueue s x b) \<sigma> = Inr (frs, \<sigma>1)"
  shows "tasks_stay contents (F_Enqueue s x b) \<sigma> frs \<sigma>1 \<or>
    task_enqueued contents (F_Enqueue s x b) \<sigma> frs \<sigma>1 s x"
proof -
  from assms obtain z where z: "sers \<sigma> s = Some z"
    and \<sigma>1: "\<sigma>1 = put_ser s (z\<lparr>task_queue := push_ignore Q x (task_queue z)\<rparr>) \<sigma>"
    and frs: "frs = (if b then [F_Route s] else [])"
    by (auto simp: with_ser_def split: option.splits)
  have q: "queued contents \<sigma>1 = (queued contents \<sigma>)(s := contents (push_ignore Q x (task_queue z)))"
    by (simp add: \<sigma>1 queued_put_ser)
  have "next_task \<sigma>1 = next_task \<sigma>" by (simp add: \<sigma>1 put_ser_def)
  then show ?thesis
    using push_ignore_contents [of x "task_queue z"] queued_Some [of \<sigma> s, OF z]
    by (auto simp: tasks_stay_def task_enqueued_def frame_task_defs frs q)
qed

lemma loop_tasks:
  assumes "step_frame Q prog t (F_Loop d n cur) \<sigma> = Inr (frs, \<sigma>1)"
  shows "tasks_stay contents (F_Loop d n cur) \<sigma> frs \<sigma>1 \<or>
    (\<exists>s x xs. task_popped contents (F_Loop d n cur) \<sigma> frs \<sigma>1 s x xs)"
  using assms
proof (cases rule: loop_cases)
  case (empty s z)
  with drop_held_sers [of cur \<sigma> \<sigma>1] queued_same_sers [of \<sigma>1 \<sigma>] show ?thesis
    by (auto simp: tasks_stay_def frame_task_defs)
next
  case (pop s z x q \<sigma>2 k)
  from drop_held_sers [OF pop(5)] hold_task_sers [OF pop(4)]
  have "queued contents \<sigma>1 = queued contents (put_ser s (z\<lparr>task_queue := q\<rparr>) \<sigma>)"
    and "next_task \<sigma>1 = next_task \<sigma>"
    by (auto intro: queued_same_sers simp: put_ser_def)
  moreover have "queued contents \<sigma> s = x # contents q"
    using pop_Some [OF pop(3)] queued_Some [OF pop(2)] by simp
  ultimately have "task_popped contents (F_Loop d n cur) \<sigma> frs \<sigma>1 s x (contents q)"
    by (simp add: task_popped_def queued_put_ser pop frame_task_defs)
  then show ?thesis by blast
qed

lemma clear_pop_empty:
  assumes step: "step_frame Q prog t (F_Clear_Pop s) \<sigma> = Inr (frs, \<sigma>1)"
    and head: "\<forall>s. \<forall>x\<in>set (queued contents \<sigma> s). refs_of \<sigma> x = Some 0"
  shows False
proof -
  from step obtain z x q \<sigma>2 where z: "sers \<sigma> s = Some z"
    and p: "lfq_pop Q (task_queue z) = Some (x, q)"
    and d: "drop_task x (put_ser s (z\<lparr>task_queue := q\<rparr>) \<sigma>) = Inr \<sigma>2"
    by (auto simp: with_ser_def outcome_simps split: option.splits)
  from pop_Some [OF p] head queued_Some [OF z] have "refs_of \<sigma> x = Some 0"
    by (metis list.set_intros(1))
  with d show False
    by (auto simp: refs_of_def drop_task_def put_ser_def split: option.splits)
qed

lemma step_frame_tasks:
  assumes step: "step_frame Q prog t fr \<sigma> = Inr (frs, \<sigma>1)"
    and head: "\<forall>s. \<forall>x\<in>set (queued contents \<sigma> s). refs_of \<sigma> x = Some 0"
  shows "tasks_stay contents fr \<sigma> frs \<sigma>1 \<or> task_created contents fr \<sigma> frs \<sigma>1 \<or>
    (\<exists>s x. task_enqueued contents fr \<sigma> frs \<sigma>1 s x) \<or> (\<exists>s x xs. task_popped contents fr \<sigma> frs \<sigma>1 s x xs)"
proof -
  note defs = tasks_stay_def task_created_def frame_task_defs queued_def with_ser_def with_current_def
    put_ser_def set_tl_def dist_push_def outcome_simps
  show ?thesis
  proof (cases fr)
    case (F_Enqueue s x b)
    with step enqueue_tasks show ?thesis by blast
  next
    case (F_Loop d n cur)
    with step loop_tasks show ?thesis by blast
  next
    case (F_Invoke d n x acts)
    with step show ?thesis by (cases acts) (auto simp: defs)
  next
    case (F_Leave cur)
    with step show ?thesis
      using drop_held_sers [of cur "set_tl TU_Distributor t None \<sigma>" \<sigma>1] by (auto simp: defs)
  next
    case (F_Clear_Pop s)
    with step head show ?thesis by (blast dest: clear_pop_empty)
  qed (use step in \<open>auto simp: defs new_task_def split: option.splits if_splits\<close>)
qed

text \<open>The reference counts after a step.\<close>

lemma refs_hold:
  "hold_task x \<sigma> = Inr \<sigma>' \<Longrightarrow> refs_of \<sigma> x = Some r \<Longrightarrow> refs_of \<sigma>' = (refs_of \<sigma>)(x \<mapsto> r + 1)"
  by (auto simp: hold_task_def refs_of_def add_ref_def fun_eq_iff split: option.splits)

lemma refs_drop:
  "drop_task x \<sigma> = Inr \<sigma>' \<Longrightarrow> refs_of \<sigma> x = Some 1 \<Longrightarrow> refs_of \<sigma>' = (refs_of \<sigma>)(x := None)"
  by (auto simp: drop_task_def refs_of_def fun_eq_iff split: option.splits)

lemma refs_drop_held:
  assumes "drop_held cur \<sigma> = Inr \<sigma>'" and "\<forall>(x, r)\<in>set (held_refs cur). refs_of \<sigma> x = Some r"
    and "y \<notin> fst ` set (held_refs cur)"
  shows "refs_of \<sigma>' y = refs_of \<sigma> y"
  using assms refs_drop by (cases cur) (fastforce simp: drop_held_def)+

lemma refs_same_tasks: "tasks \<sigma>1 = tasks \<sigma> \<Longrightarrow> refs_of \<sigma>1 = refs_of \<sigma>"
  by (simp add: refs_of_def fun_eq_iff)

lemma held_refs_one: "(x, r) \<in> set (held_refs cur) \<Longrightarrow> r = 1"
  by (cases cur) auto

definition refs_step where
  "refs_step fr \<sigma> frs \<sigma>1 \<longleftrightarrow>
     (\<forall>(x, r)\<in>set (frames_refs frs). refs_of \<sigma>1 x = Some r) \<and>
     (\<forall>y. y \<notin> set (frame_tasks fr) \<longrightarrow> y \<notin> set (frames_tasks frs) \<longrightarrow> refs_of \<sigma>1 y = refs_of \<sigma> y) \<and>
     (\<forall>x. (x, 0) \<in> set (frame_refs fr) \<longrightarrow> refs_of \<sigma>1 x = refs_of \<sigma> x)"

lemma loop_refs:
  assumes step: "step_frame Q prog t (F_Loop d n cur) \<sigma> = Inr (frs, \<sigma>1)"
    and queued: "\<forall>s. \<forall>x\<in>set (queued contents \<sigma> s). refs_of \<sigma> x = Some 0"
    and own: "\<forall>(x, r)\<in>set (held_refs cur). refs_of \<sigma> x = Some r"
  shows "refs_step (F_Loop d n cur) \<sigma> frs \<sigma>1"
proof -
  from step show ?thesis
  proof (cases rule: loop_cases)
    case (empty s z)
    from refs_drop_held [OF empty(4) own] show ?thesis
      by (auto simp: refs_step_def frame_task_defs empty dest: held_refs_one)
  next
    case (pop s z x q \<sigma>2 k)
    have \<sigma>': "refs_of (put_ser s (z\<lparr>task_queue := q\<rparr>) \<sigma>) = refs_of \<sigma>"
      by (rule refs_same_tasks) (simp add: put_ser_def)
    have "x \<in> set (queued contents \<sigma> s)" using pop_Some [OF pop(3)] queued_Some [OF pop(2)] by simp
    with queued have x0: "refs_of \<sigma> x = Some 0" by blast
    with refs_hold [OF pop(4)] \<sigma>' have \<sigma>2: "refs_of \<sigma>2 = (refs_of \<sigma>)(x \<mapsto> 1)" by simp
    have x: "x \<notin> fst ` set (held_refs cur)" using own x0 by (cases cur) auto
    then have "\<forall>(y, r)\<in>set (held_refs cur). refs_of \<sigma>2 y = Some r" using own \<sigma>2 by force
    from refs_drop_held [OF pop(5) this] x \<sigma>2 show ?thesis
      by (auto simp: refs_step_def frame_task_defs pop dest: held_refs_one)
  qed
qed

lemma step_frame_refs:
  assumes step: "step_frame Q prog t fr \<sigma> = Inr (frs, \<sigma>1)"
    and queued: "\<forall>s. \<forall>x\<in>set (queued contents \<sigma> s). refs_of \<sigma> x = Some 0"
    and own: "\<forall>(x, r)\<in>set (frame_refs fr). refs_of \<sigma> x = Some r"
  shows "refs_step fr \<sigma> frs \<sigma>1"
proof (cases fr)
  case (F_Loop d n cur)
  with step queued own loop_refs show ?thesis by simp
next
  case (F_Invoke d n x acts)
  with step own show ?thesis by (cases acts) (auto simp: refs_step_def frame_task_defs split: if_splits)
next
  case (F_Leave cur)
  let ?\<sigma>' = "set_tl TU_Distributor t None \<sigma>"
  have \<sigma>': "refs_of ?\<sigma>' = refs_of \<sigma>" by (rule refs_same_tasks) (simp add: set_tl_def)
  from F_Leave step own refs_drop_held [of cur ?\<sigma>' \<sigma>1] show ?thesis
    by (auto simp: outcome_simps refs_step_def frame_task_defs \<sigma>' dest: held_refs_one)
next
  case (F_Clear_Pop s)
  with step queued show ?thesis by (blast dest: clear_pop_empty)
qed (use step own in \<open>auto simp: refs_step_def frame_task_defs with_ser_def with_current_def put_ser_def
      set_tl_def dist_push_def new_task_def refs_of_def split: option.splits if_splits\<close>)

text \<open>The invariant.\<close>

lemma tasks_at_step:
  assumes queued: "\<forall>s. \<forall>x\<in>set (queued contents \<sigma> s). refs_of \<sigma> x = Some 0"
    and fr: "stacks \<sigma> t = fr # rest" and step: "step_frame Q prog t fr \<sigma> = Inr (frs, \<sigma>1)"
    and \<sigma>': "\<sigma>' = \<sigma>1\<lparr>stacks := (stacks \<sigma>)(t := frs @ rest)\<rparr>"
  obtains (shrink) "\<And>p. distinct (tasks_at contents \<sigma> p) \<Longrightarrow> distinct (tasks_at contents \<sigma>' p)"
      and "\<And>p. set (tasks_at contents \<sigma>' p) \<subseteq> set (tasks_at contents \<sigma> p)"
      and "next_task \<sigma>' = next_task \<sigma>"
    | (new) ys where "tasks_at contents \<sigma>' = (tasks_at contents \<sigma>)(In_Stack t := next_task \<sigma> # ys)"
      and "tasks_at contents \<sigma> (In_Stack t) = ys" and "next_task \<sigma>' = Suc (next_task \<sigma>)"
    | (move) p q x xs ys where "tasks_at contents \<sigma> p = x # xs" and "p \<noteq> q"
      and "tasks_at contents \<sigma>' = (tasks_at contents \<sigma>)(p := xs, q := ys)"
      and "distinct (tasks_at contents \<sigma> q) \<Longrightarrow> x \<notin> set (tasks_at contents \<sigma> q) \<Longrightarrow> distinct ys"
      and "set ys \<subseteq> insert x (set (tasks_at contents \<sigma> q))" and "next_task \<sigma>' = next_task \<sigma>"
proof -
  let ?h = "tasks_at contents \<sigma>" and ?h' = "tasks_at contents \<sigma>'"
  have h': "frames_tasks (stacks \<sigma>' u) =
      (if u = t then frames_tasks frs @ frames_tasks rest else frames_tasks (stacks \<sigma> u))" for u
    by (simp add: \<sigma>')
  have q': "queued contents \<sigma>' = queued contents \<sigma>1" and n': "next_task \<sigma>' = next_task \<sigma>1"
    by (simp_all add: \<sigma>' queued_def fun_eq_iff)
  from step_frame_tasks [OF step queued] consider
      (stay) "tasks_stay contents fr \<sigma> frs \<sigma>1" | (created) "task_created contents fr \<sigma> frs \<sigma>1"
    | (enqueued) s x where "task_enqueued contents fr \<sigma> frs \<sigma>1 s x"
    | (popped) s x xs where "task_popped contents fr \<sigma> frs \<sigma>1 s x xs"
    by blast
  then show thesis
  proof cases
    case stay
    have t: "?h' (In_Stack t) = ?h (In_Stack t) \<or> ?h' (In_Stack t) = frames_tasks rest"
      using stay by (auto simp: h' fr tasks_stay_def)
    have "(distinct (?h p) \<longrightarrow> distinct (?h' p)) \<and> set (?h' p) \<subseteq> set (?h p)" for p
    proof (cases "p = In_Stack t")
      case True
      with t show ?thesis by (auto simp: fr)
    next
      case False
      with stay have "?h' p = ?h p \<or> ?h' p = []" by (cases p) (auto simp: h' q' tasks_stay_def)
      then show ?thesis by auto
    qed
    with stay shrink n' show thesis by (simp add: tasks_stay_def)
  next
    case created
    have "?h' p = (?h(In_Stack t := next_task \<sigma> # frames_tasks rest)) p" for p
      using created by (cases p) (auto simp: h' q' task_created_def)
    with created new [of "frames_tasks rest"] show thesis
      by (simp add: fr n' task_created_def fun_eq_iff)
  next
    case (enqueued s x)
    have "?h' = ?h(In_Stack t := frames_tasks rest, In_Queue s := queued contents \<sigma> s @ [x])"
    proof
      fix p show "?h' p = (?h(In_Stack t := frames_tasks rest, In_Queue s := queued contents \<sigma> s @ [x])) p"
        using enqueued by (cases p) (auto simp: h' q' task_enqueued_def)
    qed
    with enqueued show thesis
      by (intro move [of "In_Stack t" x "frames_tasks rest" "In_Queue s" "queued contents \<sigma> s @ [x]"])
        (auto simp: fr n' task_enqueued_def frame_tasks_def)
  next
    case (popped s x xs)
    have "?h' = ?h(In_Queue s := xs, In_Stack t := x # frames_tasks rest)"
    proof
      fix p show "?h' p = (?h(In_Queue s := xs, In_Stack t := x # frames_tasks rest)) p"
        using popped by (cases p) (auto simp: h' q' task_popped_def)
    qed
    with popped show thesis
      by (intro move [of "In_Queue s" x xs "In_Stack t" "x # frames_tasks rest"])
        (auto simp: fr n' task_popped_def)
  qed
qed

lemma step_exclusive:
  assumes ok: "tasks_ok contents \<sigma>" and fr: "stacks \<sigma> t = fr # rest"
    and step: "step_frame Q prog t fr \<sigma> = Inr (frs, \<sigma>1)"
    and \<sigma>': "\<sigma>' = \<sigma>1\<lparr>stacks := (stacks \<sigma>)(t := frs @ rest)\<rparr>"
  shows "exclusive (tasks_at contents \<sigma>') \<and>
    (\<forall>p. \<forall>x\<in>set (tasks_at contents \<sigma>' p). x < next_task \<sigma>')"
proof -
  have ex: "exclusive (tasks_at contents \<sigma>)"
    and old: "\<And>p x. x \<in> set (tasks_at contents \<sigma> p) \<Longrightarrow> x < next_task \<sigma>"
    and queued: "\<forall>s. \<forall>x\<in>set (queued contents \<sigma> s). refs_of \<sigma> x = Some 0"
    using ok by (auto simp: tasks_ok_def)
  from queued fr step \<sigma>' show ?thesis
  proof (cases rule: tasks_at_step)
    case shrink
    with exclusive_shrink [OF ex] old show ?thesis by (metis subsetD)
  next
    case (new ys)
    have fresh: "next_task \<sigma> \<notin> set (tasks_at contents \<sigma> q)" for q using old by blast
    have "distinct ys" using ex new(2) unfolding exclusive_def by blast
    then have "exclusive (tasks_at contents \<sigma>')"
      using fresh [of "In_Stack t"] new(2)
      by (intro exclusive_add [OF ex fresh new(1)]) auto
    then show ?thesis using old new old [of _ "In_Stack t"] by (auto simp: less_Suc_eq split: if_splits)
  next
    case (move p q x xs ys)
    have "exclusive (tasks_at contents \<sigma>')"
      unfolding move(3) using move by (intro exclusive_move [OF ex]) auto
    moreover have "set (tasks_at contents \<sigma>' r) \<subseteq> set (tasks_at contents \<sigma> r) \<union> set (tasks_at contents \<sigma> p)" for r
      using move(1,5) by (auto simp: move(3))
    ultimately show ?thesis using old move(6) by (metis UnE subsetD)
  qed
qed

lemma newly_queued:
  assumes "tasks_stay contents fr \<sigma> frs \<sigma>1 \<or> task_created contents fr \<sigma> frs \<sigma>1 \<or>
      (\<exists>s x. task_enqueued contents fr \<sigma> frs \<sigma>1 s x) \<or> (\<exists>s x xs. task_popped contents fr \<sigma> frs \<sigma>1 s x xs)"
    and "x \<in> set (queued contents \<sigma>1 s)" and "x \<notin> set (queued contents \<sigma> s)"
  shows "(x, 0) \<in> set (frame_refs fr)"
  using assms(1)
proof (elim disjE exE)
  assume "tasks_stay contents fr \<sigma> frs \<sigma>1"
  then have "queued contents \<sigma>1 s = queued contents \<sigma> s \<or> queued contents \<sigma>1 s = []"
    by (simp add: tasks_stay_def)
  with assms(2,3) show ?thesis by auto
qed (use assms(2,3) in \<open>auto simp: task_created_def task_enqueued_def task_popped_def split: if_splits\<close>)

lemma step_refs:
  assumes ok: "tasks_ok contents \<sigma>" and fr: "stacks \<sigma> t = fr # rest"
    and step: "step_frame Q prog t fr \<sigma> = Inr (frs, \<sigma>1)"
    and \<sigma>': "\<sigma>' = \<sigma>1\<lparr>stacks := (stacks \<sigma>)(t := frs @ rest)\<rparr>"
  shows "(\<forall>s. \<forall>x\<in>set (queued contents \<sigma>' s). refs_of \<sigma>' x = Some 0) \<and>
    (\<forall>u. \<forall>(x, r)\<in>set (frames_refs (stacks \<sigma>' u)). refs_of \<sigma>' x = Some r)"
proof -
  let ?q = "queued contents"
  have ex: "exclusive (tasks_at contents \<sigma>)" and old: "\<forall>s. \<forall>x\<in>set (?q \<sigma> s). refs_of \<sigma> x = Some 0"
    and refs: "\<forall>u. \<forall>(x, r)\<in>set (frames_refs (stacks \<sigma> u)). refs_of \<sigma> x = Some r"
    using ok by (simp_all add: tasks_ok_def)
  have ex': "exclusive (tasks_at contents \<sigma>')" using step_exclusive [OF assms] ..
  have "\<forall>(x, r)\<in>set (frames_refs (stacks \<sigma> t)). refs_of \<sigma> x = Some r" using refs ..
  then have own: "\<forall>(x, r)\<in>set (frame_refs fr). refs_of \<sigma> x = Some r" by (auto simp: fr)
  have new: "\<forall>(x, r)\<in>set (frames_refs frs). refs_of \<sigma>1 x = Some r"
    and same: "\<And>y. y \<notin> set (frame_tasks fr) \<Longrightarrow> y \<notin> set (frames_tasks frs) \<Longrightarrow> refs_of \<sigma>1 y = refs_of \<sigma> y"
    and zero: "\<And>x. (x, 0) \<in> set (frame_refs fr) \<Longrightarrow> refs_of \<sigma>1 x = Some 0"
    using step_frame_refs [OF step old own] own by (auto simp: refs_step_def)
  have q': "?q \<sigma>' = ?q \<sigma>1" and r': "refs_of \<sigma>' = refs_of \<sigma>1"
    by (simp_all add: \<sigma>' queued_def refs_of_def fun_eq_iff)
  have stack': "set (frames_tasks frs) \<subseteq> set (tasks_at contents \<sigma>' (In_Stack t))"
    and stack: "set (frame_tasks fr) \<subseteq> set (tasks_at contents \<sigma> (In_Stack t))"
    by (simp_all add: \<sigma>' fr)
  have elsewhere: "refs_of \<sigma>1 y = refs_of \<sigma> y"
    if "y \<in> set (tasks_at contents \<sigma> p)" "y \<in> set (tasks_at contents \<sigma>' p)" "p \<noteq> In_Stack t" for y p
    using that same [of y] ex ex' stack stack' unfolding exclusive_def by blast
  have "refs_of \<sigma>1 x = Some 0" if "x \<in> set (?q \<sigma>1 s)" for s x
  proof (cases "x \<in> set (?q \<sigma> s)")
    case True
    with elsewhere [of x "In_Queue s"] that old show ?thesis by (simp add: q')
  next
    case False
    with step_frame_tasks [OF step old] that have "(x, 0) \<in> set (frame_refs fr)"
      by (rule newly_queued)
    then show ?thesis by (rule zero)
  qed
  moreover have "refs_of \<sigma>1 x = Some r" if "(x, r) \<in> set (frames_refs (stacks \<sigma>' u))" for u x r
  proof (cases "u = t")
    case False
    with that have "(x, r) \<in> set (frames_refs (stacks \<sigma> u))" by (simp add: \<sigma>')
    then have "refs_of \<sigma> x = Some r" and "x \<in> fst ` set (frames_refs (stacks \<sigma> u))"
      using refs by force+
    with False elsewhere [of x "In_Stack u"] show ?thesis by (simp add: \<sigma>' frames_tasks_def)
  next
    case True
    have "distinct (tasks_at contents \<sigma> (In_Stack t))" and "distinct (tasks_at contents \<sigma>' (In_Stack t))"
      using ex ex' unfolding exclusive_def by blast+
    then have d: "distinct (frame_tasks fr @ frames_tasks rest)" "distinct (frames_tasks frs @ frames_tasks rest)"
      by (simp_all add: fr \<sigma>')
    from True that have "(x, r) \<in> set (frames_refs frs) \<or> (x, r) \<in> set (frames_refs rest)"
      by (simp add: \<sigma>')
    then show ?thesis
    proof
      assume xr: "(x, r) \<in> set (frames_refs rest)"
      then have x: "x \<in> set (frames_tasks rest)" by (force simp: frames_tasks_def)
      have "\<forall>(x, r)\<in>set (frames_refs (stacks \<sigma> t)). refs_of \<sigma> x = Some r" using refs ..
      with xr have "refs_of \<sigma> x = Some r" by (auto simp: fr)
      moreover have "refs_of \<sigma>1 x = refs_of \<sigma> x" by (rule same) (use d x in auto)
      ultimately show ?thesis by simp
    qed (use new in blast)
  qed
  ultimately show ?thesis by (auto simp: q' r')
qed

lemma reachable_tasks: "reachable Q prog n \<sigma> \<Longrightarrow> tasks_ok contents \<sigma>"
proof (induction rule: reachable_invariant)
  case start
  have "tasks_at contents (start_sys Q n) p = []" for p
    by (cases p) (simp_all add: start_sys_def queued_def new_contents frames_tasks_def)
  then show ?case
    by (simp add: tasks_ok_def exclusive_def) (simp add: start_sys_def queued_def new_contents)
next
  case (enter \<sigma> t c)
  then have "tasks_at contents (enter t c \<sigma>) p = tasks_at contents \<sigma> p" for p
    by (cases p) (simp_all add: enter_def queued_def frames_tasks_def)
  with enter show ?case
    by (simp add: tasks_ok_def exclusive_def) (simp add: enter_def queued_def refs_of_def)
next
  case (run \<sigma> t fr rest frs \<sigma>1)
  from step_exclusive [OF run(5,2,3) refl] step_refs [OF run(5,2,3) refl]
  show ?case by (simp add: tasks_ok_def)
qed

end

end
