(* ===== verification/Task_Progress.thy ===== *)
theory Task_Progress
  imports Task_Invariants
begin

text \<open>
  Which serializers somebody is going to process. The shape of a thread's stack, where
  \<open>clear\<close> tasks can be, and the consequence: a serializer that is not empty and that nobody is about
  to process keeps every one of its tasks forever.
\<close>

section \<open>At most one call of the processing loop per thread\<close>

fun processing :: "frame \<Rightarrow> bool" where
  "processing (F_Loop d n cur) = True"
| "processing (F_Invoke d n x acts) = True"
| "processing (F_Check_State d cur) = True"
| "processing (F_Check_Empty d cur) = True"
| "processing (F_Readd d cur) = True"
| "processing (F_Leave cur) = True"
| "processing _ = False"

abbreviation processing_now :: "'q task_sys \<Rightarrow> nat \<Rightarrow> nat option" where
  "processing_now \<sigma> t \<equiv> tl_process \<sigma> TU_Distributor t"

definition marks :: "'q task_sys \<Rightarrow> nat \<Rightarrow> nat" where
  "marks \<sigma> t = (if processing_now \<sigma> t = None then 0 else 1)"

definition one_loop :: "'q task_sys \<Rightarrow> bool" where
  "one_loop \<sigma> \<longleftrightarrow> (\<forall>t. length (filter processing (stacks \<sigma> t)) = marks \<sigma> t)"

lemma action_frames_processing [simp]: "filter processing (action_frames a) = []"
  by (cases a) simp_all

lemma call_frames_processing [simp]: "filter processing (call_frames c) = []"
  by (cases c) simp_all

lemma hold_task_tl: "hold_task x \<sigma> = Inr \<sigma>' \<Longrightarrow> tl_process \<sigma>' = tl_process \<sigma> \<and> dist \<sigma>' = dist \<sigma>"
  by (auto simp: hold_task_def split: option.splits)

lemma drop_task_tl: "drop_task x \<sigma> = Inr \<sigma>' \<Longrightarrow> tl_process \<sigma>' = tl_process \<sigma> \<and> dist \<sigma>' = dist \<sigma>"
  by (auto simp: drop_task_def outcome_simps split: option.splits)

lemma drop_held_tl: "drop_held c \<sigma> = Inr \<sigma>' \<Longrightarrow> tl_process \<sigma>' = tl_process \<sigma> \<and> dist \<sigma>' = dist \<sigma>"
  by (auto simp: drop_held_def dest: drop_task_tl split: option.splits)

lemma loop_tl:
  assumes "step_frame Q prog t (F_Loop d n cur) \<sigma> = Inr (frs, \<sigma>1)"
  shows "tl_process \<sigma>1 = tl_process \<sigma>" and "\<exists>s. processing_now \<sigma> t = Some s"
    and "length (filter processing frs) = 1"
  using assms
  by (cases rule: loop_cases; auto dest!: drop_held_tl hold_task_tl simp: put_ser_def)+

lemma step_frame_marks:
  assumes step: "step_frame Q prog t fr \<sigma> = Inr (frs, \<sigma>1)" and one: "processing fr \<Longrightarrow> marks \<sigma> t = 1"
  shows "length (filter processing frs) + marks \<sigma> t = length (filter processing [fr]) + marks \<sigma>1 t \<and>
    (\<forall>u. u \<noteq> t \<longrightarrow> processing_now \<sigma>1 u = processing_now \<sigma> u)"
proof (cases fr)
  case (F_Loop d n cur)
  note loop = loop_tl [OF step [unfolded F_Loop]]
  from loop(2) have "marks \<sigma> t = 1" by (auto simp: marks_def)
  with loop(1,3) F_Loop show ?thesis by (simp add: marks_def)
next
  case (F_Invoke d n x acts)
  with step show ?thesis by (cases acts) auto
next
  case (F_Leave cur)
  with step one drop_held_tl [of cur "set_tl TU_Distributor t None \<sigma>" \<sigma>1] show ?thesis
    by (auto simp: outcome_simps set_tl_def marks_def)
next
  case (F_Clear_Pop s)
  with step show ?thesis
    by (auto simp: with_ser_def put_ser_def outcome_simps marks_def dest!: drop_task_tl split: option.splits)
qed (use step in \<open>auto simp: with_ser_def with_current_def put_ser_def set_tl_def dist_push_def new_task_def
      marks_def split: option.splits if_splits\<close>)

lemma reachable_one_loop: "reachable Q prog n \<sigma> \<Longrightarrow> one_loop \<sigma>"
proof (induction rule: reachable_invariant)
  case (run \<sigma> t fr rest frs \<sigma>1)
  have len: "length (filter processing (stacks \<sigma> u)) = marks \<sigma> u" for u
    using run(5) by (simp add: one_loop_def)
  have one: "marks \<sigma> t = 1" if "processing fr"
    using that len [of t] run(2) by (simp add: marks_def split: if_splits)
  note step = step_frame_marks [OF run(3) one]
  let ?\<sigma>' = "\<sigma>1\<lparr>stacks := (stacks \<sigma>)(t := frs @ rest)\<rparr>"
  have "length (filter processing (stacks ?\<sigma>' u)) = marks ?\<sigma>' u" for u
  proof (cases "u = t")
    case True
    with step len [of t] run(2) show ?thesis by (auto simp: marks_def split: if_splits)
  next
    case False
    with step len [of u] show ?thesis by (simp add: marks_def)
  qed
  then show ?case unfolding one_loop_def by blast
next
  case (enter \<sigma> t c)
  then have len: "length (filter processing (stacks \<sigma> u)) = marks \<sigma> u" for u
    by (simp add: one_loop_def)
  have "length (filter processing (stacks (enter t c \<sigma>) u)) = marks (enter t c \<sigma>) u" for u
    using len [of u] enter(2) by (cases "u = t") (simp_all add: enter_def marks_def split: if_splits)
  then show ?case unfolding one_loop_def by blast
qed (simp add: one_loop_def marks_def start_sys_def)

section \<open>Where \<open>clear\<close> can run\<close>

text \<open>
  \<open>set_destroy\<close> is the only source of \<open>clear\<close> tasks, unless a user function calls \<open>clear\<close> itself.
  The task for a serializer waits in that serializer's own queue, so it runs only on a thread that
  is processing this serializer.
\<close>

definition code_of :: "'q task_sys \<Rightarrow> nat \<Rightarrow> task_code option" where
  "code_of \<sigma> x = map_option task_code (tasks \<sigma> x)"

definition clear_home :: "'q task_sys \<Rightarrow> nat \<Rightarrow> nat \<Rightarrow> bool" where
  "clear_home \<sigma> s x \<longleftrightarrow> (\<forall>s'. code_of \<sigma> x = Some (Clear_Task s') \<longrightarrow> s' = s)"

fun frame_clear_ok :: "'q task_sys \<Rightarrow> nat \<Rightarrow> frame \<Rightarrow> bool" where
  "frame_clear_ok \<sigma> t (F_Request s c) \<longleftrightarrow> (\<forall>s'. c = Clear_Task s' \<longrightarrow> s' = s)"
| "frame_clear_ok \<sigma> t (F_Push s x) \<longleftrightarrow> clear_home \<sigma> s x"
| "frame_clear_ok \<sigma> t (F_Enqueue s x b) \<longleftrightarrow> clear_home \<sigma> s x"
| "frame_clear_ok \<sigma> t (F_Invoke d n x acts) \<longleftrightarrow>
     (\<forall>s. Act_Clear s \<in> set acts \<longrightarrow> processing_now \<sigma> t = Some s)"
| "frame_clear_ok \<sigma> t _ \<longleftrightarrow> True"

definition clears_ok :: "('q \<Rightarrow> nat list) \<Rightarrow> 'q task_sys \<Rightarrow> bool" where
  "clears_ok contents \<sigma> \<longleftrightarrow>
     (\<forall>s. \<forall>x\<in>set (queued contents \<sigma> s). clear_home \<sigma> s x) \<and>
     (\<forall>t. \<forall>fr\<in>set (stacks \<sigma> t). frame_clear_ok \<sigma> t fr)"

definition no_user_clear :: "(nat \<Rightarrow> action list) \<Rightarrow> bool" where
  "no_user_clear prog \<longleftrightarrow> (\<forall>f s. Act_Clear s \<notin> set (prog f))"

lemma action_frames_clear: "fr \<in> set (action_frames a) \<Longrightarrow> frame_clear_ok \<sigma> t fr"
  by (cases a) auto

lemma call_frames_clear: "fr \<in> set (call_frames c) \<Longrightarrow> frame_clear_ok \<sigma> t fr"
  by (cases c) auto

lemma code_hold: "hold_task x \<sigma> = Inr \<sigma>' \<Longrightarrow> code_of \<sigma>' = code_of \<sigma>"
  by (auto simp: hold_task_def code_of_def fun_eq_iff split: option.splits)

lemma code_drop: "drop_task x \<sigma> = Inr \<sigma>' \<Longrightarrow> code_of \<sigma>' y = code_of \<sigma> y \<or> code_of \<sigma>' y = None"
  by (auto simp: drop_task_def code_of_def outcome_simps split: option.splits if_splits)

lemma code_drop_held: "drop_held c \<sigma> = Inr \<sigma>' \<Longrightarrow> code_of \<sigma>' y = code_of \<sigma> y \<or> code_of \<sigma>' y = None"
  by (auto simp: drop_held_def dest: code_drop split: option.splits)

lemma code_same_tasks: "tasks \<sigma>' = tasks \<sigma> \<Longrightarrow> code_of \<sigma>' = code_of \<sigma>"
  by (simp add: code_of_def fun_eq_iff)

lemma step_frame_code:
  assumes "step_frame Q prog t fr \<sigma> = Inr (frs, \<sigma>1)" and "y < next_task \<sigma>"
  shows "code_of \<sigma>1 y = code_of \<sigma> y \<or> code_of \<sigma>1 y = None"
proof (cases fr)
  case (F_Loop d n cur)
  from assms(1) [unfolded F_Loop] show ?thesis
  proof (cases rule: loop_cases)
    case (empty s z)
    from code_drop_held [OF empty(4)] show ?thesis .
  next
    case (pop s z x q \<sigma>2 k)
    have "code_of (put_ser s (z\<lparr>task_queue := q\<rparr>) \<sigma>) = code_of \<sigma>"
      by (rule code_same_tasks) (simp add: put_ser_def)
    with code_hold [OF pop(4)] code_drop_held [OF pop(5), of y] show ?thesis by simp
  qed
next
  case (F_Invoke d n x acts)
  with assms show ?thesis by (cases acts) auto
next
  case (F_Leave cur)
  with assms have "drop_held cur (set_tl TU_Distributor t None \<sigma>) = Inr \<sigma>1"
    by (auto simp: outcome_simps)
  moreover have "code_of (set_tl TU_Distributor t None \<sigma>) = code_of \<sigma>"
    by (rule code_same_tasks) (simp add: set_tl_def)
  ultimately show ?thesis by (metis code_drop_held)
next
  case (F_Clear_Pop s)
  with assms obtain z x q where "drop_task x (put_ser s (z\<lparr>task_queue := q\<rparr>) \<sigma>) = Inr \<sigma>1"
    by (auto simp: with_ser_def outcome_simps split: option.splits)
  moreover have "code_of (put_ser s (z\<lparr>task_queue := q\<rparr>) \<sigma>) = code_of \<sigma>"
    by (rule code_same_tasks) (simp add: put_ser_def)
  ultimately show ?thesis by (metis code_drop)
qed (use assms in \<open>auto simp: with_ser_def with_current_def put_ser_def set_tl_def dist_push_def new_task_def
      code_of_def split: option.splits if_splits\<close>)

lemma step_frame_now:
  assumes "step_frame Q prog t fr \<sigma> = Inr (frs, \<sigma>1)" and "\<not> processing fr" and "processing_now \<sigma> t \<noteq> None"
  shows "tl_process \<sigma>1 = tl_process \<sigma>"
  using assms
  by (cases fr) (auto simp: with_ser_def with_current_def put_ser_def set_tl_def dist_push_def new_task_def
      outcome_simps dest!: drop_task_tl split: option.splits if_splits)

lemma clear_home_mono:
  "clear_home \<sigma> s x \<Longrightarrow> code_of \<sigma>1 x = code_of \<sigma> x \<or> code_of \<sigma>1 x = None \<Longrightarrow> clear_home \<sigma>1 s x"
  by (auto simp: clear_home_def)

lemma stacks_update_simps [simp]:
  "queued contents (\<sigma>\<lparr>stacks := \<phi>\<rparr>) = queued contents \<sigma>"
  "code_of (\<sigma>\<lparr>stacks := \<phi>\<rparr>) = code_of \<sigma>"
  "clear_home (\<sigma>\<lparr>stacks := \<phi>\<rparr>) = clear_home \<sigma>"
  "marks (\<sigma>\<lparr>stacks := \<phi>\<rparr>) = marks \<sigma>"
  by (simp_all add: queued_def code_of_def clear_home_def marks_def fun_eq_iff)

lemma frame_clear_stacks [simp]: "frame_clear_ok (\<sigma>\<lparr>stacks := \<phi>\<rparr>) u f \<longleftrightarrow> frame_clear_ok \<sigma> u f"
  by (cases f) simp_all

lemma rest_not_processing:
  assumes "one_loop \<sigma>" and "stacks \<sigma> t = fr # rest" and "f \<in> set rest" and "processing f"
  shows "\<not> processing fr" and "processing_now \<sigma> t \<noteq> None"
proof -
  have "filter processing rest \<noteq> []" using assms(3,4) by (auto simp: filter_empty_conv)
  moreover have "length (filter processing (fr # rest)) = marks \<sigma> t"
    using assms(1,2) by (metis one_loop_def)
  ultimately show "\<not> processing fr" and "processing_now \<sigma> t \<noteq> None"
    by (auto simp: marks_def split: if_splits)
qed

lemma frame_clear_mono:
  assumes "frame_clear_ok \<sigma> u f"
    and "\<And>x. x \<in> set (frame_tasks f) \<Longrightarrow> code_of \<sigma>1 x = code_of \<sigma> x \<or> code_of \<sigma>1 x = None"
    and "processing f \<Longrightarrow> processing_now \<sigma>1 u = processing_now \<sigma> u"
  shows "frame_clear_ok \<sigma>1 u f"
  using assms by (cases f) (auto simp: frame_tasks_def intro: clear_home_mono)

context lockfree_queue
begin

lemma newly_queued_frame:
  assumes step: "step_frame Q prog t fr \<sigma> = Inr (frs, \<sigma>1)"
    and ok: "\<forall>s. \<forall>x\<in>set (queued contents \<sigma> s). refs_of \<sigma> x = Some 0"
    and x: "x \<in> set (queued contents \<sigma>1 s)" "x \<notin> set (queued contents \<sigma> s)"
  shows "\<exists>b. fr = F_Enqueue s x b"
proof -
  have "(x, 0) \<in> set (frame_refs fr)"
    by (rule newly_queued [OF step_frame_tasks [OF step ok] x])
  then have "(\<exists>s'. fr = F_Push s' x) \<or> (\<exists>s' b. fr = F_Enqueue s' x b)"
    by (cases fr) (auto dest: held_refs_one)
  then show ?thesis
  proof (elim disjE exE)
    fix s' assume "fr = F_Push s' x"
    with step x show ?thesis by (auto simp: with_ser_def split: option.splits)
  next
    fix s' b assume fr: "fr = F_Enqueue s' x b"
    with step obtain z where "\<sigma>1 = put_ser s' (z\<lparr>task_queue := push_ignore Q x (task_queue z)\<rparr>) \<sigma>"
      by (auto simp: with_ser_def split: option.splits)
    with x fr show ?thesis by (auto simp: queued_put_ser split: if_splits)
  qed
qed

lemma step_frame_clear:
  assumes step: "step_frame Q prog t fr \<sigma> = Inr (frs, \<sigma>1)" and prog: "no_user_clear prog"
    and ok: "frame_clear_ok \<sigma> t fr" "\<forall>s. \<forall>x\<in>set (queued contents \<sigma> s). clear_home \<sigma> s x"
    and old: "\<forall>s. \<forall>x\<in>set (queued contents \<sigma> s). x < next_task \<sigma>"
    and f: "f \<in> set frs"
  shows "frame_clear_ok \<sigma>1 t f"
proof (cases fr)
  case (F_Loop d n cur)
  from step [unfolded F_Loop] show ?thesis
  proof (cases rule: loop_cases)
    case empty
    with f show ?thesis by simp
  next
    case (pop s z x q \<sigma>2 k)
    have x: "x \<in> set (queued contents \<sigma> s)"
      using pop_Some [OF pop(3)] queued_Some [OF pop(2)] by simp
    with ok old have "clear_home \<sigma> s x" and "x < next_task \<sigma>" by blast+
    with step_frame_code [OF step] pop(6) have "clear_home \<sigma>1 s x" by (blast intro: clear_home_mono)
    moreover have "processing_now \<sigma>1 t = Some s"
      using loop_tl(1) [OF step [unfolded F_Loop]] pop(1) by simp
    ultimately show ?thesis
      using f pop(6,7) prog
      by (cases "task_code k") (auto simp: clear_home_def code_of_def no_user_clear_def)
  qed
next
  case (F_Invoke d n x acts)
  with step f ok(1) show ?thesis by (cases acts) (auto split: if_splits dest: action_frames_clear)
qed (use step f ok(1) in \<open>auto simp: with_ser_def with_current_def put_ser_def set_tl_def dist_push_def
      new_task_def clear_home_def code_of_def outcome_simps split: option.splits if_splits\<close>)

lemma other_frame_clear:
  assumes step: "step_frame Q prog t fr \<sigma> = Inr (frs, \<sigma>1)" and fr: "stacks \<sigma> t = fr # rest"
    and one: "one_loop \<sigma>" and ok: "clears_ok contents \<sigma>"
    and known: "\<And>p x. x \<in> set (tasks_at contents \<sigma> p) \<Longrightarrow> x < next_task \<sigma>"
    and f: "f \<in> set (stacks \<sigma> u)" and below: "u = t \<Longrightarrow> f \<in> set rest"
  shows "frame_clear_ok \<sigma>1 u f"
proof (rule frame_clear_mono)
  show "frame_clear_ok \<sigma> u f" using ok f by (simp add: clears_ok_def)
next
  fix x assume "x \<in> set (frame_tasks f)"
  with f have "x \<in> set (tasks_at contents \<sigma> (In_Stack u))"
    by (auto simp: frame_task_defs frames_refs_def)
  from step_frame_code [OF step known [OF this]]
  show "code_of \<sigma>1 x = code_of \<sigma> x \<or> code_of \<sigma>1 x = None" .
next
  assume f: "processing f"
  show "processing_now \<sigma>1 u = processing_now \<sigma> u"
  proof (cases "u = t")
    case True
    from rest_not_processing [OF one fr below [OF True] f] step_frame_now [OF step] True
    show ?thesis by simp
  next
    case False
    have "length (filter processing (stacks \<sigma> t)) = marks \<sigma> t" using one by (simp add: one_loop_def)
    then have "marks \<sigma> t = 1" if "processing fr"
      using that by (simp add: fr marks_def split: if_splits)
    with step_frame_marks [OF step] False show ?thesis by simp
  qed
qed

lemma reachable_clears:
  assumes "no_user_clear prog"
  shows "reachable Q prog n \<sigma> \<Longrightarrow> clears_ok contents \<sigma>"
proof (induction rule: reachable_invariant)
  case start
  show ?case by (simp add: clears_ok_def start_sys_def queued_def new_contents)
next
  case (enter \<sigma> t c)
  have "frame_clear_ok (enter t c \<sigma>) u f" if "f \<in> set (stacks (enter t c \<sigma>) u)" for u f
  proof (cases "u = t")
    case True
    with that show ?thesis by (auto simp: enter_def dest: call_frames_clear)
  next
    case False
    with that enter(3) have "frame_clear_ok \<sigma> u f" by (simp add: clears_ok_def enter_def)
    then show ?thesis by (rule frame_clear_mono) (simp_all add: code_of_def enter_def)
  qed
  then have "\<forall>u. \<forall>f\<in>set (stacks (enter t c \<sigma>) u). frame_clear_ok (enter t c \<sigma>) u f" by blast
  with enter(3) show ?case by (simp add: clears_ok_def) (simp add: enter_def)
next
  case (run \<sigma> t fr rest frs \<sigma>1)
  note step = run(3) and fr = run(2) and ok = run(5)
  from reachable_tasks [OF run(1)] have zero: "\<forall>s. \<forall>x\<in>set (queued contents \<sigma> s). refs_of \<sigma> x = Some 0"
    and known: "\<And>p x. x \<in> set (tasks_at contents \<sigma> p) \<Longrightarrow> x < next_task \<sigma>"
    by (auto simp: tasks_ok_def)
  have home: "\<forall>s. \<forall>x\<in>set (queued contents \<sigma> s). clear_home \<sigma> s x" and okfr: "frame_clear_ok \<sigma> t fr"
    using ok fr by (auto simp: clears_ok_def)
  have old: "\<forall>s. \<forall>x\<in>set (queued contents \<sigma> s). x < next_task \<sigma>"
    using known [of _ "In_Queue _"] by simp
  have "clear_home \<sigma>1 s x" if "x \<in> set (queued contents \<sigma>1 s)" for s x
  proof (cases "x \<in> set (queued contents \<sigma> s)")
    case True
    with home old step_frame_code [OF step] show ?thesis by (blast intro: clear_home_mono)
  next
    case False
    with newly_queued_frame [OF step zero that] obtain b where b: "fr = F_Enqueue s x b" by blast
    then have "x \<in> set (tasks_at contents \<sigma> (In_Stack t))" by (simp add: fr frame_tasks_def)
    from step_frame_code [OF step known [OF this]] okfr b show ?thesis by (auto intro: clear_home_mono)
  qed
  moreover have "frame_clear_ok \<sigma>1 u f" if f: "f \<in> set (((stacks \<sigma>)(t := frs @ rest)) u)" for u f
  proof (cases "u = t \<and> f \<in> set frs")
    case True
    with step_frame_clear [OF step assms okfr home old] show ?thesis by simp
  next
    case False
    with f show ?thesis
      by (intro other_frame_clear [OF step fr reachable_one_loop [OF run(1)] ok known])
        (auto simp: fr split: if_splits)
  qed
  ultimately show ?case by (simp add: clears_ok_def)
qed

end

section \<open>Nobody polls the other copies\<close>

fun worker_poll :: "frame \<Rightarrow> bool" where
  "worker_poll (F_Poll d) \<longleftrightarrow> d = TU_Worker"
| "worker_poll _ \<longleftrightarrow> True"

lemma action_frames_poll: "fr \<in> set (action_frames a) \<Longrightarrow> worker_poll fr"
  by (cases a) auto

lemma call_frames_poll: "fr \<in> set (call_frames c) \<Longrightarrow> worker_poll fr"
  by (cases c) auto

lemma step_frame_poll:
  assumes "step_frame Q prog t fr \<sigma> = Inr (frs, \<sigma>')"
  shows "\<forall>fr\<in>set frs. worker_poll fr"
  using assms
  by (cases "(Q, prog, t, fr, \<sigma>)" rule: step_frame.cases)
    (auto simp: machine_defs dest: action_frames_poll split: option.splits if_splits)

lemma reachable_polls: "reachable Q prog n \<sigma> \<Longrightarrow> \<forall>t. \<forall>fr\<in>set (stacks \<sigma> t). worker_poll fr"
proof (induction rule: reachable_invariant)
  case (run \<sigma> t fr rest frs \<sigma>1)
  then have "\<forall>t'. \<forall>f\<in>set (((stacks \<sigma>)(t := frs @ rest)) t'). worker_poll f"
    by (intro frames_step step_frame_poll [OF run(3)])
  then show ?case by simp
qed (auto simp: start_sys_def enter_def dest: call_frames_poll)

section \<open>Stranded serializers\<close>

text \<open>
  Somebody is about to process or clear serializer \<open>s\<close>: a thread is processing it, or has a frame
  that leads there.
\<close>

fun frame_drains :: "nat \<Rightarrow> frame \<Rightarrow> bool" where
  "frame_drains s (F_Enqueue s' x b) \<longleftrightarrow> s' = s \<and> b"
| "frame_drains s (F_Route s') \<longleftrightarrow> s' = s"
| "frame_drains s (F_Process d s') \<longleftrightarrow> s' = s"
| "frame_drains s (F_Clear s') \<longleftrightarrow> s' = s"
| "frame_drains s (F_Clear_Pop s') \<longleftrightarrow> s' = s"
| "frame_drains s (F_Free s') \<longleftrightarrow> s' = s"
| "frame_drains s _ \<longleftrightarrow> False"

definition drained :: "'q task_sys \<Rightarrow> nat \<Rightarrow> bool" where
  "drained \<sigma> s \<longleftrightarrow>
     (\<exists>t. processing_now \<sigma> t = Some s) \<or> (\<exists>t. \<exists>fr\<in>set (stacks \<sigma> t). frame_drains s fr)"

definition stranded :: "('q \<Rightarrow> nat list) \<Rightarrow> 'q task_sys \<Rightarrow> nat \<Rightarrow> bool" where
  "stranded contents \<sigma> s \<longleftrightarrow> queued contents \<sigma> s \<noteq> [] \<and> \<not> drained \<sigma> s"

lemma action_frames_drain: "f \<in> set (action_frames a) \<Longrightarrow> frame_drains s f \<Longrightarrow> a = Act_Clear s"
  by (cases a) auto

lemma call_frames_drain: "f \<in> set (call_frames c) \<Longrightarrow> \<not> frame_drains s f"
  by (cases c) auto

context lockfree_queue
begin

lemma step_frame_drain:
  assumes step: "step_frame Q prog t fr \<sigma> = Inr (frs, \<sigma>1)" and fr: "stacks \<sigma> t = fr # rest"
    and str: "stranded contents \<sigma> s"
    and poll: "worker_poll fr" "contents (dist \<sigma> TU_Worker) = []" and ok: "frame_clear_ok \<sigma> t fr"
  shows "\<forall>f\<in>set frs. \<not> frame_drains s f" and "\<forall>u. processing_now \<sigma>1 u \<noteq> Some s"
    and "\<exists>ys. queued contents \<sigma>1 s = queued contents \<sigma> s @ ys"
proof -
  have now: "\<And>u. processing_now \<sigma> u \<noteq> Some s" and ne: "queued contents \<sigma> s \<noteq> []"
    and "\<forall>f\<in>set (stacks \<sigma> t). \<not> frame_drains s f"
    using str by (simp_all add: stranded_def drained_def)
  then have top: "\<not> frame_drains s fr" by (simp add: fr)
  note defs = with_ser_def with_current_def put_ser_def set_tl_def dist_push_def new_task_def outcome_simps
  have "(\<forall>f\<in>set frs. \<not> frame_drains s f) \<and> (\<forall>u. processing_now \<sigma>1 u \<noteq> Some s) \<and>
      (\<exists>ys. queued contents \<sigma>1 s = queued contents \<sigma> s @ ys)"
  proof (cases fr)
    case (F_Push s' x)
    with step ne now show ?thesis
      by (auto simp: with_ser_def queued_def empty_contents split: option.splits)
  next
    case (F_Enqueue s' x b)
    with step obtain z where z: "sers \<sigma> s' = Some z"
      and \<sigma>1: "\<sigma>1 = put_ser s' (z\<lparr>task_queue := push_ignore Q x (task_queue z)\<rparr>) \<sigma>"
      and frs: "frs = (if b then [F_Route s'] else [])"
      by (auto simp: with_ser_def split: option.splits)
    show ?thesis
      using push_ignore_contents [of x "task_queue z"] queued_Some [OF z] now top F_Enqueue
      by (auto simp: \<sigma>1 queued_put_ser frs) (auto simp: put_ser_def)
  next
    case (F_Loop d n cur)
    from step [unfolded F_Loop] show ?thesis
    proof (cases rule: loop_cases)
      case (empty s' z)
      with now drop_held_tl [OF empty(4)] drop_held_sers [OF empty(4)] show ?thesis
        by (simp add: queued_def)
    next
      case (pop s' z x q \<sigma>2 k)
      with now have "s \<noteq> s'" by metis
      with pop now drop_held_tl [OF pop(5)] drop_held_sers [OF pop(5)] hold_task_tl [OF pop(4)]
        hold_task_sers [OF pop(4)] show ?thesis
        by (simp add: queued_def put_ser_def)
    qed
  next
    case (F_Invoke d n x acts)
    with ok now have "Act_Clear s \<notin> set acts" by auto
    with F_Invoke step now show ?thesis
      by (cases acts) (auto split: if_splits dest: action_frames_drain)
  next
    case (F_Leave cur)
    with step now drop_held_tl [of cur "set_tl TU_Distributor t None \<sigma>" \<sigma>1]
      drop_held_sers [of cur "set_tl TU_Distributor t None \<sigma>" \<sigma>1] show ?thesis
      by (auto simp: set_tl_def outcome_simps queued_def)
  next
    case (F_Clear_Pop s')
    with step obtain z x q where z: "sers \<sigma> s' = Some z" and frs: "frs = [F_Clear s']"
      and d: "drop_task x (put_ser s' (z\<lparr>task_queue := q\<rparr>) \<sigma>) = Inr \<sigma>1"
      by (auto simp: with_ser_def outcome_simps split: option.splits)
    from F_Clear_Pop top now drop_task_tl [OF d] drop_task_sers [OF d] show ?thesis
      by (simp add: frs put_ser_def queued_def)
  next
    case (F_Poll d)
    have "lfq_pop Q (dist \<sigma> TU_Worker) = None" using poll by (simp add: pop_None_iff)
    with F_Poll step poll now show ?thesis by (auto split: option.splits if_splits)
  qed (use step now top in \<open>auto simp: defs queued_def split: option.splits if_splits\<close>)
  then show "\<forall>f\<in>set frs. \<not> frame_drains s f" and "\<forall>u. processing_now \<sigma>1 u \<noteq> Some s"
    and "\<exists>ys. queued contents \<sigma>1 s = queued contents \<sigma> s @ ys"
    by blast+
qed

lemma stranded_step:
  assumes prog: "no_user_clear prog" and reach: "reachable Q prog n \<sigma>"
    and str: "stranded contents \<sigma> s" and step: "sys_step Q prog \<sigma> \<sigma>'"
  shows "stranded contents \<sigma>' s \<and> (\<exists>ys. queued contents \<sigma>' s = queued contents \<sigma> s @ ys)"
  using step
proof cases
  case (enter_call t c)
  with str show ?thesis
    by (auto simp: stranded_def drained_def enter_def dest: call_frames_drain)
next
  case (run_thread t)
  from run_thread(2,1) obtain fr rest frs \<sigma>1 where fr: "stacks \<sigma> t = fr # rest"
    and run: "step_frame Q prog t fr \<sigma> = Inr (frs, \<sigma>1)" and "stacks \<sigma>1 = stacks \<sigma>"
    and \<sigma>': "\<sigma>' = \<sigma>1\<lparr>stacks := (stacks \<sigma>)(t := frs @ rest)\<rparr>"
    by (rule thread_step_cases)
  have "fr \<in> set (stacks \<sigma> t)" by (simp add: fr)
  then have "worker_poll fr" and "frame_clear_ok \<sigma> t fr" and "contents (dist \<sigma> TU_Worker) = []"
    using reachable_polls [OF reach] reachable_clears [OF prog reach] reachable_worker_copy [OF reach]
    by (auto simp: clears_ok_def worker_copy_unused_def)
  note drain = step_frame_drain [OF run fr str this(1,3,2)]
  have "\<forall>t. \<forall>f\<in>set (stacks \<sigma> t). \<not> frame_drains s f" using str by (simp add: stranded_def drained_def)
  from frames_step [OF this fr drain(1)] drain(2,3) str show ?thesis
    by (auto simp: \<sigma>' stranded_def drained_def)
qed

lemma stranded_steps:
  assumes prog: "no_user_clear prog" and steps: "(sys_step Q prog)\<^sup>*\<^sup>* \<sigma> \<sigma>'"
    and reach: "reachable Q prog n \<sigma>" and str: "stranded contents \<sigma> s"
  shows "reachable Q prog n \<sigma>' \<and> stranded contents \<sigma>' s \<and>
    (\<exists>ys. queued contents \<sigma>' s = queued contents \<sigma> s @ ys)"
  using steps
proof (induction rule: rtranclp_induct)
  case base
  with reach str show ?case by simp
next
  case (step \<sigma>1 \<sigma>2)
  then have "reachable Q prog n \<sigma>1" and "stranded contents \<sigma>1 s" by blast+
  from stranded_step [OF prog this step(2)] step show ?case
    by (auto intro: reachable.step)
qed

end

section \<open>Schedules\<close>

text \<open>A run is described by the order in which the threads take steps.\<close>

datatype event = Calls nat outside_call | Runs nat nat

fun run_thread_for :: "'q lfq_ops \<Rightarrow> (nat \<Rightarrow> action list) \<Rightarrow> nat \<Rightarrow> nat \<Rightarrow> 'q task_sys \<Rightarrow> 'q task_sys outcome" where
  "run_thread_for Q prog t 0 \<sigma> = Inr \<sigma>"
| "run_thread_for Q prog t (Suc k) \<sigma> = bind_outcome (thread_step Q prog t \<sigma>) (run_thread_for Q prog t k)"

fun run_events :: "'q lfq_ops \<Rightarrow> (nat \<Rightarrow> action list) \<Rightarrow> event list \<Rightarrow> 'q task_sys \<Rightarrow> 'q task_sys outcome" where
  "run_events Q prog [] \<sigma> = Inr \<sigma>"
| "run_events Q prog (Calls t c # es) \<sigma> =
     (if stacks \<sigma> t = [] then run_events Q prog es (enter t c \<sigma>) else Inl Assertion_Failure)"
| "run_events Q prog (Runs t k # es) \<sigma> =
     bind_outcome (run_thread_for Q prog t k \<sigma>) (run_events Q prog es)"

lemma thread_step_reachable:
  assumes "reachable Q prog n \<sigma>" and "thread_step Q prog t \<sigma> = Inr \<sigma>'"
  shows "reachable Q prog n \<sigma>'"
proof (cases "stacks \<sigma> t = []")
  case True
  with assms show ?thesis by (simp add: thread_step_def)
next
  case False
  from reachable.step [OF assms(1) sys_step.run_thread [OF this assms(2)]] show ?thesis .
qed

lemma run_thread_for_reachable:
  "reachable Q prog n \<sigma> \<Longrightarrow> run_thread_for Q prog t k \<sigma> = Inr \<sigma>' \<Longrightarrow> reachable Q prog n \<sigma>'"
  by (induction k arbitrary: \<sigma>) (auto simp: bind_outcome_eq_Inr dest: thread_step_reachable)

lemma run_events_reachable:
  "reachable Q prog n \<sigma> \<Longrightarrow> run_events Q prog es \<sigma> = Inr \<sigma>' \<Longrightarrow> reachable Q prog n \<sigma>'"
proof (induction es arbitrary: \<sigma>)
  case (Cons e es)
  then show ?case
    by (cases e) (auto simp: bind_outcome_eq_Inr split: if_splits
        intro: run_thread_for_reachable reachable.step sys_step.enter_call)
qed simp

end
