(* ===== verification/Task_Properties.thy ===== *)
theory Task_Properties
  imports Task_Progress
begin

text \<open>
  What the task serialization guarantees and what it does not: the properties of the reachable
  states of the machine, and the runs that show the failures can happen.
\<close>

section \<open>Single steps\<close>

lemma invoke_in_stack:
  "F_Invoke d k x acts \<in> set (stacks \<sigma> u) \<Longrightarrow>
     x \<in> set (tasks_at contents \<sigma> (In_Stack u)) \<and> (x, 1) \<in> set (frames_refs (stacks \<sigma> u))"
  by (force simp: frames_tasks_def frames_refs_def)

lemma run_thread_for_add:
  "run_thread_for Q prog t (j + k) \<sigma> = bind_outcome (run_thread_for Q prog t j \<sigma>) (run_thread_for Q prog t k)"
  by (induction j arbitrary: \<sigma>) (simp_all add: bind_outcome_def split: sum.splits)

lemma thread_step_top:
  "stacks \<sigma> t = fr # rest \<Longrightarrow> thread_step Q prog t \<sigma> =
     bind_outcome (step_frame Q prog t fr \<sigma>) (\<lambda>(frs, \<sigma>'). Inr (\<sigma>'\<lparr>stacks := (stacks \<sigma>')(t := frs @ rest)\<rparr>))"
  by (simp add: thread_step_def)

lemma idle_not_processing:
  assumes "reachable Q prog n \<sigma>" and "stacks \<sigma> t = []"
  shows "processing_now \<sigma> t = None"
proof -
  have "marks \<sigma> t = 0"
    using reachable_one_loop [OF assms(1)] assms(2) by (metis filter.simps(1) list.size(3) one_loop_def)
  then show ?thesis by (simp add: marks_def split: if_splits)
qed

context lockfree_queue
begin

text \<open>In a reachable state the loop of \<open>process_task_serializer\<close> takes the first task and does not fail.\<close>

lemma loop_takes_first:
  assumes reach: "reachable Q prog n \<sigma>" and top: "stacks \<sigma> t = F_Loop d k cur # rest"
    and now: "processing_now \<sigma> t = Some s" and q: "queued contents \<sigma> s = x # xs"
  obtains \<sigma>' acts where "thread_step Q prog t \<sigma> = Inr \<sigma>'"
    and "stacks \<sigma>' t = F_Invoke d k x acts # rest"
    and "map_option (task_body prog) (code_of \<sigma> x) = Some acts"
    and "processing_now \<sigma>' t = Some s" and "queued contents \<sigma>' s = xs"
    and "\<forall>y\<in>set xs. code_of \<sigma>' y = code_of \<sigma> y"
proof -
  have ok: "tasks_ok contents \<sigma>" using reach by (rule reachable_tasks)
  then have d: "distinct (queued contents \<sigma> s)" and zero: "\<forall>x\<in>set (queued contents \<sigma> s). refs_of \<sigma> x = Some 0"
    and refs: "\<forall>(y, r)\<in>set (frames_refs (stacks \<sigma> t)). refs_of \<sigma> y = Some r"
    unfolding tasks_ok_def exclusive_def by (metis tasks_at.simps(1), blast+)
  from q obtain z where z: "sers \<sigma> s = Some z" and c: "contents (task_queue z) = x # xs"
    by (auto simp: queued_def split: option.splits)
  from c obtain q' where pop: "lfq_pop Q (task_queue z) = Some (x, q')" and q': "contents q' = xs"
    by (rule pop_nonempty)
  from zero q obtain j where j: "tasks \<sigma> x = Some j" "ref_count j = 0"
    by (auto simp: refs_of_def)
  define \<sigma>2 where "\<sigma>2 = (put_ser s (z\<lparr>task_queue := q'\<rparr>) \<sigma>)\<lparr>tasks := (tasks \<sigma>)(x \<mapsto> j\<lparr>ref_count := 1\<rparr>)\<rparr>"
  have hold: "hold_task x (put_ser s (z\<lparr>task_queue := q'\<rparr>) \<sigma>) = Inr \<sigma>2"
    using j by (simp add: hold_task_def put_ser_def \<sigma>2_def add_ref_def)
  have cur: "refs_of \<sigma> y = Some 1" if "cur = Some y" for y
    using refs that by (simp add: top)
  then have cx: "cur \<noteq> Some x" using zero q by auto
  obtain \<sigma>3 where drop: "drop_held cur \<sigma>2 = Inr \<sigma>3"
    and \<sigma>3: "tasks \<sigma>3 = (case cur of None \<Rightarrow> tasks \<sigma>2 | Some y \<Rightarrow> (tasks \<sigma>2)(y := None))"
    and st: "stacks \<sigma>3 = stacks \<sigma>2"
  proof (cases cur)
    case None
    with that [of \<sigma>2] show thesis by (simp add: drop_held_def)
  next
    case (Some y)
    with cur cx obtain i where "tasks \<sigma>2 y = Some i" "ref_count i = 1"
      by (auto simp: \<sigma>2_def refs_of_def put_ser_def)
    with Some that show thesis by (simp add: drop_held_def drop_task_def)
  qed
  have x3: "tasks \<sigma>3 x = Some (j\<lparr>ref_count := 1\<rparr>)"
    using cx by (auto simp: \<sigma>3 \<sigma>2_def split: option.split)
  let ?acts = "task_body prog (task_code j)"
  have step: "thread_step Q prog t \<sigma> = Inr (\<sigma>3\<lparr>stacks := (stacks \<sigma>3)(t := F_Invoke d k x ?acts # rest)\<rparr>)"
    using now z pop hold drop x3 by (simp add: thread_step_top [OF top] with_current_def with_ser_def)
  have same: "code_of \<sigma>3 y = code_of \<sigma> y" if "y \<in> set xs" for y
  proof -
    from that q zero have "refs_of \<sigma> y = Some 0" by simp
    with cur have "cur \<noteq> Some y" by auto
    then show ?thesis by (auto simp: code_of_def \<sigma>3 \<sigma>2_def put_ser_def j split: option.split)
  qed
  from drop_held_tl [OF drop] drop_held_sers [OF drop] now q' show thesis
    by (intro that [OF step, of ?acts]) (auto simp: same [unfolded code_of_def] j code_of_def \<sigma>2_def put_ser_def queued_def)
qed

text \<open>
  A thread that runs undisturbed works the queue off from the front. The tasks here make no call
  that concerns a serializer.
\<close>

lemma runs_in_order:
  assumes "reachable Q prog n \<sigma>" and "stacks \<sigma> t = F_Loop d k cur # rest"
    and "processing_now \<sigma> t = Some s"
    and "\<forall>x\<in>set (queued contents \<sigma> s). map_option (task_body prog) (code_of \<sigma> x) = Some []"
    and "i < length (queued contents \<sigma> s)" and "k + i < MAX_PROCESS_TASK_COUNT"
  shows "\<exists>\<sigma>'. run_thread_for Q prog t (Suc (2 * i)) \<sigma> = Inr \<sigma>' \<and>
    stacks \<sigma>' t = F_Invoke d (k + i) (queued contents \<sigma> s ! i) [] # rest"
  using assms
proof (induction i arbitrary: \<sigma> k cur)
  case 0
  then obtain x xs where q: "queued contents \<sigma> s = x # xs" by (auto simp: neq_Nil_conv)
  obtain \<sigma>' acts where "thread_step Q prog t \<sigma> = Inr \<sigma>'" "stacks \<sigma>' t = F_Invoke d k x acts # rest"
    "map_option (task_body prog) (code_of \<sigma> x) = Some acts"
    using 0(1-3) q by (rule loop_takes_first)
  then show ?case using 0(4) q by auto
next
  case (Suc i)
  then obtain x xs where q: "queued contents \<sigma> s = x # xs" by (cases "queued contents \<sigma> s") auto
  obtain \<sigma>1 acts where step: "thread_step Q prog t \<sigma> = Inr \<sigma>1"
    and top: "stacks \<sigma>1 t = F_Invoke d k x acts # rest"
    and acts: "map_option (task_body prog) (code_of \<sigma> x) = Some acts"
    and now: "processing_now \<sigma>1 t = Some s" and q1: "queued contents \<sigma>1 s = xs"
    and code: "\<forall>y\<in>set xs. code_of \<sigma>1 y = code_of \<sigma> y"
    using Suc.prems(1-3) q by (rule loop_takes_first)
  have top: "stacks \<sigma>1 t = F_Invoke d k x [] # rest" using top acts Suc.prems(4) q by simp
  define \<sigma>2 where "\<sigma>2 = \<sigma>1\<lparr>stacks := (stacks \<sigma>1)(t := F_Loop d (Suc k) (Some x) # rest)\<rparr>"
  have step2: "thread_step Q prog t \<sigma>1 = Inr \<sigma>2"
    using Suc.prems(6) by (simp add: thread_step_top [OF top] \<sigma>2_def)
  have "reachable Q prog n \<sigma>2"
    using thread_step_reachable [OF thread_step_reachable [OF Suc.prems(1) step] step2] .
  moreover have "stacks \<sigma>2 t = F_Loop d (Suc k) (Some x) # rest" "processing_now \<sigma>2 t = Some s"
    and q2: "queued contents \<sigma>2 s = xs"
    using now q1 by (simp_all add: \<sigma>2_def)
  moreover have "\<forall>y\<in>set (queued contents \<sigma>2 s). map_option (task_body prog) (code_of \<sigma>2 y) = Some []"
    using Suc.prems(4) q code by (simp add: q2) (simp add: \<sigma>2_def)
  ultimately have "\<exists>\<sigma>'. run_thread_for Q prog t (Suc (2 * i)) \<sigma>2 = Inr \<sigma>' \<and>
      stacks \<sigma>' t = F_Invoke d (Suc k + i) (queued contents \<sigma>2 s ! i) [] # rest"
    using Suc.prems(5,6) q by (intro Suc.IH) simp_all
  with step step2 show ?case by (simp add: q q2)
qed

end

section \<open>Concrete runs\<close>

text \<open>The definitions a concrete run unfolds.\<close>

lemmas run_defs =
  start_sys_def enter_def thread_step_def with_ser_def with_current_def put_ser_def set_tl_def
  dist_push_def new_task_def hold_task_def drop_task_def drop_held_def add_ref_def queued_def
  drained_def MAX_PROCESS_TASK_COUNT_def eval_nat_numeral

lemma run_reaches:
  "\<exists>\<sigma>. run_events Q prog es (start_sys Q n) = Inr \<sigma> \<and> P \<sigma> \<Longrightarrow> \<exists>\<sigma>. reachable Q prog n \<sigma> \<and> P \<sigma>"
  using run_events_reachable [OF reachable.start] by blast

section \<open>Tasks\<close>

text \<open>
  C11: A task is run by one thread at a time and is alive while it runs: in every reachable state, the
  task a thread is invoking exists with reference count one, waits in no queue and belongs to no
  other thread; and one call of the processing loop invokes at most 30 tasks.
\<close>

theorem running_task_exclusive:
  assumes "lockfree_queue Q contents" and "reachable Q prog n \<sigma>"
    and "F_Invoke d k x acts \<in> set (stacks \<sigma> t)"
  shows "map_option ref_count (tasks \<sigma> x) = Some 1 \<and>
    (\<forall>s z. sers \<sigma> s = Some z \<longrightarrow> x \<notin> set (contents (task_queue z))) \<and>
    (\<forall>u d' k' acts'. F_Invoke d' k' x acts' \<in> set (stacks \<sigma> u) \<longrightarrow> u = t) \<and>
    k < MAX_PROCESS_TASK_COUNT"
proof -
  have ok: "tasks_ok contents \<sigma>" using assms(1,2) by (rule lockfree_queue.reachable_tasks)
  then have excl: "\<And>p q. p \<noteq> q \<Longrightarrow> x \<in> set (tasks_at contents \<sigma> p) \<Longrightarrow> x \<notin> set (tasks_at contents \<sigma> q)"
    by (auto simp: tasks_ok_def exclusive_def)
  have here: "x \<in> set (tasks_at contents \<sigma> (In_Stack t))" and ref: "(x, 1) \<in> set (frames_refs (stacks \<sigma> t))"
    using invoke_in_stack [OF assms(3)] by blast+
  have "refs_of \<sigma> x = Some 1" using ok ref by (auto simp: tasks_ok_def)
  moreover have "x \<notin> set (contents (task_queue z))" if "sers \<sigma> s = Some z" for s z
    using excl [of "In_Stack t" "In_Queue s"] here that by (simp add: queued_def)
  moreover have "u = t" if "F_Invoke d' k' x acts' \<in> set (stacks \<sigma> u)" for u d' k' acts'
    using excl [of "In_Stack t" "In_Stack u"] here invoke_in_stack [OF that] by blast
  moreover have "frame_round_ok (F_Invoke d k x acts)"
    using reachable_round [OF assms(2)] assms(3) by blast
  ultimately show ?thesis by (simp add: refs_of_def)
qed

theorem running_task_exclusive_witness:
  "\<exists>\<sigma>. reachable list_queue (\<lambda>_. []) 1 \<sigma> \<and> F_Invoke TU_Serializer 0 0 [] \<in> set (stacks \<sigma> 0) \<and>
     map_option ref_count (tasks \<sigma> 0) = Some 1 \<and>
     (\<forall>s z. sers \<sigma> s = Some z \<longrightarrow> 0 \<notin> set (task_queue z)) \<and> (0::nat) < MAX_PROCESS_TASK_COUNT"
proof -
  have "\<exists>\<sigma>. run_events list_queue (\<lambda>_. []) [Calls 0 (Call_Request 0 0), Runs 0 6] (start_sys list_queue 1) = Inr \<sigma> \<and>
      F_Invoke TU_Serializer 0 0 [] \<in> set (stacks \<sigma> 0)"
    by (simp add: run_defs)
  from run_reaches [OF this] obtain \<sigma> where r: "reachable list_queue (\<lambda>_. []) 1 \<sigma>"
    and i: "F_Invoke TU_Serializer 0 0 [] \<in> set (stacks \<sigma> 0)" by blast
  from running_task_exclusive [OF lq.lockfree_queue_axioms r i] r i show ?thesis by blast
qed

text \<open>
  C18: Tasks run in the order of the queue: a thread in the processing loop that is not disturbed and
  whose tasks make no calls on serializers invokes, after \<open>2 * i + 1\<close> steps, the task at position
  \<open>i\<close> of the queue, as long as the bound of 30 tasks per round allows it; no step of it fails.
\<close>

theorem tasks_run_in_order:
  assumes "lockfree_queue Q contents" and "reachable Q prog n \<sigma>"
    and "stacks \<sigma> t = F_Loop d k cur # rest" and "tl_process \<sigma> TU_Distributor t = Some s"
    and "sers \<sigma> s = Some z" and "i < length (contents (task_queue z))"
    and "k + i < MAX_PROCESS_TASK_COUNT"
    and "\<forall>x\<in>set (contents (task_queue z)). \<exists>j. tasks \<sigma> x = Some j \<and> task_body prog (task_code j) = []"
  shows "\<exists>\<sigma>'. run_thread_for Q prog t (2 * i + 1) \<sigma> = Inr \<sigma>' \<and>
    stacks \<sigma>' t = F_Invoke d (k + i) (contents (task_queue z) ! i) [] # rest"
proof -
  have q: "queued contents \<sigma> s = contents (task_queue z)" using assms(5) by (simp add: queued_def)
  have "\<forall>x\<in>set (queued contents \<sigma> s). map_option (task_body prog) (code_of \<sigma> x) = Some []"
    using assms(8) by (fastforce simp: q code_of_def)
  from lockfree_queue.runs_in_order [OF assms(1-4) this] assms(6,7) show ?thesis by (simp add: q)
qed

theorem tasks_run_in_order_witness:
  "\<exists>\<sigma> \<sigma>'. reachable list_queue (\<lambda>_. []) 1 \<sigma> \<and> stacks \<sigma> 0 = [F_Loop TU_Serializer 0 None] \<and>
     sers \<sigma> 0 = Some \<lparr>task_queue = [0, 1], state = RUNNING\<rparr> \<and>
     run_thread_for list_queue (\<lambda>_. []) 0 (2 * 1 + 1) \<sigma> = Inr \<sigma>' \<and>
     stacks \<sigma>' 0 = [F_Invoke TU_Serializer 1 1 []]"
proof -
  have "\<exists>\<sigma>. run_events list_queue (\<lambda>_. []) [Calls 0 (Call_Request 0 0), Runs 0 3,
        Calls 1 (Call_Request 0 5), Runs 1 3, Runs 0 2] (start_sys list_queue 1) = Inr \<sigma> \<and>
      stacks \<sigma> 0 = [F_Loop TU_Serializer 0 None] \<and> tl_process \<sigma> TU_Distributor 0 = Some 0 \<and>
      sers \<sigma> 0 = Some \<lparr>task_queue = [0, 1], state = RUNNING\<rparr> \<and>
      tasks \<sigma> 0 = Some \<lparr>task_code = User_Task 0, ref_count = 0\<rparr> \<and>
      tasks \<sigma> 1 = Some \<lparr>task_code = User_Task 5, ref_count = 0\<rparr>"
    by (simp add: run_defs)
  from run_reaches [OF this] obtain \<sigma> where r: "reachable list_queue (\<lambda>_. []) 1 \<sigma>"
    and s: "stacks \<sigma> 0 = [F_Loop TU_Serializer 0 None]" "tl_process \<sigma> TU_Distributor 0 = Some 0"
      "sers \<sigma> 0 = Some \<lparr>task_queue = [0, 1], state = RUNNING\<rparr>"
    and t: "tasks \<sigma> 0 = Some \<lparr>task_code = User_Task 0, ref_count = 0\<rparr>"
      "tasks \<sigma> 1 = Some \<lparr>task_code = User_Task 5, ref_count = 0\<rparr>" by blast
  from tasks_run_in_order [OF lq.lockfree_queue_axioms r s, of 1] t r s show ?thesis
    by (auto simp: MAX_PROCESS_TASK_COUNT_def)
qed

text \<open>
  A request on an idle serializer runs the task at once: with nobody else running, eleven steps
  after the call of a thread that was idle the task has run and is destroyed, the queue is empty
  again and the thread is idle; no step fails.
\<close>

theorem idle_request_runs_at_once:
  assumes "reliable_queue Q contents" and "reachable Q prog n \<sigma>" and "stacks \<sigma> t = []"
    and "sers \<sigma> s = Some z" and "state z = RUNNING" and "contents (task_queue z) = []" and "prog f = []"
  shows "\<exists>\<sigma>' q'. run_thread_for Q prog t 11 (enter t (Call_Request s f) \<sigma>) = Inr \<sigma>' \<and>
    stacks \<sigma>' = stacks \<sigma> \<and> tl_process \<sigma>' = tl_process \<sigma> \<and> tasks \<sigma>' = (tasks \<sigma>)(next_task \<sigma> := None) \<and>
    sers \<sigma>' = (sers \<sigma>)(s \<mapsto> z\<lparr>task_queue := q'\<rparr>) \<and> contents q' = []"
proof -
  have lf: "lockfree_queue Q contents" using assms(1) by (rule reliable_queue.axioms(1))
  let ?x = "next_task \<sigma>"
  let ?q1 = "push_ignore Q ?x (task_queue z)"
  have "contents ?q1 = [?x]" by (simp add: reliable_queue.push_ignore_appends [OF assms(1)] assms(6))
  then obtain q2 where pop: "lfq_pop Q ?q1 = Some (?x, q2)" and q2: "contents q2 = []"
    by (rule lockfree_queue.pop_nonempty [OF lf])
  have empty: "lfq_empty Q (task_queue z)" "lfq_empty Q q2" "lfq_pop Q q2 = None"
    by (simp_all add: lockfree_queue.empty_contents [OF lf] lockfree_queue.pop_None_iff [OF lf] q2 assms(6))
  have tl: "tl_process \<sigma> TU_Serializer t = None"
    using lockfree_queue.reachable_worker_copy [OF lf assms(2)] by (simp add: worker_copy_unused_def)
  have now: "processing_now \<sigma> t = None" using idle_not_processing [OF assms(2,3)] .
  have "\<exists>\<sigma>'. run_thread_for Q prog t 11 (enter t (Call_Request s f) \<sigma>) = Inr \<sigma>' \<and>
    stacks \<sigma>' = stacks \<sigma> \<and> tl_process \<sigma>' = tl_process \<sigma> \<and> tasks \<sigma>' = (tasks \<sigma>)(next_task \<sigma> := None) \<and>
    sers \<sigma>' = (sers \<sigma>)(s \<mapsto> z\<lparr>task_queue := q2\<rparr>)"
    using assms(3-5,7) by (simp add: run_defs tl now empty pop fun_upd_idem)
  with q2 show ?thesis by blast
qed

theorem idle_request_runs_at_once_witness:
  "\<exists>\<sigma>' q'. run_thread_for list_queue (\<lambda>_. []) 0 11 (enter 0 (Call_Request 0 3) (start_sys list_queue 1)) = Inr \<sigma>' \<and>
     tasks \<sigma>' = Map.empty \<and> sers \<sigma>' = [0 \<mapsto> \<lparr>task_queue = q', state = RUNNING\<rparr>] \<and> q' = []"
proof -
  have "sers (start_sys list_queue 1) 0 = Some \<lparr>task_queue = [], state = RUNNING\<rparr>"
    and "stacks (start_sys list_queue 1) 0 = []"
    by (simp_all add: start_sys_def)
  from idle_request_runs_at_once [OF lq.reliable_queue_axioms reachable.start this(2,1), where f = 3]
  show ?thesis by (fastforce simp: start_sys_def fun_eq_iff)
qed

section \<open>Distribution of serializers\<close>

text \<open>
  C29: No serializer ever reaches a worker thread: in every reachable state a worker that polls its
  distributor finds it empty and returns with nothing done, because \<open>g_task_distributor\<close> is a
  separate object in every source file and nothing is ever added to the workers' one.
\<close>

theorem worker_poll_finds_nothing:
  assumes "lockfree_queue Q contents" and "reachable Q prog n \<sigma>"
    and "stacks \<sigma> t = []"
  shows "thread_step Q prog t (enter t Call_Poll \<sigma>) = Inr \<sigma>"
proof -
  have "contents (dist \<sigma> TU_Worker) = []"
    using lockfree_queue.reachable_worker_copy [OF assms(1,2)] by (simp add: worker_copy_unused_def)
  then have "lfq_pop Q (dist \<sigma> TU_Worker) = None"
    by (simp add: lockfree_queue.pop_None_iff [OF assms(1)])
  moreover note idle_not_processing [OF assms(2,3)]
  ultimately show ?thesis
    using assms(3) by (simp add: thread_step_def enter_def fun_upd_idem)
qed

theorem worker_poll_finds_nothing_witness:
  "thread_step list_queue (\<lambda>_. []) 0 (enter 0 Call_Poll (start_sys list_queue 1)) =
     Inr (start_sys list_queue 1)"
  by (rule worker_poll_finds_nothing [OF lq.lockfree_queue_axioms reachable.start]) (simp add: start_sys_def)

definition lost_wakeup_run :: "event list" where
  "lost_wakeup_run =
     [Calls 0 (Call_Request 0 0), Runs 0 3, Calls 1 (Call_Request 0 0), Runs 1 2, Runs 0 8, Runs 1 1]"


text \<open>
  C16: A serializer can be stranded, and then stays so: once a serializer holds tasks and no thread is
  processing it or about to, it keeps every one of these tasks in whatever way the system goes on;
  later tasks only queue up behind them. (User functions do not call \<open>clear\<close> here.)
\<close>

theorem stranded_forever:
  assumes "lockfree_queue Q contents" and "no_user_clear prog" and "reachable Q prog n \<sigma>"
    and "stranded contents \<sigma> s" and "(sys_step Q prog)\<^sup>*\<^sup>* \<sigma> \<sigma>'"
  shows "stranded contents \<sigma>' s \<and> (\<exists>ys. queued contents \<sigma>' s = queued contents \<sigma> s @ ys)"
  using lockfree_queue.stranded_steps [OF assms(1,2,5,3,4)] by blast

theorem stranded_forever_witness:
  "\<exists>\<sigma>. stranded (\<lambda>q. q) \<sigma> 0 \<and>
     (\<exists>ys. queued (\<lambda>q. q) (enter 0 (Call_Request 0 7) \<sigma>) 0 = queued (\<lambda>q. q) \<sigma> 0 @ ys)"
proof -
  have "\<exists>\<sigma>. run_events list_queue (\<lambda>_. []) lost_wakeup_run (start_sys list_queue 1) = Inr \<sigma> \<and>
     stacks \<sigma> 0 = [] \<and> stranded (\<lambda>q. q) \<sigma> 0"
    by (simp add: lost_wakeup_run_def stranded_def run_defs)
  from run_reaches [OF this] obtain \<sigma> where r: "reachable list_queue (\<lambda>_. []) 1 \<sigma>"
    and idle: "stacks \<sigma> 0 = []" and s: "stranded (\<lambda>q. q) \<sigma> 0" by blast
  have "no_user_clear (\<lambda>_. [])" by (simp add: no_user_clear_def)
  moreover have "(sys_step list_queue (\<lambda>_. []))\<^sup>*\<^sup>* \<sigma> (enter 0 (Call_Request 0 7) \<sigma>)"
    using sys_step.enter_call [OF idle] by (rule r_into_rtranclp)
  ultimately show ?thesis using stranded_forever [OF lq.lockfree_queue_axioms _ r s] s by blast
qed

text \<open>
  A backlog is stranded too: when the processing loop ends with tasks left (because it has run 30,
  or because some arrived late), it adds the serializer to the distributor of its own source file;
  three steps later the call has returned and the serializer is stranded, unless another thread was
  already at work on it.
\<close>

theorem backlog_is_stranded:
  assumes "lockfree_queue Q contents" and "reachable Q prog n \<sigma>"
    and "stacks \<sigma> t = F_Check_Empty d cur # rest" and "tl_process \<sigma> TU_Distributor t = Some s"
    and "sers \<sigma> s = Some z" and "contents (task_queue z) \<noteq> []"
    and "\<forall>u. u \<noteq> t \<longrightarrow> tl_process \<sigma> TU_Distributor u \<noteq> Some s"
    and "\<forall>u. \<forall>fr\<in>set (stacks \<sigma> u). \<not> frame_drains s fr"
  shows "\<exists>\<sigma>'. run_thread_for Q prog t 3 \<sigma> = Inr \<sigma>' \<and> stacks \<sigma>' t = rest \<and> stranded contents \<sigma>' s \<and>
    sers \<sigma>' = sers \<sigma>"
proof -
  have ne: "\<not> lfq_empty Q (task_queue z)"
    using assms(6) by (simp add: lockfree_queue.empty_contents [OF assms(1)])
  have "tasks_ok contents \<sigma>" using assms(1,2) by (rule lockfree_queue.reachable_tasks)
  then have "\<forall>(x, r)\<in>set (frames_refs (stacks \<sigma> t)). refs_of \<sigma> x = Some r"
    unfolding tasks_ok_def by blast
  then have refs: "\<forall>(x, r)\<in>set (held_refs cur). refs_of \<sigma> x = Some r" by (simp add: assms(3))
  let ?\<sigma>1 = "set_tl TU_Distributor t None ((dist_push Q d s \<sigma>)\<lparr>stacks := (stacks \<sigma>)(t := F_Leave cur # rest)\<rparr>)"
  obtain \<sigma>2 where drop: "drop_held cur ?\<sigma>1 = Inr \<sigma>2" and \<sigma>2: "stacks \<sigma>2 = stacks ?\<sigma>1"
  proof (cases cur)
    case None
    with that show thesis by (simp add: drop_held_def)
  next
    case (Some y)
    with refs obtain i where "tasks ?\<sigma>1 y = Some i" "ref_count i = 1"
      by (auto simp: refs_of_def set_tl_def dist_push_def)
    with Some that show thesis by (simp add: drop_held_def drop_task_def)
  qed
  have "run_thread_for Q prog t 3 \<sigma> = Inr (\<sigma>2\<lparr>stacks := (stacks \<sigma>)(t := rest)\<rparr>)"
    using assms(3-5) ne drop \<sigma>2
    by (simp add: eval_nat_numeral thread_step_def with_current_def with_ser_def dist_push_def set_tl_def)
  moreover have "\<forall>u. \<forall>fr\<in>set (((stacks \<sigma>)(t := [] @ rest)) u). \<not> frame_drains s fr"
    by (rule frames_step [OF assms(8,3)]) simp
  then have "stranded contents (\<sigma>2\<lparr>stacks := (stacks \<sigma>)(t := rest)\<rparr>) s"
    using assms(5-7) drop_held_tl [OF drop] lockfree_queue.drop_held_sers [OF assms(1) drop]
    by (auto simp: stranded_def drained_def queued_def set_tl_def dist_push_def)
  ultimately show ?thesis
    using lockfree_queue.drop_held_sers [OF assms(1) drop] by (simp add: set_tl_def dist_push_def)
qed

theorem backlog_is_stranded_witness:
  "\<exists>\<sigma> \<sigma>'. reachable list_queue (\<lambda>_. []) 1 \<sigma> \<and> stacks \<sigma> 0 = [F_Check_Empty TU_Serializer None] \<and>
     run_thread_for list_queue (\<lambda>_. []) 0 3 \<sigma> = Inr \<sigma>' \<and> stacks \<sigma>' 0 = [] \<and> stranded (\<lambda>q. q) \<sigma>' 0"
proof -
  have "\<exists>\<sigma>. run_events list_queue (\<lambda>_. []) [Calls 0 (Call_Request 0 0), Runs 0 3,
        Calls 1 (Call_Request 0 5), Runs 1 2, Runs 0 6, Runs 1 1] (start_sys list_queue 1) = Inr \<sigma> \<and>
      stacks \<sigma> 0 = [F_Check_Empty TU_Serializer None] \<and> tl_process \<sigma> TU_Distributor 0 = Some 0 \<and>
      sers \<sigma> 0 = Some \<lparr>task_queue = [1], state = RUNNING\<rparr> \<and>
      (\<forall>u. u \<noteq> 0 \<longrightarrow> tl_process \<sigma> TU_Distributor u \<noteq> Some 0) \<and> (\<forall>u. u \<noteq> 0 \<longrightarrow> stacks \<sigma> u = [])"
    by (simp add: run_defs)
  from run_reaches [OF this] obtain \<sigma> where r: "reachable list_queue (\<lambda>_. []) 1 \<sigma>"
    and s: "stacks \<sigma> 0 = [F_Check_Empty TU_Serializer None]" "tl_process \<sigma> TU_Distributor 0 = Some 0"
      "sers \<sigma> 0 = Some \<lparr>task_queue = [1], state = RUNNING\<rparr>"
    and o: "\<forall>u. u \<noteq> 0 \<longrightarrow> tl_process \<sigma> TU_Distributor u \<noteq> Some 0" and i: "\<forall>u. u \<noteq> 0 \<longrightarrow> stacks \<sigma> u = []"
    by blast
  have "\<forall>u. \<forall>fr\<in>set (stacks \<sigma> u). \<not> frame_drains 0 fr"
    using s(1) i by (metis empty_iff empty_set frame_drains.simps(12) list.set_cases set_ConsD)
  from backlog_is_stranded [OF lq.lockfree_queue_axioms r s _ o this] r s show ?thesis by auto
qed

definition overlap_run :: "event list" where
  "overlap_run =
     [Calls 0 (Call_Request 0 0), Runs 0 6, Calls 1 (Call_Request 0 0), Runs 1 6]"


section \<open>Failures\<close>

text \<open>
  C31: A running task that requests a task of an idle serializer ends the process: in every reachable
  state, a thread that is processing a serializer and requests a task of a running serializer whose
  queue is empty fails the assertion of \<open>process_task_serializer\<close>, since \<open>push\<close> looks at another copy of
  \<open>tl_process_task_serializer\<close>.
\<close>

theorem nested_request_asserts:
  assumes "lockfree_queue Q contents" and "reachable Q prog n \<sigma>"
    and "stacks \<sigma> t = F_Request s c # rest" and "tl_process \<sigma> TU_Distributor t \<noteq> None"
    and "sers \<sigma> s = Some z" and "state z = RUNNING" and "contents (task_queue z) = []"
  shows "run_thread_for Q prog t 5 \<sigma> = Inl Assertion_Failure"
proof -
  have "tl_process \<sigma> TU_Serializer t = None"
    using lockfree_queue.reachable_worker_copy [OF assms(1,2)] by (simp add: worker_copy_unused_def)
  moreover have "lfq_empty Q (task_queue z)"
    using assms(7) by (simp add: lockfree_queue.empty_contents [OF assms(1)])
  ultimately show ?thesis
    using assms(3-6) by (simp add: run_defs)
qed

theorem nested_request_asserts_witness:
  "\<exists>\<sigma>. reachable list_queue (\<lambda>_. [Act_Request 1 9]) 2 \<sigma> \<and>
     run_thread_for list_queue (\<lambda>_. [Act_Request 1 9]) 0 5 \<sigma> = Inl Assertion_Failure"
proof -
  let ?prog = "\<lambda>_. [Act_Request 1 9]"
  have "\<exists>\<sigma>. run_events list_queue ?prog [Calls 0 (Call_Request 0 0), Runs 0 7] (start_sys list_queue 2) = Inr \<sigma> \<and>
      stacks \<sigma> 0 = [F_Request 1 (User_Task 9), F_Invoke TU_Serializer 0 0 []] \<and>
      tl_process \<sigma> TU_Distributor 0 \<noteq> None \<and> sers \<sigma> 1 = Some \<lparr>task_queue = [], state = RUNNING\<rparr>"
    by (simp add: run_defs)
  from run_reaches [OF this] obtain \<sigma> where r: "reachable list_queue ?prog 2 \<sigma>"
    and s: "stacks \<sigma> 0 = [F_Request 1 (User_Task 9), F_Invoke TU_Serializer 0 0 []]"
      "tl_process \<sigma> TU_Distributor 0 \<noteq> None" "sers \<sigma> 1 = Some \<lparr>task_queue = [], state = RUNNING\<rparr>" by blast
  from nested_request_asserts [OF lq.lockfree_queue_axioms r s] r show ?thesis by auto
qed

text \<open>
  \<open>clear\<close> fails on every serializer that still has tasks: in every reachable state its first
  \<open>release\<close> hits a task whose reference count is zero.
\<close>

theorem clear_pending_asserts:
  assumes "lockfree_queue Q contents" and "reachable Q prog n \<sigma>"
    and "stacks \<sigma> t = F_Clear s # rest" and "sers \<sigma> s = Some z" and "contents (task_queue z) \<noteq> []"
  shows "run_thread_for Q prog t 2 \<sigma> = Inl Assertion_Failure"
proof -
  obtain x xs where c: "contents (task_queue z) = x # xs" using assms(5) by (auto simp: neq_Nil_conv)
  from assms(1) c obtain q where q: "lfq_pop Q (task_queue z) = Some (x, q)"
    by (rule lockfree_queue.pop_nonempty)
  have "\<forall>s. \<forall>x\<in>set (queued contents \<sigma> s). refs_of \<sigma> x = Some 0"
    using lockfree_queue.reachable_tasks [OF assms(1,2)] by (simp add: tasks_ok_def)
  then have "refs_of \<sigma> x = Some 0" using assms(4) c by (metis list.set_intros(1) lockfree_queue.queued_Some assms(1))
  then obtain j where "tasks \<sigma> x = Some j" "ref_count j = 0" by (auto simp: refs_of_def)
  moreover have "\<not> lfq_empty Q (task_queue z)"
    using assms(5) by (simp add: lockfree_queue.empty_contents [OF assms(1)])
  ultimately show ?thesis using assms(3,4) q by (simp add: run_defs)
qed

theorem clear_pending_asserts_witness:
  "\<exists>\<sigma>. reachable list_queue (\<lambda>_. [Act_Clear 0]) 1 \<sigma> \<and>
     run_thread_for list_queue (\<lambda>_. [Act_Clear 0]) 0 2 \<sigma> = Inl Assertion_Failure"
proof -
  let ?prog = "\<lambda>_. [Act_Clear 0]"
  have "\<exists>\<sigma>. run_events list_queue ?prog [Calls 0 (Call_Request 0 0), Runs 0 3,
        Calls 1 (Call_Request 0 5), Runs 1 3, Runs 0 4] (start_sys list_queue 1) = Inr \<sigma> \<and>
      stacks \<sigma> 0 = [F_Clear 0, F_Invoke TU_Serializer 0 0 []] \<and>
      sers \<sigma> 0 = Some \<lparr>task_queue = [1], state = RUNNING\<rparr>"
    by (simp add: run_defs)
  from run_reaches [OF this] obtain \<sigma> where r: "reachable list_queue ?prog 1 \<sigma>"
    and s: "stacks \<sigma> 0 = [F_Clear 0, F_Invoke TU_Serializer 0 0 []]"
      "sers \<sigma> 0 = Some \<lparr>task_queue = [1], state = RUNNING\<rparr>" by blast
  from clear_pending_asserts [OF lq.lockfree_queue_axioms r s] r show ?thesis by auto
qed

lemma set_destroy_frees:
  assumes "reliable_queue Q contents" and "reachable Q prog n \<sigma>" and "stacks \<sigma> t = []"
    and "sers \<sigma> s = Some z" and "state z = RUNNING" and "contents (task_queue z) = []"
  shows "run_thread_for Q prog t 15 (enter t (Call_Set_Destroy s) \<sigma>) = Inl Use_After_Free"
proof -
  have lf: "lockfree_queue Q contents" using assms(1) by (rule reliable_queue.axioms(1))
  let ?x = "next_task \<sigma>"
  let ?q1 = "push_ignore Q ?x (task_queue z)"
  have "contents ?q1 = [?x]" by (simp add: reliable_queue.push_ignore_appends [OF assms(1)] assms(6))
  then obtain q2 where pop: "lfq_pop Q ?q1 = Some (?x, q2)" and q2: "contents q2 = []"
    by (rule lockfree_queue.pop_nonempty [OF lf])
  have empty: "lfq_empty Q (task_queue z)" "lfq_empty Q q2" "lfq_pop Q q2 = None"
    by (simp_all add: lockfree_queue.empty_contents [OF lf] lockfree_queue.pop_None_iff [OF lf] q2 assms(6))
  have tl: "tl_process \<sigma> TU_Serializer t = None"
    using lockfree_queue.reachable_worker_copy [OF lf assms(2)] by (simp add: worker_copy_unused_def)
  have now: "processing_now \<sigma> t = None" using idle_not_processing [OF assms(2,3)] .
  show ?thesis
    using assms(3-5) by (simp add: run_defs tl now empty pop)
qed

text \<open>
  \<open>set_destroy\<close> on an idle serializer writes to freed memory: the \<open>clear\<close> task runs at once, inside
  the request, the processing loop deletes the serializer, and the state is stored afterwards.
\<close>

theorem set_destroy_use_after_free:
  assumes "reliable_queue Q contents" and "reachable Q prog n \<sigma>" and "stacks \<sigma> t = []"
    and "sers \<sigma> s = Some z" and "state z = RUNNING" and "contents (task_queue z) = []"
  shows "run_thread_for Q prog t 15 (enter t (Call_Set_Destroy s) \<sigma>) = Inl Use_After_Free"
  using assms by (rule set_destroy_frees)

theorem set_destroy_use_after_free_witness:
  "run_thread_for list_queue (\<lambda>_. []) 0 15 (enter 0 (Call_Set_Destroy 0) (start_sys list_queue 1)) =
     Inl Use_After_Free"
  by (rule set_destroy_use_after_free [OF lq.reliable_queue_axioms reachable.start,
        where z = "\<lparr>task_queue = [], state = RUNNING\<rparr>"]) (simp_all add: start_sys_def)

end
