(* ===== verification/Task_Shutdown.thy ===== *)
theory Task_Shutdown
  imports Task_Properties
begin

text \<open>
  The end of the program: the destructors of \<open>TaskSerializer\<close> and \<open>TaskDistributor\<close>, which run when no thread
  is left to interleave with, so the pieces of \<open>clear\<close> from \<open>Task_Machine\<close> are composed to loops here. A
  loop that does not end is the value \<open>None\<close>. At the end, the pop of a task into an \<open>ObjectPtr\<close>, which
  the repository offers and does not use.
\<close>

section \<open>Destructors\<close>

partial_function (option) clear_serializer ::
    "'q lfq_ops \<Rightarrow> nat \<Rightarrow> 'q task_sys \<Rightarrow> 'q task_sys outcome option" where
  "clear_serializer Q s \<sigma> =
     (case clear_look Q s \<sigma> of
        Inl e \<Rightarrow> Some (Inl e)
      | Inr r \<Rightarrow>
          if fst r = [] then Some (Inr (snd r))
          else (case clear_pop Q s (snd r) of
                  Inl e \<Rightarrow> Some (Inl e)
                | Inr r' \<Rightarrow> clear_serializer Q s (snd r')))"

text \<open>\<open>delete\<close> of a serializer: its destructor clears it, then the memory is gone.\<close>

definition delete_serializer :: "'q lfq_ops \<Rightarrow> nat \<Rightarrow> 'q task_sys \<Rightarrow> 'q task_sys outcome option" where
  "delete_serializer Q s \<sigma> =
     map_option (\<lambda>r. bind_outcome r (\<lambda>\<sigma>1. bind_outcome (free_serializer s \<sigma>1) (\<lambda>(frs, \<sigma>2). Inr \<sigma>2)))
       (clear_serializer Q s \<sigma>)"

text \<open>The destructor of the distributor of source file \<open>u\<close>; a pop that fails leaves the null pointer.\<close>

partial_function (option) delete_distributor ::
    "'q lfq_ops \<Rightarrow> source_unit \<Rightarrow> 'q task_sys \<Rightarrow> 'q task_sys outcome option" where
  "delete_distributor Q u \<sigma> =
     (if lfq_empty Q (dist \<sigma> u) then Some (Inr \<sigma>)
      else (case lfq_pop Q (dist \<sigma> u) of
              None \<Rightarrow> delete_distributor Q u \<sigma>
            | Some r \<Rightarrow>
                Option.bind (delete_serializer Q (fst r) (\<sigma>\<lparr>dist := (dist \<sigma>)(u := snd r)\<rparr>)) (\<lambda>d.
                  case d of Inl e \<Rightarrow> Some (Inl e) | Inr \<sigma>' \<Rightarrow> delete_distributor Q u \<sigma>')))"

text \<open>\<open>bool pop(ObjectPtr<ITask>&)\<close>; \<open>cur\<close> is what the reference holds before.\<close>

definition pop_into ::
    "'q lfq_ops \<Rightarrow> nat \<Rightarrow> nat option \<Rightarrow> 'q task_sys \<Rightarrow> (bool \<times> nat option \<times> 'q task_sys) outcome" where
  "pop_into Q s cur \<sigma> =
     with_ser s \<sigma> (\<lambda>z.
       case lfq_pop Q (task_queue z) of
         None \<Rightarrow> Inr (False, cur, \<sigma>)
       | Some (x, q) \<Rightarrow>
           bind_outcome (hold_task x (put_ser s (z\<lparr>task_queue := q\<rparr>) \<sigma>)) (\<lambda>\<sigma>1.
           bind_outcome (drop_held cur \<sigma>1) (\<lambda>\<sigma>2. Inr (True, Some x, \<sigma>2))))"

section \<open>Deleting one serializer\<close>

definition unheld :: "('q \<Rightarrow> nat list) \<Rightarrow> 'q task_sys \<Rightarrow> bool" where
  "unheld contents \<sigma> \<longleftrightarrow> (\<forall>s. \<forall>x\<in>set (queued contents \<sigma> s). refs_of \<sigma> x = Some 0)"

definition deletable :: "('q \<Rightarrow> nat list) \<Rightarrow> 'q task_sys \<Rightarrow> nat \<Rightarrow> bool" where
  "deletable contents \<sigma> s \<longleftrightarrow> sers \<sigma> s \<noteq> None \<and> queued contents \<sigma> s = []"

context lockfree_queue
begin

lemma unheldD: "unheld contents \<sigma> \<Longrightarrow> sers \<sigma> s = Some z \<Longrightarrow> x \<in> set (contents (task_queue z)) \<Longrightarrow> refs_of \<sigma> x = Some 0"
  unfolding unheld_def by (metis queued_Some)

lemma clear_serializer_empty:
  assumes "sers \<sigma> s = Some z" and "contents (task_queue z) = []"
  shows "clear_serializer Q s \<sigma> = Some (Inr (put_ser s (z\<lparr>state := DESTROYED\<rparr>) \<sigma>))"
  using assms by (simp add: clear_serializer.simps with_ser_def empty_contents)

lemma clear_serializer_pending:
  assumes "sers \<sigma> s = Some z" and "contents (task_queue z) \<noteq> []" and "unheld contents \<sigma>"
  shows "clear_serializer Q s \<sigma> = Some (Inl Assertion_Failure)"
proof -
  obtain x xs where c: "contents (task_queue z) = x # xs" using assms(2) by (auto simp: neq_Nil_conv)
  then obtain q where pop: "lfq_pop Q (task_queue z) = Some (x, q)" by (rule pop_nonempty)
  have "refs_of \<sigma> x = Some 0" using unheldD [OF assms(3,1)] c by simp
  then obtain j where "tasks \<sigma> x = Some j" "ref_count j = 0" by (auto simp: refs_of_def)
  then have "clear_pop Q s \<sigma> = Inl Assertion_Failure"
    using assms(1) pop by (simp add: with_ser_def drop_task_def put_ser_def)
  moreover have "clear_look Q s \<sigma> = Inr ([F_Clear_Pop s], \<sigma>)"
    using assms(1,2) by (simp add: with_ser_def empty_contents)
  ultimately show ?thesis by (simp add: clear_serializer.simps del: clear_look_def clear_pop_def)
qed

lemma delete_serializer_cases:
  assumes "unheld contents \<sigma>"
  shows "delete_serializer Q s \<sigma> =
    Some (if sers \<sigma> s = None then Inl Use_After_Free
          else if queued contents \<sigma> s \<noteq> [] then Inl Assertion_Failure
          else Inr (\<sigma>\<lparr>sers := (sers \<sigma>)(s := None)\<rparr>))"
proof (cases "sers \<sigma> s")
  case None
  then show ?thesis by (simp add: delete_serializer_def clear_serializer.simps with_ser_def)
next
  case (Some z)
  then have q: "queued contents \<sigma> s = contents (task_queue z)" by (rule queued_Some)
  show ?thesis
  proof (cases "contents (task_queue z) = []")
    case True
    with Some q show ?thesis
      by (simp add: delete_serializer_def clear_serializer_empty with_ser_def put_ser_def)
  next
    case False
    with Some q show ?thesis
      by (simp add: delete_serializer_def clear_serializer_pending [OF Some False assms])
  qed
qed

lemma unheld_delete:
  "unheld contents \<sigma> \<Longrightarrow> unheld contents (\<sigma>\<lparr>sers := (sers \<sigma>)(s := None), dist := d\<rparr>)"
  by (auto simp: unheld_def queued_def refs_of_def)

section \<open>Deleting the distributor\<close>

lemma delete_distributor_spec:
  assumes "unheld contents \<sigma>"
  shows "delete_distributor Q u \<sigma> \<noteq> None \<and>
    ((\<exists>\<sigma>'. delete_distributor Q u \<sigma> = Some (Inr \<sigma>')) \<longleftrightarrow>
       distinct (contents (dist \<sigma> u)) \<and> (\<forall>s\<in>set (contents (dist \<sigma> u)). deletable contents \<sigma> s)) \<and>
    (\<forall>\<sigma>'. delete_distributor Q u \<sigma> = Some (Inr \<sigma>') \<longrightarrow>
       contents (dist \<sigma>' u) = [] \<and> tasks \<sigma>' = tasks \<sigma> \<and>
       sers \<sigma>' = (\<lambda>s. if s \<in> set (contents (dist \<sigma> u)) then None else sers \<sigma> s))"
  using assms
proof (induction "contents (dist \<sigma> u)" arbitrary: \<sigma>)
  case Nil
  then show ?case by (simp add: delete_distributor.simps empty_contents)
next
  case (Cons s ss)
  from Cons.hyps(2) [symmetric] obtain q where pop: "lfq_pop Q (dist \<sigma> u) = Some (s, q)"
    and q: "contents q = ss" by (rule pop_nonempty)
  let ?\<sigma>1 = "\<sigma>\<lparr>dist := (dist \<sigma>)(u := q)\<rparr>"
  have un: "unheld contents ?\<sigma>1" using Cons.prems by (simp add: unheld_def queued_def refs_of_def)
  have del: "delete_serializer Q s ?\<sigma>1 =
    Some (if sers \<sigma> s = None then Inl Use_After_Free
          else if queued contents \<sigma> s \<noteq> [] then Inl Assertion_Failure
          else Inr (?\<sigma>1\<lparr>sers := (sers \<sigma>)(s := None)\<rparr>))"
    using delete_serializer_cases [OF un, of s] by (simp add: queued_def)
  have ne: "\<not> lfq_empty Q (dist \<sigma> u)" using Cons.hyps(2) by (metis empty_contents list.distinct(1))
  show ?case
  proof (cases "deletable contents \<sigma> s")
    case True
    let ?\<sigma>2 = "\<sigma>\<lparr>sers := (sers \<sigma>)(s := None), dist := (dist \<sigma>)(u := q)\<rparr>"
    have "delete_serializer Q s ?\<sigma>1 = Some (Inr ?\<sigma>2)" using del True by (auto simp: deletable_def)
    then have step: "delete_distributor Q u \<sigma> = delete_distributor Q u ?\<sigma>2"
      using ne pop by (simp add: delete_distributor.simps [of Q u \<sigma>])
    have "ss = contents (dist ?\<sigma>2 u)" using q by simp
    note IH = Cons.hyps(1) [OF this unheld_delete [OF Cons.prems]]
    have d: "deletable contents ?\<sigma>2 r \<longleftrightarrow> r \<noteq> s \<and> deletable contents \<sigma> r" for r
      by (simp add: deletable_def queued_def)
    have q2: "contents (dist ?\<sigma>2 u) = ss" using q by simp
    have c: "contents (dist \<sigma> u) = s # ss" using Cons.hyps(2) by simp
    have iff: "distinct ss \<and> (\<forall>r\<in>set ss. deletable contents ?\<sigma>2 r) \<longleftrightarrow>
        distinct (s # ss) \<and> (\<forall>r\<in>set (s # ss). deletable contents \<sigma> r)"
      unfolding d using True by auto
    have sers: "(\<lambda>r. if r \<in> set ss then None else sers ?\<sigma>2 r) =
        (\<lambda>r. if r \<in> set (s # ss) then None else sers \<sigma> r)" by auto
    have tasks: "tasks ?\<sigma>2 = tasks \<sigma>" by simp
    show ?thesis using IH unfolding step q2 iff sers tasks c .
  next
    case False
    then have "\<exists>e. delete_distributor Q u \<sigma> = Some (Inl e)"
      using ne pop del by (simp add: delete_distributor.simps [of Q u \<sigma>] deletable_def split: if_splits)
    then show ?thesis using False Cons.hyps(2) [symmetric] by auto
  qed
qed

end



section \<open>Popping into an \<open>ObjectPtr\<close>\<close>

text \<open>
  In a reachable state: the pop fails, and changes nothing, exactly when the queue is empty;
  otherwise the first task is held once and out of the queue.
\<close>

context lockfree_queue
begin

lemma pop_into_spec:
  assumes "tasks_ok contents \<sigma>" and "sers \<sigma> s = Some z"
  shows "if contents (task_queue z) = [] then pop_into Q s None \<sigma> = Inr (False, None, \<sigma>)
    else \<exists>\<sigma>'. pop_into Q s None \<sigma> = Inr (True, Some (hd (contents (task_queue z))), \<sigma>') \<and>
      refs_of \<sigma>' (hd (contents (task_queue z))) = Some 1 \<and>
      queued contents \<sigma>' s = tl (contents (task_queue z))"
proof (cases "contents (task_queue z)")
  case Nil
  then have "lfq_pop Q (task_queue z) = None" by (simp add: pop_None_iff)
  with Nil show ?thesis using assms(2) by (simp add: pop_into_def with_ser_def)
next
  case (Cons x xs)
  then obtain q where pop: "lfq_pop Q (task_queue z) = Some (x, q)" "contents q = xs" by (rule pop_nonempty)
  have "unheld contents \<sigma>" using assms(1) by (simp add: tasks_ok_def unheld_def)
  from unheldD [OF this assms(2)] Cons have "refs_of \<sigma> x = Some 0" by simp
  then obtain j where "tasks \<sigma> x = Some j" "ref_count j = 0" by (auto simp: refs_of_def)
  with pop Cons assms(2) show ?thesis
    by (simp add: pop_into_def with_ser_def hold_task_def drop_held_def put_ser_def refs_of_def queued_def add_ref_def)
qed

end

end
