(* ===== verification/Memory_Pool.thy ===== *)
theory Memory_Pool
  imports Lockfree_Queue
begin

text \<open>
  The memory module (\<open>braid/src/memory\<close>): \<open>MemoryChunk\<close>, \<open>ThreadLocalCache\<close> and \<open>ObjectPool\<close>.
  Slots are addresses. \<open>IOPool::get_io_pool\<close> makes one pool per object type, so the thread-local
  cache of each thread (a \<open>thread_local static\<close> of \<open>get_tls_cache\<close>) is a component of the pool's
  state, indexed by the thread. The parameters are the queue operations \<open>Q\<close>, the object size
  \<open>sz\<close> and the outcome of \<open>operator new\<close> (\<open>None\<close> for \<open>bad_alloc\<close>). One call of a pool operation
  is one atomic step here; Pool_Machine splits it.
\<close>

section \<open>MemoryChunk\<close>

text \<open>The chain of \<open>next_\<close> pointers from \<open>chunk_head_\<close> is the list of chunks, newest first.\<close>

record memory_chunk =
  chunk_count :: nat
  chunk_memory :: nat

definition chunk_bytes :: "nat \<Rightarrow> nat \<Rightarrow> nat" where
  "chunk_bytes sz n = size_t (sz * n)"

definition get_slot :: "nat \<Rightarrow> memory_chunk \<Rightarrow> nat \<Rightarrow> nat option" where
  "get_slot sz c i = (if chunk_count c \<le> i then None else Some (chunk_memory c + sz * i))"

section \<open>ThreadLocalCache\<close>

text \<open>\<open>cache_\<close> is a vector; its back is the last element of the list.\<close>

record tl_cache =
  max_cache_size :: nat
  tl_batch_size :: nat
  cache :: "nat list"

definition tl_cache_new :: "nat \<Rightarrow> nat \<Rightarrow> tl_cache" where
  "tl_cache_new m b = \<lparr>max_cache_size = m, tl_batch_size = b, cache = []\<rparr>"

definition try_acquire :: "tl_cache \<Rightarrow> nat option \<times> tl_cache" where
  "try_acquire c =
     (if cache c = [] then (None, c)
      else (Some (last (cache c)), c\<lparr>cache := butlast (cache c)\<rparr>))"

definition try_release :: "nat \<Rightarrow> tl_cache \<Rightarrow> bool \<times> tl_cache" where
  "try_release x c =
     (if length (cache c) < max_cache_size c then (True, c\<lparr>cache := cache c @ [x]\<rparr>)
      else (False, c))"

definition should_batch_return :: "tl_cache \<Rightarrow> bool" where
  "should_batch_return c \<longleftrightarrow> size_t (max_cache_size c * 3) div 4 < length (cache c)"

fun extract_loop :: "nat \<Rightarrow> nat list \<Rightarrow> tl_cache \<Rightarrow> nat list \<times> tl_cache" where
  "extract_loop 0 out c = (out, c)"
| "extract_loop (Suc n) out c =
     extract_loop n (out @ [last (cache c)]) (c\<lparr>cache := butlast (cache c)\<rparr>)"

definition extract_batch :: "nat \<Rightarrow> tl_cache \<Rightarrow> nat list \<times> tl_cache" where
  "extract_batch buffer_size c =
     extract_loop (min (min (tl_batch_size c) buffer_size) (length (cache c))) [] c"

fun add_batch :: "nat list \<Rightarrow> tl_cache \<Rightarrow> tl_cache" where
  "add_batch [] c = c"
| "add_batch (x # xs) c =
     (if length (cache c) < max_cache_size c
      then add_batch xs (c\<lparr>cache := cache c @ [x]\<rparr>) else c)"

section \<open>ObjectPool\<close>

record pool_config =
  cfg_initial_count :: nat
  cfg_chunk_size :: nat
  cfg_tls_cache_size :: nat
  cfg_batch_size :: nat

definition DEFAULT_BATCH_SIZE :: nat where "DEFAULT_BATCH_SIZE = 16"

definition default_config :: pool_config where
  "default_config = \<lparr>cfg_initial_count = 128, cfg_chunk_size = 128,
     cfg_tls_cache_size = 32, cfg_batch_size = DEFAULT_BATCH_SIZE\<rparr>"

record 'q object_pool =
  chunk_size :: nat
  tls_cache_size :: nat
  batch_size :: nat
  free_queue :: 'q
  chunks :: "memory_chunk list"
  total_allocated :: nat
  allocating :: bool
  tls :: "nat \<Rightarrow> tl_cache option"

definition get_tls_cache :: "nat \<Rightarrow> 'q object_pool \<Rightarrow> tl_cache" where
  "get_tls_cache t p =
     (case tls p t of
        None \<Rightarrow> tl_cache_new (tls_cache_size p) (batch_size p)
      | Some c \<Rightarrow> c)"

definition set_tls_cache :: "nat \<Rightarrow> tl_cache \<Rightarrow> 'q object_pool \<Rightarrow> 'q object_pool" where
  "set_tls_cache t c p = p\<lparr>tls := (tls p)(t \<mapsto> c)\<rparr>"

text \<open>
  \<open>allocate_chunk\<close>: \<open>test_and_set\<close> returns the flag's old value; the loop pushes every slot the
  chunk hands out.
\<close>

fun push_slots :: "'q lfq_ops \<Rightarrow> nat \<Rightarrow> memory_chunk \<Rightarrow> nat list \<Rightarrow> 'q \<Rightarrow> 'q" where
  "push_slots Q sz c [] q = q"
| "push_slots Q sz c (i # js) q =
     push_slots Q sz c js
       (case get_slot sz c i of None \<Rightarrow> q | Some x \<Rightarrow> push_ignore Q x q)"

definition allocate_chunk ::
    "'q lfq_ops \<Rightarrow> nat \<Rightarrow> (nat \<Rightarrow> nat option) \<Rightarrow> nat \<Rightarrow> 'q object_pool
       \<Rightarrow> bool \<times> 'q object_pool" where
  "allocate_chunk Q sz new_mem n p =
     (if allocating p then (False, p)
      else (case new_mem (chunk_bytes sz n) of
              None \<Rightarrow> (False, p)
            | Some base \<Rightarrow>
                (let c = \<lparr>chunk_count = n, chunk_memory = base\<rparr>
                 in (True, p\<lparr>free_queue := push_slots Q sz c [0..<n] (free_queue p),
                             chunks := c # chunks p,
                             total_allocated := size_t (total_allocated p + n)\<rparr>))))"

definition object_pool_new ::
    "'q lfq_ops \<Rightarrow> nat \<Rightarrow> (nat \<Rightarrow> nat option) \<Rightarrow> pool_config \<Rightarrow> 'q object_pool" where
  "object_pool_new Q sz new_mem cfg =
     snd (allocate_chunk Q sz new_mem (cfg_initial_count cfg)
       \<lparr>chunk_size = cfg_chunk_size cfg, tls_cache_size = cfg_tls_cache_size cfg,
        batch_size = cfg_batch_size cfg,
        free_queue = lfq_new Q (size_t (cfg_initial_count cfg + 128)), chunks = [],
        total_allocated = 0, allocating = False, tls = (\<lambda>_. None)\<rparr>)"

text \<open>
  \<open>batch_steal_from_central\<close>: the loop is bounded by \<open>batch_size_\<close>, the array \<open>batch\<close> by
  \<open>DEFAULT_BATCH_SIZE\<close>; popping into \<open>batch[count]\<close> beyond it is out of bounds.
\<close>

fun steal_loop ::
    "'q lfq_ops \<Rightarrow> nat \<Rightarrow> nat list \<Rightarrow> 'q \<Rightarrow> (nat list \<times> 'q) outcome" where
  "steal_loop Q 0 batch q = Inr (batch, q)"
| "steal_loop Q (Suc n) batch q =
     (case lfq_pop Q q of
        None \<Rightarrow> Inr (batch, q)
      | Some (x, q') \<Rightarrow>
          if length batch < DEFAULT_BATCH_SIZE then steal_loop Q n (batch @ [x]) q'
          else Inl Out_Of_Bounds)"

definition batch_steal_from_central ::
    "'q lfq_ops \<Rightarrow> nat \<Rightarrow> 'q object_pool \<Rightarrow> (nat option \<times> 'q object_pool) outcome" where
  "batch_steal_from_central Q t p =
     bind_outcome (steal_loop Q (batch_size p) [] (free_queue p)) (\<lambda>(batch, q).
       let p' = p\<lparr>free_queue := q\<rparr>
       in Inr (case batch of
                 [] \<Rightarrow> (None, p')
               | x # rest \<Rightarrow>
                   (Some x, if rest = [] then p'
                            else set_tls_cache t (add_batch rest (get_tls_cache t p')) p')))"

definition batch_return_to_central ::
    "'q lfq_ops \<Rightarrow> nat \<Rightarrow> 'q object_pool \<Rightarrow> 'q object_pool" where
  "batch_return_to_central Q t p =
     (let (batch, c) = extract_batch DEFAULT_BATCH_SIZE (get_tls_cache t p)
      in (set_tls_cache t c p)\<lparr>free_queue := push_all Q batch (free_queue p)\<rparr>)"

text \<open>The retry loop of \<open>acquire\<close>, taken when another thread is allocating.\<close>

fun retry_pop :: "'q lfq_ops \<Rightarrow> nat \<Rightarrow> 'q \<Rightarrow> nat option \<times> 'q" where
  "retry_pop Q 0 q = (None, q)"
| "retry_pop Q (Suc n) q =
     (case lfq_pop Q q of None \<Rightarrow> retry_pop Q n q | Some (x, q') \<Rightarrow> (Some x, q'))"

text \<open>The three parts of \<open>acquire\<close>, in its order.\<close>

definition acquire_cached ::
    "'q lfq_ops \<Rightarrow> nat \<Rightarrow> 'q object_pool \<Rightarrow> (nat option \<times> 'q object_pool) outcome" where
  "acquire_cached Q t p =
     (let (r, c) = try_acquire (get_tls_cache t p);
          p1 = set_tls_cache t c p
      in case r of
           Some x \<Rightarrow> Inr (Some x, p1)
         | None \<Rightarrow>
             (case lfq_pop Q (free_queue p1) of
                Some (x, q) \<Rightarrow> Inr (Some x, p1\<lparr>free_queue := q\<rparr>)
              | None \<Rightarrow> batch_steal_from_central Q t p1))"

definition acquire_fresh ::
    "'q lfq_ops \<Rightarrow> nat \<Rightarrow> (nat \<Rightarrow> nat option) \<Rightarrow> 'q object_pool
       \<Rightarrow> nat option \<times> 'q object_pool" where
  "acquire_fresh Q sz new_mem p =
     (let (ok, p1) = allocate_chunk Q sz new_mem (chunk_size p) p
      in if ok
         then (case lfq_pop Q (free_queue p1) of
                 None \<Rightarrow> (None, p1)
               | Some (x, q) \<Rightarrow> (Some x, p1\<lparr>free_queue := q\<rparr>))
         else (let (r, q) = retry_pop Q 20 (free_queue p1) in (r, p1\<lparr>free_queue := q\<rparr>)))"

definition acquire ::
    "'q lfq_ops \<Rightarrow> nat \<Rightarrow> (nat \<Rightarrow> nat option) \<Rightarrow> bool \<Rightarrow> nat \<Rightarrow> 'q object_pool
       \<Rightarrow> (nat option \<times> 'q object_pool) outcome" where
  "acquire Q sz new_mem ctor_ok t p =
     bind_outcome (acquire_cached Q t p) (\<lambda>(r1, p1).
       let (r, p2) = (case r1 of None \<Rightarrow> acquire_fresh Q sz new_mem p1 | Some x \<Rightarrow> (Some x, p1))
       in Inr (case r of
                 None \<Rightarrow> (None, p2)
               | Some x \<Rightarrow>
                   if ctor_ok then (Some x, p2)
                   else (None, p2\<lparr>free_queue := push_ignore Q x (free_queue p2)\<rparr>)))"

text \<open>\<open>release\<close>, for a non-null and a null pointer.\<close>

definition release ::
    "'q lfq_ops \<Rightarrow> nat \<Rightarrow> nat option \<Rightarrow> 'q object_pool \<Rightarrow> 'q object_pool" where
  "release Q t obj p =
     (case obj of
        None \<Rightarrow> p
      | Some x \<Rightarrow>
          (let (ok, c) = try_release x (get_tls_cache t p);
               p1 = set_tls_cache t c p;
               p2 = (if ok then p1 else p1\<lparr>free_queue := push_ignore Q x (free_queue p1)\<rparr>)
           in if should_batch_return (get_tls_cache t p2)
              then batch_return_to_central Q t p2 else p2))"

text \<open>
  The destructor gives the memory of the chunks back. The caches stay: the variable of \<open>get_tls_cache\<close>
  is one per thread and instance of the template, so the next pool of the same type finds them.
\<close>

fun delete_chunks :: "memory_chunk list \<Rightarrow> nat list" where
  "delete_chunks [] = []"
| "delete_chunks (chunk # rest) = chunk_memory chunk # delete_chunks rest"

definition object_pool_delete :: "'q object_pool \<Rightarrow> nat list \<times> (nat \<Rightarrow> tl_cache option)" where
  "object_pool_delete p = (delete_chunks (chunks p), tls p)"

definition object_pool_next ::
    "'q lfq_ops \<Rightarrow> nat \<Rightarrow> (nat \<Rightarrow> nat option) \<Rightarrow> pool_config \<Rightarrow> (nat \<Rightarrow> tl_cache option) \<Rightarrow> 'q object_pool" where
  "object_pool_next Q sz new_mem cfg caches = (object_pool_new Q sz new_mem cfg)\<lparr>tls := caches\<rparr>"

section \<open>Where the slots are\<close>

text \<open>
  Every slot of every chunk is in the free queue, in the cache of a thread of \<open>T\<close> or with a
  client. \<open>owned\<close> counts the first two.
\<close>

definition chunk_slots :: "nat \<Rightarrow> memory_chunk \<Rightarrow> nat list" where
  "chunk_slots sz c = map (\<lambda>i. chunk_memory c + sz * i) [0..<chunk_count c]"

definition all_slots :: "nat \<Rightarrow> 'q object_pool \<Rightarrow> nat list" where
  "all_slots sz p = concat (map (chunk_slots sz) (chunks p))"

definition owned :: "('q \<Rightarrow> nat list) \<Rightarrow> nat set \<Rightarrow> 'q object_pool \<Rightarrow> nat multiset" where
  "owned contents T p =
     mset (contents (free_queue p)) + (\<Sum>t\<in>T. mset (cache (get_tls_cache t p)))"

definition mset_option :: "'a option \<Rightarrow> 'a multiset" where
  "mset_option r = (case r of None \<Rightarrow> {#} | Some x \<Rightarrow> {#x#})"

lemma mset_option_simps [simp]: "mset_option None = {#}" "mset_option (Some x) = {#x#}"
  by (simp_all add: mset_option_def)

section \<open>The cache\<close>

lemma get_tls_cache_set [simp]:
  "get_tls_cache s (set_tls_cache t c p) = (if s = t then c else get_tls_cache s p)"
  by (simp add: get_tls_cache_def set_tls_cache_def split: option.split)

lemma get_tls_cache_frame [simp]:
  "get_tls_cache t (p\<lparr>free_queue := q\<rparr>) = get_tls_cache t p"
  "get_tls_cache t (p\<lparr>free_queue := q, chunks := cs, total_allocated := n\<rparr>) = get_tls_cache t p"
  "get_tls_cache t (p\<lparr>chunks := cs, total_allocated := n\<rparr>) = get_tls_cache t p"
  by (simp_all add: get_tls_cache_def split: option.split)

lemma set_tls_cache_frame [simp]:
  "free_queue (set_tls_cache t c p) = free_queue p"
  "chunks (set_tls_cache t c p) = chunks p"
  "all_slots sz (set_tls_cache t c p) = all_slots sz p"
  "chunk_size (set_tls_cache t c p) = chunk_size p"
  "batch_size (set_tls_cache t c p) = batch_size p"
  "tls_cache_size (set_tls_cache t c p) = tls_cache_size p"
  "total_allocated (set_tls_cache t c p) = total_allocated p"
  "allocating (set_tls_cache t c p) = allocating p"
  by (simp_all add: set_tls_cache_def all_slots_def)

lemma all_slots_frame [simp]: "all_slots sz (p\<lparr>free_queue := q\<rparr>) = all_slots sz p"
  by (simp add: all_slots_def)

lemma try_acquire_mset:
  "try_acquire c = (r, c') \<Longrightarrow> mset (cache c') + mset_option r = mset (cache c)"
  by (auto simp: try_acquire_def mset_last_butlast split: if_splits)

lemma try_release_mset:
  "try_release x c = (ok, c') \<Longrightarrow>
     mset (cache c') = (if ok then add_mset x (mset (cache c)) else mset (cache c))"
  by (auto simp: try_release_def split: if_splits)

lemma extract_loop_mset:
  "n \<le> length (cache c) \<Longrightarrow> extract_loop n out c = (xs, c') \<Longrightarrow>
     mset xs + mset (cache c') = mset out + mset (cache c)"
proof (induction n arbitrary: out c)
  case (Suc n)
  then have ne: "cache c \<noteq> []" by auto
  let ?c = "c\<lparr>cache := butlast (cache c)\<rparr>"
  have "mset xs + mset (cache c') = mset (out @ [last (cache c)]) + mset (cache ?c)"
    using Suc.prems by (intro Suc.IH) simp_all
  with ne show ?case by (simp add: mset_last_butlast [of "cache c"])
qed simp

lemma extract_loop_cache:
  "n \<le> length (cache c) \<Longrightarrow>
     snd (extract_loop n out c) = c\<lparr>cache := take (length (cache c) - n) (cache c)\<rparr>"
proof (induction n arbitrary: out c)
  case (Suc n)
  then have "take (length (cache c) - Suc n) (butlast (cache c)) =
    take (length (cache c) - Suc n) (cache c)"
    by (simp add: butlast_conv_take min_def)
  with Suc show ?case by simp
qed simp

lemma extract_loop_out:
  "n \<le> length (cache c) \<Longrightarrow>
     fst (extract_loop n out c) = out @ rev (drop (length (cache c) - n) (cache c))"
proof (induction n arbitrary: out c)
  case (Suc n)
  then obtain ys y where c: "cache c = ys @ [y]" by (metis list.size(3) not_less_eq_eq rev_exhaust zero_le)
  with Suc show ?case by (simp add: Suc_diff_le)
qed simp

lemma extract_batch_mset:
  "extract_batch b c = (xs, c') \<Longrightarrow> mset xs + mset (cache c') = mset (cache c)"
  unfolding extract_batch_def by (drule extract_loop_mset [rotated]) simp_all

section \<open>Conservation of slots\<close>

lemma owned_set_tls_cache:
  assumes "finite T" and "t \<in> T"
  shows "owned contents T (set_tls_cache t c p) + mset (cache (get_tls_cache t p)) =
    owned contents T p + mset (cache c)"
proof -
  let ?f = "\<lambda>s. mset (cache (get_tls_cache s p))"
  have "(\<Sum>s\<in>T. mset (cache (get_tls_cache s (set_tls_cache t c p)))) =
    (\<Sum>s\<in>T. (?f(t := mset (cache c))) s)"
    by (rule sum.cong) simp_all
  with sum_fun_upd_mset [OF assms, of ?f "mset (cache c)"] show ?thesis
    by (simp add: owned_def ac_simps del: get_tls_cache_set fun_upd_apply)
qed

lemma owned_free_queue:
  "owned contents T (p\<lparr>free_queue := q\<rparr>) + mset (contents (free_queue p)) =
     owned contents T p + mset (contents q)"
  by (simp add: owned_def ac_simps)

lemma steal_loop_Nil [simp]: "lfq_pop Q q = None \<Longrightarrow> steal_loop Q n batch q = Inr (batch, q)"
  by (cases n) simp_all

lemma batch_steal_Nil:
  "lfq_pop Q (free_queue p) = None \<Longrightarrow> batch_steal_from_central Q t p = Inr (None, p)"
  by (simp add: batch_steal_from_central_def)

lemma retry_pop_Nil [simp]: "lfq_pop Q q = None \<Longrightarrow> retry_pop Q n q = (None, q)"
  by (induction n) simp_all

context lockfree_queue
begin

lemma owned_pop:
  assumes "lfq_pop Q (free_queue p) = Some (x, q)"
  shows "add_mset x (owned contents T (p\<lparr>free_queue := q\<rparr>)) = owned contents T p"
proof -
  have "owned contents T (p\<lparr>free_queue := q\<rparr>) + {#x#} = owned contents T p"
    by (rule mset_balance [OF owned_free_queue]) (simp add: pop_Some [OF assms])
  then show ?thesis by simp
qed

text \<open>Sequentially, the call of \<open>batch_steal_from_central\<close> in \<open>acquire\<close> never finds anything.\<close>

lemma acquire_cached_eq:
  "acquire_cached Q t p =
     (let (r, c) = try_acquire (get_tls_cache t p); p1 = set_tls_cache t c p
      in Inr (case r of
                Some x \<Rightarrow> (Some x, p1)
              | None \<Rightarrow> (case lfq_pop Q (free_queue p) of
                           Some (x, q) \<Rightarrow> (Some x, p1\<lparr>free_queue := q\<rparr>)
                         | None \<Rightarrow> (None, p1))))"
  by (auto simp: acquire_cached_def batch_steal_Nil Let_def split: prod.split option.split)

lemma acquire_cached_owned:
  assumes T: "finite T" "t \<in> T" and acq: "acquire_cached Q t p = Inr (r, p')"
  shows "owned contents T p' + mset_option r = owned contents T p \<and> chunks p' = chunks p"
proof -
  obtain r1 c where r1: "try_acquire (get_tls_cache t p) = (r1, c)" by fastforce
  let ?p1 = "set_tls_cache t c p"
  have o1: "owned contents T ?p1 + mset_option r1 = owned contents T p"
    by (rule mset_balance [OF owned_set_tls_cache [OF T] try_acquire_mset [OF r1]])
  show ?thesis
  proof (cases r1)
    case (Some x)
    with acq r1 have "r = Some x" "p' = ?p1" by (simp_all add: acquire_cached_eq)
    with o1 Some show ?thesis by simp
  next
    case None
    show ?thesis
    proof (cases "lfq_pop Q (free_queue p)")
      case None
      with acq r1 \<open>r1 = None\<close> have "r = None" "p' = ?p1" by (simp_all add: acquire_cached_eq)
      with o1 \<open>r1 = None\<close> show ?thesis by simp
    next
      case (Some xq)
      then obtain x q where pop: "lfq_pop Q (free_queue ?p1) = Some (x, q)" by (cases xq) simp
      with acq r1 \<open>r1 = None\<close> have "r = Some x" "p' = ?p1\<lparr>free_queue := q\<rparr>"
        by (simp_all add: acquire_cached_eq)
      with o1 \<open>r1 = None\<close> owned_pop [OF pop, of T] show ?thesis by simp
    qed
  qed
qed

end

lemma push_slots_all:
  "list_all (\<lambda>i. i < chunk_count c) js \<Longrightarrow>
     push_slots Q sz c js q = push_all Q (map (\<lambda>i. chunk_memory c + sz * i) js) q"
  by (induction js arbitrary: q) (simp_all add: get_slot_def)

lemma allocate_chunk_cases:
  obtains (refused) "allocate_chunk Q sz new_mem n p = (False, p)"
  | (fresh) base where "\<not> allocating p" and "new_mem (chunk_bytes sz n) = Some base"
      and "allocate_chunk Q sz new_mem n p =
        (True, p\<lparr>free_queue := push_all Q (chunk_slots sz \<lparr>chunk_count = n, chunk_memory = base\<rparr>)
                    (free_queue p),
                 chunks := \<lparr>chunk_count = n, chunk_memory = base\<rparr> # chunks p,
                 total_allocated := size_t (total_allocated p + n)\<rparr>)"
proof (cases "allocating p \<or> new_mem (chunk_bytes sz n) = None")
  case True
  with refused show ?thesis by (auto simp: allocate_chunk_def)
next
  case False
  then obtain base where "\<not> allocating p" "new_mem (chunk_bytes sz n) = Some base" by auto
  moreover have "list_all (\<lambda>i. i < n) [0..<n]" by (simp add: list_all_iff)
  ultimately show ?thesis using fresh [of base]
    by (simp add: allocate_chunk_def push_slots_all chunk_slots_def Let_def)
qed

context reliable_queue
begin

lemma owned_push:
  "owned contents T (p\<lparr>free_queue := push_ignore Q x (free_queue p)\<rparr>) = add_mset x (owned contents T p)"
  by (simp add: owned_def)

lemma owned_push_all:
  "owned contents T (p\<lparr>free_queue := push_all Q xs (free_queue p)\<rparr>) = owned contents T p + mset xs"
  by (simp add: owned_def ac_simps)

lemma allocate_chunk_owned:
  assumes "allocate_chunk Q sz new_mem n p = (ok, p')"
  shows "owned contents T p' + mset (all_slots sz p) = owned contents T p + mset (all_slots sz p')"
  by (rule allocate_chunk_cases [of Q sz new_mem n p])
    (use assms in \<open>auto simp: owned_def all_slots_def ac_simps\<close>)

lemma retry_pop_owned:
  "retry_pop Q n (free_queue p) = (r, q) \<Longrightarrow>
     owned contents T (p\<lparr>free_queue := q\<rparr>) + mset_option r = owned contents T p"
proof (induction n)
  case (Suc n)
  then show ?case
    by (cases "lfq_pop Q (free_queue p)") (auto simp: owned_pop)
qed auto

lemma acquire_fresh_owned:
  assumes "acquire_fresh Q sz new_mem p = (r, p')"
  shows "owned contents T p' + mset_option r + mset (all_slots sz p) =
    owned contents T p + mset (all_slots sz p')"
proof -
  obtain ok p1 where p1: "allocate_chunk Q sz new_mem (chunk_size p) p = (ok, p1)" by fastforce
  have "owned contents T p' + mset_option r = owned contents T p1 \<and> all_slots sz p' = all_slots sz p1"
    using assms p1
    by (auto simp: acquire_fresh_def retry_pop_owned owned_pop split: if_splits option.splits prod.splits)
  with allocate_chunk_owned [OF p1] show ?thesis by metis
qed

lemma acquire_owned:
  assumes T: "finite T" "t \<in> T"
    and acq: "acquire Q sz new_mem ctor_ok t p = Inr (r, p')"
  shows "owned contents T p' + mset_option r + mset (all_slots sz p) =
    owned contents T p + mset (all_slots sz p')"
proof -
  obtain r1 p1 where p1: "acquire_cached Q t p = Inr (r1, p1)"
    using acq by (auto simp: acquire_def bind_outcome_eq_Inr)
  from acquire_cached_owned [OF T p1]
  have o1: "owned contents T p1 + mset_option r1 = owned contents T p"
    and s1: "all_slots sz p1 = all_slots sz p" by (simp_all add: all_slots_def)
  obtain r2 p2 where p2:
    "(case r1 of None \<Rightarrow> acquire_fresh Q sz new_mem p1 | Some x \<Rightarrow> (Some x, p1)) = (r2, p2)" by fastforce
  have o2: "owned contents T p2 + mset_option r2 + mset (all_slots sz p) =
      owned contents T p + mset (all_slots sz p2)"
    using o1 s1 p2 acquire_fresh_owned [of sz new_mem p1 r2 p2 T]
    by (cases r1) (auto simp: ac_simps)
  have "owned contents T p' + mset_option r = owned contents T p2 + mset_option r2
      \<and> all_slots sz p' = all_slots sz p2"
    using acq p1 p2 by (auto simp: acquire_def owned_push split: option.splits if_splits)
  with o2 show ?thesis by metis
qed

lemma batch_return_owned:
  assumes "finite T" "t \<in> T"
  shows "owned contents T (batch_return_to_central Q t p) = owned contents T p"
proof -
  obtain batch c where b: "extract_batch DEFAULT_BATCH_SIZE (get_tls_cache t p) = (batch, c)" by fastforce
  have "owned contents T (set_tls_cache t c p) + mset batch = owned contents T p"
    by (rule mset_balance [OF owned_set_tls_cache [OF assms]])
      (use extract_batch_mset [OF b] in \<open>simp add: ac_simps\<close>)
  with b show ?thesis
    using owned_push_all [of T batch "set_tls_cache t c p"]
    by (simp add: batch_return_to_central_def)
qed

lemma release_owned:
  assumes T: "finite T" "t \<in> T"
  shows "owned contents T (release Q t (Some x) p) = add_mset x (owned contents T p)"
proof -
  obtain ok c where c: "try_release x (get_tls_cache t p) = (ok, c)" by fastforce
  let ?p1 = "set_tls_cache t c p"
  let ?p2 = "if ok then ?p1 else ?p1\<lparr>free_queue := push_ignore Q x (free_queue ?p1)\<rparr>"
  have "owned contents T ?p1 + mset (cache (get_tls_cache t p)) = owned contents T p + mset (cache c)"
    by (rule owned_set_tls_cache [OF T])
  then have "owned contents T ?p2 = add_mset x (owned contents T p)"
    using try_release_mset [OF c] owned_push [of T x "?p1"] by auto
  with c batch_return_owned [OF T, of ?p2] show ?thesis
    by (simp add: release_def Let_def)
qed

end

lemma batch_return_chunks [simp]:
  "chunks (batch_return_to_central Q t p) = chunks p"
  by (simp add: batch_return_to_central_def Let_def split: prod.split)

lemma release_chunks [simp]: "chunks (release Q t obj p) = chunks p"
  by (auto simp: release_def Let_def split: option.split prod.split)

lemma release_all_slots [simp]: "all_slots sz (release Q t obj p) = all_slots sz p"
  by (simp add: all_slots_def)

section \<open>Clients of a pool\<close>

text \<open>
  A client holds the objects it acquired and releases only those. \<open>pool_client\<close> are the states
  such a client can bring a provider into, with what it holds; \<open>slot_provider\<close> is the contract,
  stated over the two step relations of any provider: an object handed out leaves the provider,
  one given back returns to it, and new objects are really new.
\<close>

inductive pool_client ::
    "('s \<Rightarrow> bool) \<Rightarrow> ('s \<Rightarrow> nat option \<Rightarrow> 's \<Rightarrow> bool) \<Rightarrow> ('s \<Rightarrow> nat \<Rightarrow> 's \<Rightarrow> bool)
       \<Rightarrow> 's \<Rightarrow> nat multiset \<Rightarrow> bool"
  for init acq rel where
  start: "init s \<Longrightarrow> pool_client init acq rel s {#}"
| got: "pool_client init acq rel s live \<Longrightarrow> acq s r s' \<Longrightarrow>
     pool_client init acq rel s' (live + mset_option r)"
| put: "pool_client init acq rel s live \<Longrightarrow> x \<in># live \<Longrightarrow> rel s x s' \<Longrightarrow>
     pool_client init acq rel s' (live - {#x#})"

locale slot_provider =
  fixes init :: "'s \<Rightarrow> bool"
    and acq :: "'s \<Rightarrow> nat option \<Rightarrow> 's \<Rightarrow> bool"
    and rel :: "'s \<Rightarrow> nat \<Rightarrow> 's \<Rightarrow> bool"
    and held :: "'s \<Rightarrow> nat multiset"
    and total :: "'s \<Rightarrow> nat list"
    and wf :: "'s \<Rightarrow> bool"
  assumes init_held: "init s \<Longrightarrow> held s = mset (total s)"
    and init_wf: "init s \<Longrightarrow> wf s"
    and acq_held: "acq s r s' \<Longrightarrow>
      held s' + mset_option r + mset (total s) = held s + mset (total s')"
    and acq_wf: "wf s \<Longrightarrow> acq s r s' \<Longrightarrow> wf s'"
    and rel_held: "rel s x s' \<Longrightarrow> held s' = add_mset x (held s)"
    and rel_total: "rel s x s' \<Longrightarrow> total s' = total s"
    and rel_wf: "wf s \<Longrightarrow> rel s x s' \<Longrightarrow> wf s'"
    and wf_distinct: "wf s \<Longrightarrow> distinct (total s)"
begin

lemma client_balance: "pool_client init acq rel s live \<Longrightarrow> held s + live = mset (total s) \<and> wf s"
proof (induction rule: pool_client.induct)
  case (start s)
  then show ?case by (simp add: init_held init_wf)
next
  case (got s live r s')
  then have "mset (total s') + held s = held s + (held s' + mset_option r + live)"
    using acq_held [of s r s'] by (metis add.assoc add.commute)
  then have "held s' + mset_option r + live = mset (total s')" by (metis add.commute add_left_cancel)
  with got show ?case by (auto simp: ac_simps intro: acq_wf)
next
  case (put s live x s')
  then obtain others where "live = add_mset x others" by (metis insert_DiffM)
  with put show ?case by (auto simp: rel_held rel_total intro: rel_wf)
qed

lemma client_exclusive:
  assumes "pool_client init acq rel s live"
  shows "count live x \<le> 1" and "set_mset live \<inter> set_mset (held s) = {}"
    and "set_mset live \<subseteq> set (total s)"
proof -
  from client_balance [OF assms] have b: "live + held s = mset (total s)" and d: "distinct (total s)"
    by (simp_all add: add.commute wf_distinct)
  from distinct_mset_part [OF d b]
  show "count live x \<le> 1" and "set_mset live \<inter> set_mset (held s) = {}" by simp_all
  from b have "set_mset live \<union> set_mset (held s) = set (total s)"
    by (metis set_mset_mset set_mset_union)
  then show "set_mset live \<subseteq> set (total s)" by blast
qed

end

section \<open>Chunks do not overlap\<close>

definition chunk_region :: "nat \<Rightarrow> memory_chunk \<Rightarrow> nat set" where
  "chunk_region sz c = {chunk_memory c..<chunk_memory c + sz * chunk_count c}"

text \<open>
  What \<open>operator new\<close> promises: the block it returns overlaps no block still allocated. The chunk
  size in bytes must not wrap around, or the block is smaller than the slots the pool carves.
\<close>

definition fresh_memory ::
    "nat \<Rightarrow> (nat \<Rightarrow> nat option) \<Rightarrow> nat \<Rightarrow> memory_chunk list \<Rightarrow> bool" where
  "fresh_memory sz new_mem n cs \<longleftrightarrow>
     sz * n < 2 ^ 64 \<and>
     (\<forall>base. new_mem (chunk_bytes sz n) = Some base \<longrightarrow>
        list_all (\<lambda>c. {base..<base + sz * n} \<inter> chunk_region sz c = {}) cs)"

definition chunks_apart :: "nat \<Rightarrow> 'q object_pool \<Rightarrow> bool" where
  "chunks_apart sz p \<longleftrightarrow>
     sorted_wrt (\<lambda>c d. chunk_region sz c \<inter> chunk_region sz d = {}) (chunks p)"

lemma chunk_slots_region: "0 < sz \<Longrightarrow> set (chunk_slots sz c) \<subseteq> chunk_region sz c"
  by (auto simp: chunk_slots_def chunk_region_def)

lemma chunk_slots_distinct: "0 < sz \<Longrightarrow> distinct (chunk_slots sz c)"
  by (auto simp: chunk_slots_def distinct_map inj_on_def)

lemma slots_distinct:
  assumes "0 < sz"
  shows "sorted_wrt (\<lambda>c d. chunk_region sz c \<inter> chunk_region sz d = {}) cs \<Longrightarrow>
    distinct (concat (map (chunk_slots sz) cs))"
proof (induction cs)
  case (Cons c cs)
  have "chunk_region sz c \<inter> chunk_region sz d = {}" if "d \<in> set cs" for d
    using Cons.prems that by simp
  then have "set (chunk_slots sz c) \<inter> (\<Union>d\<in>set cs. set (chunk_slots sz d)) = {}"
    using chunk_slots_region [OF assms] by blast
  with Cons show ?case by (simp add: chunk_slots_distinct [OF assms])
qed simp

lemma allocate_chunk_apart:
  assumes "chunks_apart sz p" and "fresh_memory sz new_mem n (chunks p)"
    and "allocate_chunk Q sz new_mem n p = (ok, p')"
  shows "chunks_apart sz p'"
  using assms
  by (auto simp: allocate_chunk_def chunks_apart_def fresh_memory_def chunk_region_def list_all_iff Let_def
      split: if_splits option.splits)

lemma acquire_cached_chunks:
  "acquire_cached Q t p = Inr (r, p') \<Longrightarrow> chunks p' = chunks p \<and> chunk_size p' = chunk_size p"
  by (auto simp: acquire_cached_def batch_steal_from_central_def bind_outcome_eq_Inr Let_def
      split: prod.splits option.splits list.splits if_splits)

lemma acquire_apart:
  assumes apart: "chunks_apart sz p" and fresh: "fresh_memory sz new_mem (chunk_size p) (chunks p)"
    and acq: "acquire Q sz new_mem ctor_ok t p = Inr (r, p')"
  shows "chunks_apart sz p'"
proof -
  obtain r1 p1 where p1: "acquire_cached Q t p = Inr (r1, p1)"
    using acq by (auto simp: acquire_def bind_outcome_eq_Inr)
  note c1 = acquire_cached_chunks [OF p1]
  obtain ok p2 where p2: "allocate_chunk Q sz new_mem (chunk_size p1) p1 = (ok, p2)" by fastforce
  have "chunks_apart sz p2"
    by (rule allocate_chunk_apart [OF _ _ p2]) (use apart fresh c1 in \<open>simp_all add: chunks_apart_def\<close>)
  moreover have "chunks p' = chunks p1 \<or> chunks p' = chunks p2"
    using acq p1 p2
    by (auto simp: acquire_def acquire_fresh_def Let_def split: option.splits if_splits prod.splits)
  ultimately show ?thesis using c1 apart by (auto simp: chunks_apart_def)
qed

section \<open>The pool meets the contract\<close>

definition pool_init :: "'q lfq_ops \<Rightarrow> nat \<Rightarrow> 'q object_pool \<Rightarrow> bool" where
  "pool_init Q sz p \<longleftrightarrow>
     (\<exists>new_mem cfg. fresh_memory sz new_mem (cfg_initial_count cfg) [] \<and>
        p = object_pool_new Q sz new_mem cfg)"

definition pool_acq ::
    "'q lfq_ops \<Rightarrow> nat \<Rightarrow> nat set \<Rightarrow> 'q object_pool \<Rightarrow> nat option \<Rightarrow> 'q object_pool \<Rightarrow> bool" where
  "pool_acq Q sz T p r p' \<longleftrightarrow>
     (\<exists>t new_mem ctor_ok. t \<in> T \<and> fresh_memory sz new_mem (chunk_size p) (chunks p) \<and>
        acquire Q sz new_mem ctor_ok t p = Inr (r, p'))"

definition pool_rel ::
    "'q lfq_ops \<Rightarrow> nat set \<Rightarrow> 'q object_pool \<Rightarrow> nat \<Rightarrow> 'q object_pool \<Rightarrow> bool" where
  "pool_rel Q T p x p' \<longleftrightarrow> (\<exists>t\<in>T. p' = release Q t (Some x) p)"

locale pool_setting = reliable_queue Q contents
  for Q :: "'q lfq_ops" and contents :: "'q \<Rightarrow> nat list" +
  fixes sz :: nat and T :: "nat set"
  assumes size_pos: "0 < sz" and threads_finite: "finite T"
begin

lemma pool_init_owned: "pool_init Q sz p \<Longrightarrow> owned contents T p = mset (all_slots sz p)"
proof -
  assume "pool_init Q sz p"
  then obtain new_mem cfg where p: "p = object_pool_new Q sz new_mem cfg" by (auto simp: pool_init_def)
  let ?p0 = "\<lparr>chunk_size = cfg_chunk_size cfg, tls_cache_size = cfg_tls_cache_size cfg,
    batch_size = cfg_batch_size cfg, free_queue = lfq_new Q (size_t (cfg_initial_count cfg + 128)),
    chunks = [], total_allocated = 0, allocating = False, tls = (\<lambda>_. None)\<rparr>"
  obtain ok where "allocate_chunk Q sz new_mem (cfg_initial_count cfg) ?p0 = (ok, p)"
    using p by (metis object_pool_new_def prod.collapse)
  from allocate_chunk_owned [OF this, of T] show ?thesis
    by (simp add: owned_def all_slots_def new_contents get_tls_cache_def tl_cache_new_def)
qed

lemma pool_init_apart: "pool_init Q sz p \<Longrightarrow> chunks_apart sz p"
  by (auto simp: pool_init_def object_pool_new_def intro!: allocate_chunk_apart [OF _ _ surjective_pairing])
    (simp add: chunks_apart_def)

sublocale slot_provider "pool_init Q sz" "pool_acq Q sz T" "pool_rel Q T"
  "owned contents T" "all_slots sz" "chunks_apart sz"
proof unfold_locales
  fix p p' r x
  show "pool_init Q sz p \<Longrightarrow> owned contents T p = mset (all_slots sz p)" by (rule pool_init_owned)
  show "pool_init Q sz p \<Longrightarrow> chunks_apart sz p" by (rule pool_init_apart)
  show "pool_acq Q sz T p r p' \<Longrightarrow> owned contents T p' + mset_option r + mset (all_slots sz p) =
      owned contents T p + mset (all_slots sz p')"
    using acquire_owned [OF threads_finite] by (auto simp: pool_acq_def)
  show "chunks_apart sz p \<Longrightarrow> pool_acq Q sz T p r p' \<Longrightarrow> chunks_apart sz p'"
    by (auto simp: pool_acq_def intro: acquire_apart)
  show "pool_rel Q T p x p' \<Longrightarrow> owned contents T p' = add_mset x (owned contents T p)"
    using release_owned [OF threads_finite] by (auto simp: pool_rel_def)
  show "pool_rel Q T p x p' \<Longrightarrow> all_slots sz p' = all_slots sz p"
    by (auto simp: pool_rel_def)
  show "chunks_apart sz p \<Longrightarrow> pool_rel Q T p x p' \<Longrightarrow> chunks_apart sz p'"
    by (auto simp: pool_rel_def chunks_apart_def)
  show "chunks_apart sz p \<Longrightarrow> distinct (all_slots sz p)"
    using slots_distinct [OF size_pos] by (auto simp: chunks_apart_def all_slots_def)
qed

lemma pool_client_exclusive:
  assumes "pool_client (pool_init Q sz) (pool_acq Q sz T) (pool_rel Q T) p live"
  shows "owned contents T p + live = mset (all_slots sz p) \<and> count live x \<le> 1 \<and>
    set_mset live \<inter> set_mset (owned contents T p) = {}"
  using client_balance [OF assms] client_exclusive [OF assms] by blast

end

text \<open>A pool with two threads and 64-byte objects over the list queue.\<close>

interpretation two_threads: pool_setting list_queue "\<lambda>q. q" 64 "{0, 1}"
  by unfold_locales auto

section \<open>When an acquire succeeds\<close>

context lockfree_queue
begin

lemma acquire_cached_None_iff:
  "(\<exists>p'. acquire_cached Q t p = Inr (None, p')) \<longleftrightarrow>
     cache (get_tls_cache t p) = [] \<and> contents (free_queue p) = []"
  by (auto simp: acquire_cached_eq try_acquire_def Let_def pop_None dest: pop_Some split: option.splits)

lemma acquire_cached_returns: "\<exists>r p'. acquire_cached Q t p = Inr (r, p')"
  by (auto simp: acquire_cached_eq Let_def split: prod.split)

lemma acquire_cached_None:
  assumes "acquire_cached Q t p = Inr (None, p')"
  shows "free_queue p' = free_queue p" and "contents (free_queue p) = []"
    and "chunk_size p' = chunk_size p" and "allocating p' = allocating p"
  using assms by (auto simp: acquire_cached_eq Let_def pop_None split: prod.splits option.splits)

lemma acquire_never_faults: "\<exists>r p'. acquire Q sz new_mem ctor_ok t p = Inr (r, p')"
proof -
  obtain r1 p1 where "acquire_cached Q t p = Inr (r1, p1)" using acquire_cached_returns by blast
  then show ?thesis by (auto simp: acquire_def Let_def split: prod.split)
qed

end

context reliable_queue
begin

lemma acquire_fresh_None_iff:
  assumes "contents (free_queue p) = []"
  shows "fst (acquire_fresh Q sz new_mem p) = None \<longleftrightarrow>
    allocating p \<or> new_mem (chunk_bytes sz (chunk_size p)) = None \<or> chunk_size p = 0"
proof -
  have e: "lfq_pop Q (free_queue p) = None" using assms by (simp add: pop_None_iff)
  show ?thesis
  proof (rule allocate_chunk_cases [of Q sz new_mem "chunk_size p" p])
    assume r: "allocate_chunk Q sz new_mem (chunk_size p) p = (False, p)"
    then have "allocating p \<or> new_mem (chunk_bytes sz (chunk_size p)) = None"
      by (auto simp: allocate_chunk_def Let_def split: option.splits if_splits)
    with r e show ?thesis by (auto simp: acquire_fresh_def)
  next
    fix base
    assume a: "\<not> allocating p" "new_mem (chunk_bytes sz (chunk_size p)) = Some base"
      and r: "allocate_chunk Q sz new_mem (chunk_size p) p =
        (True, p\<lparr>free_queue := push_all Q (chunk_slots sz \<lparr>chunk_count = chunk_size p, chunk_memory = base\<rparr>)
                    (free_queue p),
                 chunks := \<lparr>chunk_count = chunk_size p, chunk_memory = base\<rparr> # chunks p,
                 total_allocated := size_t (total_allocated p + chunk_size p)\<rparr>)"
    let ?q = "push_all Q (chunk_slots sz \<lparr>chunk_count = chunk_size p, chunk_memory = base\<rparr>) (free_queue p)"
    have "lfq_pop Q ?q = None \<longleftrightarrow> chunk_size p = 0"
      using assms by (simp add: pop_None_iff chunk_slots_def)
    with a r show ?thesis by (auto simp: acquire_fresh_def split: option.splits)
  qed
qed

lemma acquire_None_iff:
  "(\<exists>p'. acquire Q sz new_mem True t p = Inr (None, p')) \<longleftrightarrow>
     cache (get_tls_cache t p) = [] \<and> contents (free_queue p) = [] \<and>
     (allocating p \<or> new_mem (chunk_bytes sz (chunk_size p)) = None \<or> chunk_size p = 0)"
proof -
  obtain r1 p1 where p1: "acquire_cached Q t p = Inr (r1, p1)"
    using acquire_cached_returns by blast
  show ?thesis
  proof (cases r1)
    case None
    note keep = acquire_cached_None [OF p1 [unfolded None]]
    from p1 None have "cache (get_tls_cache t p) = []" using acquire_cached_None_iff by blast
    with p1 None keep acquire_fresh_None_iff [of p1 sz new_mem] show ?thesis
      by (auto simp: acquire_def split: option.splits prod.splits)
  next
    case (Some x)
    with p1 have "\<not> (\<exists>p'. acquire_cached Q t p = Inr (None, p'))" by simp
    then show ?thesis using p1 Some acquire_cached_None_iff [of t p]
      by (auto simp: acquire_def)
  qed
qed

end

section \<open>Bounds of the thread-local caches\<close>

definition cache_bound :: "nat \<Rightarrow> nat" where
  "cache_bound m = size_t (m * 3) div 4"

definition caches_bounded :: "'q object_pool \<Rightarrow> bool" where
  "caches_bounded p \<longleftrightarrow>
     0 < batch_size p \<and>
     (\<forall>t. max_cache_size (get_tls_cache t p) = tls_cache_size p \<and>
          tl_batch_size (get_tls_cache t p) = batch_size p \<and>
          length (cache (get_tls_cache t p)) \<le> cache_bound (tls_cache_size p))"

lemma should_batch_return_iff:
  "should_batch_return c \<longleftrightarrow> cache_bound (max_cache_size c) < length (cache c)"
  by (simp add: should_batch_return_def cache_bound_def)

lemma cache_bound_le: "cache_bound m \<le> m"
  unfolding cache_bound_def using size_t_le [of "m * 3"] by linarith

lemma extract_batch_cache:
  "snd (extract_batch b c) =
     c\<lparr>cache := take (length (cache c) - min (min (tl_batch_size c) b) (length (cache c))) (cache c)\<rparr>"
  unfolding extract_batch_def by (rule extract_loop_cache) simp

lemma caches_boundedD:
  assumes "caches_bounded p"
  shows "max_cache_size (get_tls_cache t p) = tls_cache_size p"
    and "tl_batch_size (get_tls_cache t p) = batch_size p"
    and "length (cache (get_tls_cache t p)) \<le> cache_bound (tls_cache_size p)"
  using assms by (auto simp: caches_bounded_def)

lemma caches_bounded_frame [simp]:
  "caches_bounded (p\<lparr>free_queue := q\<rparr>) = caches_bounded p"
  by (simp add: caches_bounded_def)

lemma caches_bounded_set:
  assumes "caches_bounded p" and "max_cache_size c = tls_cache_size p"
    and "tl_batch_size c = batch_size p" and "length (cache c) \<le> cache_bound (tls_cache_size p)"
  shows "caches_bounded (set_tls_cache t c p)"
  using assms by (simp add: caches_bounded_def)

context lockfree_queue
begin

lemma acquire_cached_bounded:
  assumes b: "caches_bounded p" and acq: "acquire_cached Q t p = Inr (r, p')"
  shows "caches_bounded p'"
proof -
  obtain r1 c where c: "try_acquire (get_tls_cache t p) = (r1, c)" by fastforce
  have "caches_bounded (set_tls_cache t c p)"
    using c caches_boundedD [OF b, of t]
    by (intro caches_bounded_set [OF b]) (auto simp: try_acquire_def split: if_splits)
  with acq c show ?thesis by (auto simp: acquire_cached_eq Let_def split: option.splits prod.splits)
qed

lemma acquire_bounded:
  assumes b: "caches_bounded p" and acq: "acquire Q sz new_mem ctor_ok t p = Inr (r, p')"
  shows "caches_bounded p'"
proof -
  obtain r1 p1 where p1: "acquire_cached Q t p = Inr (r1, p1)"
    using acq by (auto simp: acquire_def bind_outcome_eq_Inr)
  from acquire_cached_bounded [OF b p1] have b1: "caches_bounded p1" .
  have "caches_bounded (snd (acquire_fresh Q sz new_mem p1))"
    using b1 by (auto simp: acquire_fresh_def allocate_chunk_def Let_def caches_bounded_def
        split: prod.split option.split)
  with acq p1 b1 show ?thesis
    by (auto simp: acquire_def split: option.splits if_splits prod.splits)
qed

end

lemma batch_return_bounded:
  assumes cfg: "0 < batch_size p"
    and c: "max_cache_size (get_tls_cache t p) = tls_cache_size p"
      "tl_batch_size (get_tls_cache t p) = batch_size p"
      "length (cache (get_tls_cache t p)) \<le> Suc (cache_bound (tls_cache_size p))"
    and others: "caches_bounded (set_tls_cache t (tl_cache_new (tls_cache_size p) (batch_size p)) p)"
  shows "caches_bounded (batch_return_to_central Q t p)"
proof -
  obtain batch d where d: "extract_batch DEFAULT_BATCH_SIZE (get_tls_cache t p) = (batch, d)" by fastforce
  have "d = snd (extract_batch DEFAULT_BATCH_SIZE (get_tls_cache t p))" using d by simp
  then have "max_cache_size d = tls_cache_size p" "tl_batch_size d = batch_size p"
    "length (cache d) \<le> cache_bound (tls_cache_size p)"
    using c cfg by (auto simp: extract_batch_cache DEFAULT_BATCH_SIZE_def min_def)
  with others d show ?thesis
    by (auto simp: batch_return_to_central_def caches_bounded_def split: if_splits)
qed

lemma release_bounded:
  assumes b: "caches_bounded p"
  shows "caches_bounded (release Q t obj p)"
proof (cases obj)
  case None
  with b show ?thesis by (simp add: release_def)
next
  case (Some x)
  note bd = caches_boundedD [OF b, of t]
  obtain ok c where c: "try_release x (get_tls_cache t p) = (ok, c)" by fastforce
  have c': "max_cache_size c = tls_cache_size p" "tl_batch_size c = batch_size p"
    "length (cache c) \<le> Suc (cache_bound (tls_cache_size p))"
    using c bd by (auto simp: try_release_def split: if_splits)
  let ?p1 = "set_tls_cache t c p"
  let ?p2 = "if ok then ?p1 else ?p1\<lparr>free_queue := push_ignore Q x (free_queue ?p1)\<rparr>"
  have g: "get_tls_cache t ?p2 = c" "batch_size ?p2 = batch_size p" "tls_cache_size ?p2 = tls_cache_size p"
    by simp_all
  show ?thesis
  proof (cases "should_batch_return c")
    case True
    have "caches_bounded (batch_return_to_central Q t ?p2)"
      by (rule batch_return_bounded)
        (use b bd c' g in \<open>auto simp: caches_bounded_def tl_cache_new_def\<close>)
    with True Some c g show ?thesis by (simp add: release_def Let_def)
  next
    case False
    then have "length (cache c) \<le> cache_bound (tls_cache_size p)"
      using c' by (simp add: should_batch_return_iff)
    with c' b have "caches_bounded ?p1" by (intro caches_bounded_set)
    with False Some c g show ?thesis by (simp add: release_def Let_def)
  qed
qed

lemma pool_new_bounded:
  "0 < cfg_batch_size cfg \<Longrightarrow> caches_bounded (object_pool_new Q sz new_mem cfg)"
  by (auto simp: object_pool_new_def allocate_chunk_def caches_bounded_def get_tls_cache_def
      tl_cache_new_def Let_def split: option.split)

context lockfree_queue
begin

lemma acquire_cached_cache:
  "acquire_cached Q t p = Inr (r, p') \<Longrightarrow>
     cache (get_tls_cache t p') = butlast (cache (get_tls_cache t p))"
  by (auto simp: acquire_cached_eq try_acquire_def Let_def split: option.splits if_splits)

lemma steal_loop_overflow:
  "DEFAULT_BATCH_SIZE < length batch + n \<Longrightarrow> length batch \<le> DEFAULT_BATCH_SIZE \<Longrightarrow>
     DEFAULT_BATCH_SIZE < length batch + length (contents q) \<Longrightarrow>
     steal_loop Q n batch q = Inl Out_Of_Bounds"
proof (induction n arbitrary: batch q)
  case (Suc n)
  then obtain x xs where "contents q = x # xs" by (cases "contents q") auto
  then obtain q' where "lfq_pop Q q = Some (x, q')" "contents q' = xs" by (rule pop_nonempty)
  with Suc \<open>contents q = x # xs\<close> show ?case by simp
qed simp

end

lemma acquire_fresh_tls [simp]:
  "get_tls_cache t (snd (acquire_fresh Q sz new_mem p)) = get_tls_cache t p"
  by (auto simp: acquire_fresh_def allocate_chunk_def Let_def split: prod.split option.split)

section \<open>Properties of the pool\<close>

text \<open>
  A concrete pool for the witnesses: two slots of 64 bytes at address 4096, caches of four,
  batches of two.
\<close>

definition small_config :: pool_config where
  "small_config = \<lparr>cfg_initial_count = 2, cfg_chunk_size = 2, cfg_tls_cache_size = 4, cfg_batch_size = 2\<rparr>"

definition small_pool :: "nat list object_pool" where
  "small_pool = object_pool_new list_queue 64 (\<lambda>_. Some 4096) small_config"

definition small_pool_after :: "nat list object_pool" where
  "small_pool_after = set_tls_cache 0 (tl_cache_new 4 2) (small_pool\<lparr>free_queue := [4160]\<rparr>)"

lemma small_pool_eq:
  "small_pool = \<lparr>chunk_size = 2, tls_cache_size = 4, batch_size = 2, free_queue = [4096, 4160],
     chunks = [\<lparr>chunk_count = 2, chunk_memory = 4096\<rparr>], total_allocated = 2,
     allocating = False, tls = (\<lambda>_. None)\<rparr>"
  by (simp add: small_pool_def small_config_def object_pool_new_def allocate_chunk_def
      chunk_bytes_def get_slot_def upt_rec size_t_def)

lemma small_pool_acquire:
  "acquire list_queue 64 (\<lambda>_. None) True 0 small_pool = Inr (Some 4096, small_pool_after)"
  by (simp add: small_pool_after_def small_pool_eq acquire_def acquire_cached_def try_acquire_def
      get_tls_cache_def set_tls_cache_def tl_cache_new_def)

lemma small_pool_client:
  "pool_client (pool_init list_queue 64) (pool_acq list_queue 64 {0, 1}) (pool_rel list_queue {0, 1})
     small_pool_after {#4096#}"
proof -
  have "pool_init list_queue 64 small_pool"
    unfolding pool_init_def small_pool_def
    by (rule exI [of _ "\<lambda>_. Some 4096"], rule exI [of _ small_config])
      (simp add: fresh_memory_def small_config_def)
  then have "pool_client (pool_init list_queue 64) (pool_acq list_queue 64 {0, 1})
      (pool_rel list_queue {0, 1}) small_pool {#}" by (rule pool_client.start)
  moreover have "pool_acq list_queue 64 {0, 1} small_pool (Some 4096) small_pool_after"
    unfolding pool_acq_def
    by (rule exI [of _ 0], rule exI [of _ "\<lambda>_. None"], rule exI [of _ True])
      (intro conjI small_pool_acquire, simp_all add: fresh_memory_def small_pool_eq)
  ultimately show ?thesis using pool_client.got by fastforce
qed



text \<open>
  Acquiring fails, with the constructor not throwing, exactly when the calling thread's cache
  and the central queue are empty and no chunk can be had: another thread is allocating, the
  allocator refuses or chunks have size 0. Objects in the caches of other threads do not help.
\<close>

theorem acquire_fails_iff:
  assumes "reliable_queue Q contents"
  shows "(\<exists>p'. acquire Q sz new_mem True t p = Inr (None, p')) \<longleftrightarrow>
    cache (get_tls_cache t p) = [] \<and> contents (free_queue p) = [] \<and>
    (allocating p \<or> new_mem (chunk_bytes sz (chunk_size p)) = None \<or> chunk_size p = 0)"
  using assms by (rule reliable_queue.acquire_None_iff)

theorem acquire_fails_iff_witness:
  "(\<exists>p'. acquire list_queue 64 (\<lambda>_. None) True 0 (small_pool\<lparr>free_queue := []\<rparr>) = Inr (None, p'))"
  unfolding acquire_fails_iff [OF lq.reliable_queue_axioms]
  by (simp add: small_pool_eq get_tls_cache_def tl_cache_new_def)

text \<open>
  Sequentially, \<open>acquire\<close> never runs into the unchecked array of \<open>batch_steal_from_central\<close>,
  whatever the configured batch size, because the steal is only tried after a pop has found the
  central queue empty; for the same reason it never moves a batch into the thread's cache: the
  cache only loses the object that is returned from it.
\<close>

theorem acquire_never_steals:
  assumes "lockfree_queue Q contents"
  shows "\<exists>r p'. acquire Q sz new_mem ctor_ok t p = Inr (r, p') \<and>
    cache (get_tls_cache t p') = butlast (cache (get_tls_cache t p))"
proof -
  obtain r1 p1 where p1: "acquire_cached Q t p = Inr (r1, p1)"
    using lockfree_queue.acquire_cached_returns [OF assms] by blast
  then have "cache (get_tls_cache t p1) = butlast (cache (get_tls_cache t p))"
    by (rule lockfree_queue.acquire_cached_cache [OF assms])
  moreover obtain r2 p2 where p2: "acquire_fresh Q sz new_mem p1 = (r2, p2)" by fastforce
  moreover have "get_tls_cache t p2 = get_tls_cache t p1"
    using acquire_fresh_tls [of t Q sz new_mem p1] unfolding p2 by simp
  ultimately show ?thesis using p1
    by (auto simp: acquire_def split: prod.split option.split)
qed

theorem acquire_never_steals_witness:
  "\<exists>r p'. acquire list_queue 64 (\<lambda>_. None) True 0 (small_pool\<lparr>batch_size := 100\<rparr>) = Inr (r, p') \<and>
     cache (get_tls_cache 0 p') = butlast (cache (get_tls_cache 0 (small_pool\<lparr>batch_size := 100\<rparr>)))"
  by (rule acquire_never_steals [OF lq.lockfree_queue_axioms])

text \<open>
  \<open>batch_steal_from_central\<close> trusts the configured \<open>batch_size_\<close>: with more than
  \<open>DEFAULT_BATCH_SIZE\<close> free objects and a larger batch size it writes past the end of its array.
\<close>

theorem batch_steal_overflows:
  assumes "lockfree_queue Q contents" and "DEFAULT_BATCH_SIZE < batch_size p"
    and "DEFAULT_BATCH_SIZE < length (contents (free_queue p))"
  shows "batch_steal_from_central Q t p = Inl Out_Of_Bounds"
proof -
  have "steal_loop Q (batch_size p) [] (free_queue p) = Inl Out_Of_Bounds"
    using assms(2,3) by (intro lockfree_queue.steal_loop_overflow [OF assms(1)]) simp_all
  then show ?thesis by (simp add: batch_steal_from_central_def)
qed

theorem batch_steal_overflows_witness:
  "batch_steal_from_central list_queue 0 (small_pool\<lparr>batch_size := 17, free_queue := [0..<17]\<rparr>) =
     Inl Out_Of_Bounds"
  by (rule batch_steal_overflows [OF lq.lockfree_queue_axioms]) (simp_all add: DEFAULT_BATCH_SIZE_def)

text \<open>Every state a pool of a configuration can get into, whoever calls what.\<close>

inductive pool_run :: "'q lfq_ops \<Rightarrow> nat \<Rightarrow> pool_config \<Rightarrow> 'q object_pool \<Rightarrow> bool"
  for Q sz cfg where
  pool_new: "pool_run Q sz cfg (object_pool_new Q sz new_mem cfg)"
| pool_acquire: "pool_run Q sz cfg p \<Longrightarrow> acquire Q sz new_mem ctor_ok t p = Inr (r, p') \<Longrightarrow>
     pool_run Q sz cfg p'"
| pool_release: "pool_run Q sz cfg p \<Longrightarrow> pool_run Q sz cfg (release Q t obj p)"

lemma acquire_stages:
  assumes "acquire Q sz new_mem ctor_ok t p = Inr (r, p')"
  obtains r1 p1 r2 p2 where "acquire_cached Q t p = Inr (r1, p1)"
    and "r1 = None \<Longrightarrow> acquire_fresh Q sz new_mem p1 = (r2, p2)"
    and "r1 \<noteq> None \<Longrightarrow> p2 = p1"
    and "p' = p2 \<or> (\<exists>x. p' = p2\<lparr>free_queue := push_ignore Q x (free_queue p2)\<rparr>)"
proof -
  from assms obtain r1 p1 where c: "acquire_cached Q t p = Inr (r1, p1)"
    by (auto simp: acquire_def bind_outcome_eq_Inr)
  obtain r2 p2 where f: "(case r1 of None \<Rightarrow> acquire_fresh Q sz new_mem p1 | Some x \<Rightarrow> (Some x, p1)) = (r2, p2)"
    by fastforce
  have "p' = p2 \<or> (\<exists>x. p' = p2\<lparr>free_queue := push_ignore Q x (free_queue p2)\<rparr>)"
    using assms c f by (auto simp: acquire_def split: option.splits if_splits)
  with c f that show thesis by (cases r1) auto
qed

lemma tls_cache_size_cached:
  "acquire_cached Q t p = Inr (r, p') \<Longrightarrow> tls_cache_size p' = tls_cache_size p"
  by (auto simp: acquire_cached_def batch_steal_from_central_def bind_outcome_eq_Inr Let_def
      split: prod.splits option.splits list.splits if_splits)

lemma tls_cache_size_fresh:
  "acquire_fresh Q sz new_mem p = (r, p') \<Longrightarrow> tls_cache_size p' = tls_cache_size p"
  by (auto simp: acquire_fresh_def allocate_chunk_def Let_def
      split: prod.splits option.splits if_splits)

lemma tls_cache_size_acquire:
  assumes "acquire Q sz new_mem ctor_ok t p = Inr (r, p')"
  shows "tls_cache_size p' = tls_cache_size p"
proof (rule acquire_stages [OF assms])
  fix r1 p1 r2 p2
  assume s: "acquire_cached Q t p = Inr (r1, p1)"
    "r1 = None \<Longrightarrow> acquire_fresh Q sz new_mem p1 = (r2, p2)" "r1 \<noteq> None \<Longrightarrow> p2 = p1"
    "p' = p2 \<or> (\<exists>x. p' = p2\<lparr>free_queue := push_ignore Q x (free_queue p2)\<rparr>)"
  then have "tls_cache_size p2 = tls_cache_size p1"
    using tls_cache_size_fresh by (cases r1) auto
  with s(4) tls_cache_size_cached [OF s(1)] show ?thesis by auto
qed

lemma tls_cache_size_release: "tls_cache_size (release Q t obj p) = tls_cache_size p"
  by (simp add: release_def batch_return_to_central_def Let_def split: option.split prod.split)

lemma tls_cache_size_new: "tls_cache_size (object_pool_new Q sz new_mem cfg) = cfg_tls_cache_size cfg"
  by (simp add: object_pool_new_def allocate_chunk_def Let_def split: option.split)



text \<open>
  The cache is a stack: an object released by a thread with room below the return threshold
  is the next one the thread acquires, without touching the central queue or the allocator.
\<close>

theorem release_acquire_lifo:
  assumes "max_cache_size (get_tls_cache t p) = m"
    and "length (cache (get_tls_cache t p)) < cache_bound m"
  shows "\<exists>p'. acquire Q sz new_mem True t (release Q t (Some x) p) = Inr (Some x, p') \<and>
    get_tls_cache t p' = get_tls_cache t p \<and> free_queue p' = free_queue p \<and> chunks p' = chunks p"
proof -
  let ?c = "get_tls_cache t p"
  have room: "length (cache ?c) < m" using assms(2) cache_bound_le [of m] by linarith
  let ?d = "?c\<lparr>cache := cache ?c @ [x]\<rparr>"
  have "\<not> should_batch_return ?d" using assms by (simp add: should_batch_return_iff)
  with room assms(1) have "release Q t (Some x) p = set_tls_cache t ?d p"
    by (simp add: release_def try_release_def)
  then show ?thesis by (simp add: acquire_def acquire_cached_def try_acquire_def)
qed

theorem release_acquire_lifo_witness:
  "\<exists>p'. acquire list_queue 64 (\<lambda>_. None) True 0 (release list_queue 0 (Some 4096) small_pool_after) =
      Inr (Some 4096, p') \<and>
    get_tls_cache 0 p' = get_tls_cache 0 small_pool_after \<and>
    free_queue p' = free_queue small_pool_after \<and> chunks p' = chunks small_pool_after"
  by (rule release_acquire_lifo [where m = 4])
    (simp_all add: small_pool_after_def tl_cache_new_def cache_bound_def)

section \<open>A second pool of the same type\<close>

lemma delete_chunks_all: "delete_chunks cs = map chunk_memory cs"
  by (induction cs) simp_all

lemma acquire_from_cache:
  "cache (get_tls_cache t p) \<noteq> [] \<Longrightarrow>
     acquire Q sz new_mem True t p =
       Inr (Some (last (cache (get_tls_cache t p))),
            set_tls_cache t ((get_tls_cache t p)\<lparr>cache := butlast (cache (get_tls_cache t p))\<rparr>) p)"
  by (simp add: acquire_def acquire_cached_def try_acquire_def)

text \<open>What a cache holds are slots of the chunks.\<close>

context pool_setting
begin

lemma cached_slot:
  assumes "owned contents T p + live = mset (all_slots sz p)" and "t \<in> T"
    and "x \<in> set (cache (get_tls_cache t p))"
  shows "x \<in> set (all_slots sz p)"
proof -
  let ?m = "\<lambda>t. mset (cache (get_tls_cache t p))"
  have "(\<Sum>t\<in>T. ?m t) = ?m t + (\<Sum>t\<in>T - {t}. ?m t)"
    using assms(2) threads_finite by (simp add: sum.remove)
  then have "mset (all_slots sz p) = ?m t + ((\<Sum>t\<in>T - {t}. ?m t) + mset (contents (free_queue p)) + live)"
    using assms(1) by (simp add: owned_def ac_simps)
  with assms(3) show ?thesis by (metis set_mset_mset union_iff)
qed

lemma free_slots_new:
  "set (contents (free_queue (object_pool_new Q sz new_mem cfg))) =
     set (all_slots sz (object_pool_new Q sz new_mem cfg))"
proof -
  let ?new = "object_pool_new Q sz new_mem cfg"
  let ?start = "\<lparr>chunk_size = cfg_chunk_size cfg, tls_cache_size = cfg_tls_cache_size cfg,
    batch_size = cfg_batch_size cfg, free_queue = lfq_new Q (size_t (cfg_initial_count cfg + 128)),
    chunks = [], total_allocated = 0, allocating = False, tls = (\<lambda>_. None)\<rparr>"
  obtain ok p where a: "allocate_chunk Q sz new_mem (cfg_initial_count cfg) ?start = (ok, p)" by fastforce
  then have p: "?new = p" by (simp add: object_pool_new_def)
  from allocate_chunk_owned [OF a, of "{}"] have "mset (contents (free_queue p)) = mset (all_slots sz p)"
    by (simp add: owned_def all_slots_def new_contents)
  then show ?thesis unfolding p by (metis set_mset_mset)
qed

end

lemma slot_in_chunk:
  assumes "0 < sz" and "x \<in> set (all_slots sz p)"
  shows "\<exists>c \<in> set (chunks p). x \<in> chunk_region sz c"
proof -
  from assms(2) obtain c where "c \<in> set (chunks p)" "x \<in> set (chunk_slots sz c)" by (auto simp: all_slots_def)
  with chunk_slots_region [OF assms(1), of c] show ?thesis by blast
qed

text \<open>
  The caches outlive their pool. After a pool is destroyed, a thread whose cache is not empty gets a
  slot of the destroyed pool from the next pool of the same type: the slot lies in memory that has been given
  back, and it is either in none of the new pool's chunks or free and in use at once.
\<close>

theorem next_pool_hands_out_old_slot:
  assumes "reliable_queue Q contents" and "0 < sz" and "finite T" and "t \<in> T"
    and "pool_client (pool_init Q sz) (pool_acq Q sz T) (pool_rel Q T) p live"
    and "cache (get_tls_cache t p) \<noteq> []" and "object_pool_delete p = (freed, caches)"
    and "p2 = object_pool_next Q sz new_mem cfg caches"
  shows "\<exists>x p'. acquire Q sz new_mem' True t p2 = Inr (Some x, p') \<and>
    (\<exists>c \<in> set (chunks p). chunk_memory c \<in> set freed \<and> x \<in> chunk_region sz c) \<and>
    (x \<notin> set (all_slots sz p2) \<or> x \<in> set (contents (free_queue p')))"
proof -
  have s: "pool_setting Q contents sz T"
    using assms(1-3) by (simp add: pool_setting_def pool_setting_axioms_def)
  let ?c = "get_tls_cache t p" and ?new = "object_pool_new Q sz new_mem cfg"
  have same: "get_tls_cache t p2 = ?c"
    using assms(6-8) by (auto simp: object_pool_delete_def object_pool_next_def get_tls_cache_def
        tl_cache_new_def split: option.splits)
  have free: "set (contents (free_queue p2)) = set (all_slots sz p2)"
    using pool_setting.free_slots_new [OF s, of new_mem cfg] assms(8)
    by (simp add: object_pool_next_def all_slots_def)
  let ?x = "last (cache ?c)"
  let ?p' = "set_tls_cache t (?c\<lparr>cache := butlast (cache ?c)\<rparr>) p2"
  have "acquire Q sz new_mem' True t p2 = Inr (Some ?x, ?p')"
    using acquire_from_cache [of t p2 Q sz new_mem'] assms(6) by (simp add: same)
  moreover have "?x \<in> set (all_slots sz p)"
    using pool_setting.pool_client_exclusive [OF s assms(5), of ?x] assms(4,6)
    by (intro pool_setting.cached_slot [OF s]) auto
  then have "\<exists>c \<in> set (chunks p). chunk_memory c \<in> set freed \<and> ?x \<in> chunk_region sz c"
    using slot_in_chunk [OF assms(2), of ?x p] assms(7)
    by (auto simp: object_pool_delete_def delete_chunks_all)
  moreover have "?x \<notin> set (all_slots sz p2) \<or> ?x \<in> set (contents (free_queue ?p'))"
    by (simp add: free)
  ultimately show ?thesis by blast
qed

theorem next_pool_hands_out_old_slot_witness:
  "\<exists>x p'. acquire list_queue 64 (\<lambda>_. None) True 0
      (object_pool_next list_queue 64 (\<lambda>_. Some 8192) small_config (tls (release list_queue 0 (Some 4096) small_pool_after))) =
      Inr (Some x, p') \<and>
    (\<exists>c \<in> set (chunks small_pool_after). chunk_memory c \<in> set [4096] \<and> x \<in> chunk_region 64 c)"
proof -
  let ?p = "release list_queue 0 (Some 4096) small_pool_after"
  have "pool_rel list_queue {0, 1} small_pool_after 4096 ?p" by (auto simp: pool_rel_def)
  from pool_client.put [OF small_pool_client _ this]
  have client: "pool_client (pool_init list_queue 64) (pool_acq list_queue 64 {0, 1}) (pool_rel list_queue {0, 1}) ?p {#}"
    by simp
  have "cache (get_tls_cache 0 ?p) \<noteq> []"
    by (simp add: release_def try_release_def small_pool_after_def tl_cache_new_def should_batch_return_def size_t_def)
  moreover have "object_pool_delete ?p = ([4096], tls ?p)"
    by (simp add: object_pool_delete_def small_pool_after_def small_pool_eq)
  ultimately show ?thesis
    using next_pool_hands_out_old_slot [OF lq.reliable_queue_axioms _ _ _ client, of 0 "[4096]" "tls ?p" _
        "\<lambda>_. Some 8192" small_config "\<lambda>_. None"]
    by auto
qed

end
