(* ===== verification/Pool_Machine.thy ===== *)
theory Pool_Machine
  imports Memory_Pool
begin

text \<open>
  \<open>ObjectPool\<close> with threads that interleave. In \<open>Memory_Pool\<close> a call of \<open>acquire\<close> or \<open>release\<close> is one
  step; here a step is the code up to and including the next access to shared memory (one queue
  operation, one operation on \<open>allocating_\<close>, \<open>chunk_head_\<close> or \<open>total_allocated_\<close>). The thread-local
  cache is only used by its own thread. The constructor and destructor of the objects do not use the pool. The
  two models agree on calls that are not disturbed (\<open>pool_runs_alone\<close>); the invariant of all
  interleavings is at the end.
\<close>

section \<open>Calls under way\<close>

text \<open>
  \<open>A_Steal n batch\<close> has \<open>n\<close> rounds left, \<open>A_Push c is\<close> the slots of the new chunk that are not in the
  queue yet. \<open>Return\<close> is the result of the call.
\<close>

datatype pool_frame =
    A_Start
  | A_Pop
  | A_Steal nat "nat list"
  | A_Alloc
  | A_New
  | A_Push memory_chunk "nat list"
  | A_Total memory_chunk
  | A_Unlock
  | A_Pop_Fresh
  | A_Retry nat
  | A_Construct nat
  | A_Push_Back nat
  | R_Start nat
  | R_Push nat
  | R_Check
  | R_Return "nat list"

datatype pool_next = Go pool_frame | Return "nat option"

type_synonym 'q pool_result = "(pool_next \<times> 'q object_pool) outcome"

definition pool_push :: "'q lfq_ops \<Rightarrow> nat \<Rightarrow> 'q object_pool \<Rightarrow> 'q object_pool" where
  "pool_push Q x p = p\<lparr>free_queue := push_ignore Q x (free_queue p)\<rparr>"

text \<open>A pop from the central queue that continues with \<open>fr\<close> when it fails.\<close>

definition pool_pop :: "'q lfq_ops \<Rightarrow> pool_next \<Rightarrow> 'q object_pool \<Rightarrow> pool_next \<times> 'q object_pool" where
  "pool_pop Q otherwise p =
     (case lfq_pop Q (free_queue p) of
        None \<Rightarrow> (otherwise, p)
      | Some (x, q) \<Rightarrow> (Go (A_Construct x), p\<lparr>free_queue := q\<rparr>))"

definition cache_acquire :: "nat \<Rightarrow> 'q object_pool \<Rightarrow> pool_next \<times> 'q object_pool" where
  "cache_acquire t p =
     (let (r, c) = try_acquire (get_tls_cache t p)
      in (Go (case r of None \<Rightarrow> A_Pop | Some x \<Rightarrow> A_Construct x), set_tls_cache t c p))"

text \<open>The end of \<open>batch_steal_from_central\<close>, and one round of its loop.\<close>

definition steal_end :: "nat \<Rightarrow> nat list \<Rightarrow> 'q object_pool \<Rightarrow> pool_next \<times> 'q object_pool" where
  "steal_end t batch p =
     (case batch of
        [] \<Rightarrow> (Go A_Alloc, p)
      | x # rest \<Rightarrow>
          (Go (A_Construct x),
           if rest = [] then p else set_tls_cache t (add_batch rest (get_tls_cache t p)) p))"

definition steal_round :: "'q lfq_ops \<Rightarrow> nat \<Rightarrow> nat \<Rightarrow> nat list \<Rightarrow> 'q object_pool \<Rightarrow> 'q pool_result" where
  "steal_round Q t n batch p =
     (if n = 0 then Inr (steal_end t batch p)
      else (case lfq_pop Q (free_queue p) of
              None \<Rightarrow> Inr (steal_end t batch p)
            | Some (x, q) \<Rightarrow>
                if length batch < DEFAULT_BATCH_SIZE
                then Inr (Go (A_Steal (n - 1) (batch @ [x])), p\<lparr>free_queue := q\<rparr>)
                else Inl Out_Of_Bounds))"

text \<open>The steps of \<open>allocate_chunk\<close>: \<open>test_and_set\<close>, the allocation, the pushes, the link to the chain.\<close>

definition alloc_enter :: "'q object_pool \<Rightarrow> pool_next \<times> 'q object_pool" where
  "alloc_enter p =
     (if allocating p then (Go (A_Retry 20), p) else (Go A_New, p\<lparr>allocating := True\<rparr>))"

definition alloc_new ::
    "nat \<Rightarrow> (nat \<Rightarrow> nat option) \<Rightarrow> 'q object_pool \<Rightarrow> pool_next \<times> 'q object_pool" where
  "alloc_new sz new_mem p =
     (case new_mem (chunk_bytes sz (chunk_size p)) of
        None \<Rightarrow> (Go (A_Retry 20), p\<lparr>allocating := False\<rparr>)
      | Some base \<Rightarrow>
          (Go (A_Push \<lparr>chunk_count = chunk_size p, chunk_memory = base\<rparr> [0..<chunk_size p]), p))"

definition alloc_push ::
    "'q lfq_ops \<Rightarrow> nat \<Rightarrow> memory_chunk \<Rightarrow> nat list \<Rightarrow> 'q object_pool \<Rightarrow> pool_next \<times> 'q object_pool" where
  "alloc_push Q sz c is p =
     (case is of
        [] \<Rightarrow> (Go (A_Total c), p\<lparr>chunks := c # chunks p\<rparr>)
      | i # js \<Rightarrow> (Go (A_Push c js), case get_slot sz c i of None \<Rightarrow> p | Some x \<Rightarrow> pool_push Q x p))"

definition alloc_total :: "memory_chunk \<Rightarrow> 'q object_pool \<Rightarrow> pool_next \<times> 'q object_pool" where
  "alloc_total c p = (Go A_Unlock, p\<lparr>total_allocated := size_t (total_allocated p + chunk_count c)\<rparr>)"

definition retry_round :: "'q lfq_ops \<Rightarrow> nat \<Rightarrow> 'q object_pool \<Rightarrow> pool_next \<times> 'q object_pool" where
  "retry_round Q n p = (if n = 0 then (Return None, p) else pool_pop Q (Go (A_Retry (n - 1))) p)"

text \<open>\<open>release\<close>: the cache, the central queue, the return of a batch.\<close>

definition cache_release :: "nat \<Rightarrow> nat \<Rightarrow> 'q object_pool \<Rightarrow> pool_next \<times> 'q object_pool" where
  "cache_release t x p =
     (let (ok, c) = try_release x (get_tls_cache t p)
      in (Go (if ok then R_Check else R_Push x), set_tls_cache t c p))"

definition return_check :: "nat \<Rightarrow> 'q object_pool \<Rightarrow> pool_next \<times> 'q object_pool" where
  "return_check t p =
     (if should_batch_return (get_tls_cache t p)
      then (let (batch, c) = extract_batch DEFAULT_BATCH_SIZE (get_tls_cache t p)
            in (Go (R_Return batch), set_tls_cache t c p))
      else (Return None, p))"

definition return_push :: "'q lfq_ops \<Rightarrow> nat list \<Rightarrow> 'q object_pool \<Rightarrow> pool_next \<times> 'q object_pool" where
  "return_push Q xs p =
     (case xs of [] \<Rightarrow> (Return None, p) | x # ys \<Rightarrow> (Go (R_Return ys), pool_push Q x p))"

text \<open>One step of thread \<open>t\<close>. A call of \<open>release\<close> ends with \<open>Return None\<close>.\<close>

fun pool_step ::
    "'q lfq_ops \<Rightarrow> nat \<Rightarrow> (nat \<Rightarrow> nat option) \<Rightarrow> bool \<Rightarrow> nat \<Rightarrow> pool_frame \<Rightarrow> 'q object_pool \<Rightarrow> 'q pool_result" where
  "pool_step Q sz new_mem ctor_ok t A_Start p = Inr (cache_acquire t p)"
| "pool_step Q sz new_mem ctor_ok t A_Pop p = Inr (pool_pop Q (Go (A_Steal (batch_size p) [])) p)"
| "pool_step Q sz new_mem ctor_ok t (A_Steal n batch) p = steal_round Q t n batch p"
| "pool_step Q sz new_mem ctor_ok t A_Alloc p = Inr (alloc_enter p)"
| "pool_step Q sz new_mem ctor_ok t A_New p = Inr (alloc_new sz new_mem p)"
| "pool_step Q sz new_mem ctor_ok t (A_Push c is) p = Inr (alloc_push Q sz c is p)"
| "pool_step Q sz new_mem ctor_ok t (A_Total c) p = Inr (alloc_total c p)"
| "pool_step Q sz new_mem ctor_ok t A_Unlock p = Inr (Go A_Pop_Fresh, p\<lparr>allocating := False\<rparr>)"
| "pool_step Q sz new_mem ctor_ok t A_Pop_Fresh p = Inr (pool_pop Q (Return None) p)"
| "pool_step Q sz new_mem ctor_ok t (A_Retry n) p = Inr (retry_round Q n p)"
| "pool_step Q sz new_mem ctor_ok t (A_Construct x) p =
     Inr (if ctor_ok then Return (Some x) else Go (A_Push_Back x), p)"
| "pool_step Q sz new_mem ctor_ok t (A_Push_Back x) p = Inr (Return None, pool_push Q x p)"
| "pool_step Q sz new_mem ctor_ok t (R_Start x) p = Inr (cache_release t x p)"
| "pool_step Q sz new_mem ctor_ok t (R_Push x) p = Inr (Go R_Check, pool_push Q x p)"
| "pool_step Q sz new_mem ctor_ok t R_Check p = Inr (return_check t p)"
| "pool_step Q sz new_mem ctor_ok t (R_Return xs) p = Inr (return_push Q xs p)"

section \<open>A call that is not disturbed\<close>

partial_function (option) run_alone ::
    "'q lfq_ops \<Rightarrow> nat \<Rightarrow> (nat \<Rightarrow> nat option) \<Rightarrow> bool \<Rightarrow> nat \<Rightarrow> pool_frame \<Rightarrow> 'q object_pool
       \<Rightarrow> (nat option \<times> 'q object_pool) outcome option" where
  "run_alone Q sz new_mem ctor_ok t fr p =
     (case pool_step Q sz new_mem ctor_ok t fr p of
        Inl e \<Rightarrow> Some (Inl e)
      | Inr (Return r, p') \<Rightarrow> Some (Inr (r, p'))
      | Inr (Go fr', p') \<Rightarrow> run_alone Q sz new_mem ctor_ok t fr' p')"

lemma run_alone_return:
  "pool_step Q sz nm ok t fr p = Inr (Return r, p') \<Longrightarrow> run_alone Q sz nm ok t fr p = Some (Inr (r, p'))"
  by (simp add: run_alone.simps [of Q sz nm ok t fr p])

lemma run_alone_go:
  "pool_step Q sz nm ok t fr p = Inr (Go fr', p') \<Longrightarrow>
     run_alone Q sz nm ok t fr p = run_alone Q sz nm ok t fr' p'"
  by (simp add: run_alone.simps [of Q sz nm ok t fr p])

lemma run_alone_fault:
  "pool_step Q sz nm ok t fr p = Inl e \<Longrightarrow> run_alone Q sz nm ok t fr p = Some (Inl e)"
  by (simp add: run_alone.simps [of Q sz nm ok t fr p])

text \<open>The end of \<open>acquire\<close>: the constructor, for the object that was found.\<close>

definition constructed ::
    "'q lfq_ops \<Rightarrow> bool \<Rightarrow> nat option \<times> 'q object_pool \<Rightarrow> nat option \<times> 'q object_pool" where
  "constructed Q ok = (\<lambda>(r, p). case r of
     None \<Rightarrow> (None, p)
   | Some x \<Rightarrow> if ok then (Some x, p) else (None, p\<lparr>free_queue := push_ignore Q x (free_queue p)\<rparr>))"

lemma alone_construct:
  "run_alone Q sz nm ok t (A_Construct x) p = Some (Inr (constructed Q ok (Some x, p)))"
proof (cases ok)
  case True
  then show ?thesis by (simp add: run_alone_return constructed_def)
next
  case False
  then have "run_alone Q sz nm ok t (A_Construct x) p = run_alone Q sz nm ok t (A_Push_Back x) p"
    by (intro run_alone_go) simp
  with False show ?thesis by (simp add: run_alone_return constructed_def pool_push_def)
qed

lemma alone_retry:
  "run_alone Q sz nm ok t (A_Retry n) p =
     Some (Inr (constructed Q ok (let (r, q) = retry_pop Q n (free_queue p) in (r, p\<lparr>free_queue := q\<rparr>))))"
proof (induction n)
  case 0
  then show ?case by (simp add: run_alone_return retry_round_def constructed_def)
next
  case (Suc n)
  show ?case
  proof (cases "lfq_pop Q (free_queue p)")
    case None
    then have "run_alone Q sz nm ok t (A_Retry (Suc n)) p = run_alone Q sz nm ok t (A_Retry n) p"
      by (intro run_alone_go) (simp add: retry_round_def pool_pop_def)
    with None Suc.IH show ?thesis by simp
  next
    case (Some xq)
    then have "run_alone Q sz nm ok t (A_Retry (Suc n)) p =
        run_alone Q sz nm ok t (A_Construct (fst xq)) (p\<lparr>free_queue := snd xq\<rparr>)"
      by (intro run_alone_go) (simp add: retry_round_def pool_pop_def split: prod.split)
    with Some show ?thesis by (simp add: alone_construct split: prod.split)
  qed
qed

lemma alone_push:
  "run_alone Q sz nm ok t (A_Push c is) p =
     run_alone Q sz nm ok t (A_Push c []) (p\<lparr>free_queue := push_slots Q sz c is (free_queue p)\<rparr>)"
proof (induction "is" arbitrary: p)
  case (Cons i js)
  have "run_alone Q sz nm ok t (A_Push c (i # js)) p =
      run_alone Q sz nm ok t (A_Push c js) (case get_slot sz c i of None \<Rightarrow> p | Some x \<Rightarrow> pool_push Q x p)"
    by (intro run_alone_go) (simp add: alloc_push_def)
  then show ?case using Cons.IH by (simp add: pool_push_def split: option.split)
qed simp

lemma alone_pop_fresh:
  "run_alone Q sz nm ok t A_Pop_Fresh p =
     Some (Inr (constructed Q ok (case lfq_pop Q (free_queue p) of
       None \<Rightarrow> (None, p) | Some (x, q) \<Rightarrow> (Some x, p\<lparr>free_queue := q\<rparr>))))"
proof (cases "lfq_pop Q (free_queue p)")
  case None
  then show ?thesis by (simp add: run_alone_return pool_pop_def constructed_def)
next
  case (Some xq)
  then have "run_alone Q sz nm ok t A_Pop_Fresh p =
      run_alone Q sz nm ok t (A_Construct (fst xq)) (p\<lparr>free_queue := snd xq\<rparr>)"
    by (intro run_alone_go) (simp add: pool_pop_def split: prod.split)
  with Some show ?thesis by (simp add: alone_construct split: prod.split)
qed

lemma alone_alloc:
  "run_alone Q sz nm ok t A_Alloc p = Some (Inr (constructed Q ok (acquire_fresh Q sz nm p)))"
proof (cases "allocating p")
  case True
  then have "run_alone Q sz nm ok t A_Alloc p = run_alone Q sz nm ok t (A_Retry 20) p"
    by (intro run_alone_go) (simp add: alloc_enter_def)
  with True show ?thesis
    by (simp only: alone_retry) (simp add: acquire_fresh_def allocate_chunk_def)
next
  case False
  let ?p = "p\<lparr>allocating := True\<rparr>"
  from False have e: "run_alone Q sz nm ok t A_Alloc p = run_alone Q sz nm ok t A_New ?p"
    by (intro run_alone_go) (simp add: alloc_enter_def)
  from False have same: "p\<lparr>allocating := False\<rparr> = p" by simp
  show ?thesis
  proof (cases "nm (chunk_bytes sz (chunk_size p))")
    case None
    have "run_alone Q sz nm ok t A_New ?p = run_alone Q sz nm ok t (A_Retry 20) p"
      by (intro run_alone_go) (simp add: None same alloc_new_def)
    with None False show ?thesis
      by (simp only: e alone_retry) (simp add: acquire_fresh_def allocate_chunk_def)
  next
    case (Some base)
    define c where "c = \<lparr>chunk_count = chunk_size p, chunk_memory = base\<rparr>"
    define q where "q = push_slots Q sz c [0..<chunk_size p] (free_queue p)"
    let ?p1 = "?p\<lparr>free_queue := q\<rparr>" and ?n = "size_t (total_allocated p + chunk_size p)"
    have "run_alone Q sz nm ok t A_New ?p = run_alone Q sz nm ok t (A_Push c [0..<chunk_size p]) ?p"
      by (intro run_alone_go) (simp add: Some alloc_new_def c_def)
    also have "\<dots> = run_alone Q sz nm ok t (A_Push c []) ?p1"
      by (subst alone_push) (simp add: q_def)
    also have "\<dots> = run_alone Q sz nm ok t (A_Total c) (?p1\<lparr>chunks := c # chunks p\<rparr>)"
      by (intro run_alone_go) (simp add: alloc_push_def)
    also have "\<dots> = run_alone Q sz nm ok t A_Unlock (?p1\<lparr>chunks := c # chunks p, total_allocated := ?n\<rparr>)"
      by (intro run_alone_go) (simp add: alloc_total_def c_def)
    also have "\<dots> = run_alone Q sz nm ok t A_Pop_Fresh
        (p\<lparr>free_queue := q, chunks := c # chunks p, total_allocated := ?n\<rparr>)"
      using False by (intro run_alone_go) simp
    finally show ?thesis
      using Some False
      by (simp add: e alone_pop_fresh acquire_fresh_def allocate_chunk_def q_def c_def Let_def)
  qed
qed

lemma alone_steal:
  "run_alone Q sz nm ok t (A_Steal n batch) p =
     (case steal_loop Q n batch (free_queue p) of
        Inl e \<Rightarrow> Some (Inl e)
      | Inr (batch', q) \<Rightarrow>
          (case steal_end t batch' (p\<lparr>free_queue := q\<rparr>) of
             (Go fr, p') \<Rightarrow> run_alone Q sz nm ok t fr p'
           | (Return r, p') \<Rightarrow> Some (Inr (r, p'))))"
proof (induction n arbitrary: batch p)
  case 0
  then show ?case by (simp add: run_alone.simps [of Q sz nm ok t "A_Steal 0 batch" p] steal_round_def)
next
  case (Suc n)
  show ?case
  proof (cases "lfq_pop Q (free_queue p)")
    case None
    then show ?thesis
      by (simp add: run_alone.simps [of Q sz nm ok t "A_Steal (Suc n) batch" p] steal_round_def)
  next
    case (Some xq)
    obtain x q where xq: "xq = (x, q)" by (cases xq)
    show ?thesis
    proof (cases "length batch < DEFAULT_BATCH_SIZE")
      case True
      with Some xq have "run_alone Q sz nm ok t (A_Steal (Suc n) batch) p =
          run_alone Q sz nm ok t (A_Steal n (batch @ [x])) (p\<lparr>free_queue := q\<rparr>)"
        by (intro run_alone_go) (simp add: steal_round_def)
      with Some xq True show ?thesis by (simp add: Suc.IH split: sum.split)
    next
      case False
      with Some xq show ?thesis by (simp add: run_alone_fault steal_round_def)
    qed
  qed
qed

lemma alone_steal_batch:
  "batch_size p = n \<Longrightarrow> run_alone Q sz nm ok t (A_Steal n []) p =
     (case batch_steal_from_central Q t p of
        Inl e \<Rightarrow> Some (Inl e)
      | Inr (Some x, p') \<Rightarrow> run_alone Q sz nm ok t (A_Construct x) p'
      | Inr (None, p') \<Rightarrow> run_alone Q sz nm ok t A_Alloc p')"
  by (auto simp: alone_steal batch_steal_from_central_def steal_end_def Let_def
      split: sum.split prod.split list.split)

lemma acquire_constructed:
  "acquire Q sz nm ok t p =
     bind_outcome (acquire_cached Q t p) (\<lambda>(r, p1).
       Inr (constructed Q ok (case r of None \<Rightarrow> acquire_fresh Q sz nm p1 | Some x \<Rightarrow> (Some x, p1))))"
  unfolding acquire_def constructed_def
  by (rule arg_cong [where f = "bind_outcome (acquire_cached Q t p)"]) (auto simp: Let_def split: option.split prod.split)

lemma alone_acquire: "run_alone Q sz nm ok t A_Start p = Some (acquire Q sz nm ok t p)"
proof -
  obtain r c where rc: "try_acquire (get_tls_cache t p) = (r, c)" by fastforce
  let ?p1 = "set_tls_cache t c p"
  show ?thesis
  proof (cases r)
    case (Some x)
    with rc have "run_alone Q sz nm ok t A_Start p = run_alone Q sz nm ok t (A_Construct x) ?p1"
      by (intro run_alone_go) (simp add: cache_acquire_def)
    with Some rc show ?thesis by (simp add: alone_construct acquire_constructed acquire_cached_def)
  next
    case None
    with rc have a: "run_alone Q sz nm ok t A_Start p = run_alone Q sz nm ok t A_Pop ?p1"
      by (intro run_alone_go) (simp add: cache_acquire_def)
    show ?thesis
    proof (cases "lfq_pop Q (free_queue ?p1)")
      case (Some xq)
      then have "run_alone Q sz nm ok t A_Pop ?p1 =
          run_alone Q sz nm ok t (A_Construct (fst xq)) (?p1\<lparr>free_queue := snd xq\<rparr>)"
        by (intro run_alone_go) (simp add: pool_pop_def split: prod.split)
      with a Some None rc show ?thesis
        by (simp add: alone_construct acquire_constructed acquire_cached_def split: prod.split)
    next
      case none: None
      then have "run_alone Q sz nm ok t A_Pop ?p1 =
          run_alone Q sz nm ok t (A_Steal (batch_size ?p1) []) ?p1"
        by (intro run_alone_go) (simp add: pool_pop_def)
      with a none None rc show ?thesis
        by (auto simp: alone_steal_batch alone_construct alone_alloc acquire_constructed acquire_cached_def
            split: sum.split option.split)
    qed
  qed
qed

lemma alone_return:
  "run_alone Q sz nm ok t (R_Return xs) p =
     Some (Inr (None, p\<lparr>free_queue := push_all Q xs (free_queue p)\<rparr>))"
proof (induction xs arbitrary: p)
  case Nil
  then show ?case by (simp add: run_alone_return return_push_def)
next
  case (Cons x xs)
  have "run_alone Q sz nm ok t (R_Return (x # xs)) p = run_alone Q sz nm ok t (R_Return xs) (pool_push Q x p)"
    by (intro run_alone_go) (simp add: return_push_def)
  with Cons.IH show ?case by (simp add: pool_push_def)
qed

lemma alone_check:
  "run_alone Q sz nm ok t R_Check p =
     Some (Inr (None, if should_batch_return (get_tls_cache t p) then batch_return_to_central Q t p else p))"
proof (cases "should_batch_return (get_tls_cache t p)")
  case True
  obtain batch c where b: "extract_batch DEFAULT_BATCH_SIZE (get_tls_cache t p) = (batch, c)" by fastforce
  with True have "run_alone Q sz nm ok t R_Check p = run_alone Q sz nm ok t (R_Return batch) (set_tls_cache t c p)"
    by (intro run_alone_go) (simp add: return_check_def)
  with True b show ?thesis by (simp add: alone_return batch_return_to_central_def)
next
  case False
  then show ?thesis by (simp add: run_alone_return return_check_def)
qed

lemma alone_release: "run_alone Q sz nm ok t (R_Start x) p = Some (Inr (None, release Q t (Some x) p))"
proof -
  obtain kept c where c: "try_release x (get_tls_cache t p) = (kept, c)" by fastforce
  let ?p1 = "set_tls_cache t c p"
  have start: "run_alone Q sz nm ok t (R_Start x) p =
      run_alone Q sz nm ok t (if kept then R_Check else R_Push x) ?p1"
    using c by (intro run_alone_go) (simp add: cache_release_def)
  have "run_alone Q sz nm ok t (R_Push x) ?p1 = run_alone Q sz nm ok t R_Check (pool_push Q x ?p1)"
    by (intro run_alone_go) simp
  with start c show ?thesis by (simp add: alone_check release_def Let_def pool_push_def)
qed


section \<open>The threads\<close>

text \<open>
  Each thread has at most one call under way; the objects that \<open>acquire\<close> has returned are in \<open>pm_live\<close>
  until a thread, not necessarily the one that acquired it, releases them.
\<close>

record 'q pool_sys =
  pm_pool :: "'q object_pool"
  pm_calls :: "nat \<Rightarrow> pool_frame option"
  pm_live :: "nat multiset"

definition pool_sys_start :: "'q object_pool \<Rightarrow> 'q pool_sys" where
  "pool_sys_start p = \<lparr>pm_pool = p, pm_calls = (\<lambda>_. None), pm_live = {#}\<rparr>"

definition after_step :: "nat \<Rightarrow> pool_next \<Rightarrow> 'q object_pool \<Rightarrow> 'q pool_sys \<Rightarrow> 'q pool_sys" where
  "after_step t next p \<sigma> =
     (case next of
        Go fr \<Rightarrow> \<sigma>\<lparr>pm_pool := p, pm_calls := (pm_calls \<sigma>)(t \<mapsto> fr)\<rparr>
      | Return r \<Rightarrow>
          \<sigma>\<lparr>pm_pool := p, pm_calls := (pm_calls \<sigma>)(t := None), pm_live := pm_live \<sigma> + mset_option r\<rparr>)"

inductive pool_sys_step :: "'q lfq_ops \<Rightarrow> nat \<Rightarrow> nat set \<Rightarrow> 'q pool_sys \<Rightarrow> 'q pool_sys \<Rightarrow> bool"
  for Q sz T where
  call_acquire: "t \<in> T \<Longrightarrow> pm_calls \<sigma> t = None \<Longrightarrow>
     pool_sys_step Q sz T \<sigma> (\<sigma>\<lparr>pm_calls := (pm_calls \<sigma>)(t \<mapsto> A_Start)\<rparr>)"
| call_release: "t \<in> T \<Longrightarrow> pm_calls \<sigma> t = None \<Longrightarrow> x \<in># pm_live \<sigma> \<Longrightarrow>
     pool_sys_step Q sz T \<sigma>
       (\<sigma>\<lparr>pm_calls := (pm_calls \<sigma>)(t \<mapsto> R_Start x), pm_live := pm_live \<sigma> - {#x#}\<rparr>)"
| run_call: "pm_calls \<sigma> t = Some fr \<Longrightarrow>
     fresh_memory sz new_mem (chunk_size (pm_pool \<sigma>)) (chunks (pm_pool \<sigma>)) \<Longrightarrow>
     pool_step Q sz new_mem ctor_ok t fr (pm_pool \<sigma>) = Inr (next, p') \<Longrightarrow>
     pool_sys_step Q sz T \<sigma> (after_step t next p' \<sigma>)"

inductive pool_reachable ::
    "'q lfq_ops \<Rightarrow> nat \<Rightarrow> nat set \<Rightarrow> pool_config \<Rightarrow> 'q pool_sys \<Rightarrow> bool"
  for Q sz T cfg where
  pool_start: "fresh_memory sz new_mem (cfg_initial_count cfg) [] \<Longrightarrow>
     pool_reachable Q sz T cfg (pool_sys_start (object_pool_new Q sz new_mem cfg))"
| pool_move: "pool_reachable Q sz T cfg \<sigma> \<Longrightarrow> pool_sys_step Q sz T \<sigma> \<sigma>' \<Longrightarrow> pool_reachable Q sz T cfg \<sigma>'"

section \<open>Where the slots are while calls are under way\<close>

fun frame_slots :: "nat \<Rightarrow> pool_frame \<Rightarrow> nat multiset" where
  "frame_slots sz (A_Steal n batch) = mset batch"
| "frame_slots sz (A_Push c is) = mset (map (\<lambda>i. chunk_memory c + sz * i) is)"
| "frame_slots sz (A_Construct x) = {#x#}"
| "frame_slots sz (A_Push_Back x) = {#x#}"
| "frame_slots sz (R_Start x) = {#x#}"
| "frame_slots sz (R_Push x) = {#x#}"
| "frame_slots sz (R_Return xs) = mset xs"
| "frame_slots sz _ = {#}"

text \<open>The slots of a chunk that is not yet in the chain.\<close>

fun unlinked_slots :: "nat \<Rightarrow> pool_frame \<Rightarrow> nat multiset" where
  "unlinked_slots sz (A_Push c is) = mset (chunk_slots sz c)"
| "unlinked_slots sz _ = {#}"

fun next_slots :: "nat \<Rightarrow> pool_next \<Rightarrow> nat multiset" where
  "next_slots sz (Go fr) = frame_slots sz fr"
| "next_slots sz (Return r) = mset_option r"

fun next_unlinked :: "nat \<Rightarrow> pool_next \<Rightarrow> nat multiset" where
  "next_unlinked sz (Go fr) = unlinked_slots sz fr"
| "next_unlinked sz (Return r) = {#}"

definition in_calls :: "(pool_frame \<Rightarrow> nat multiset) \<Rightarrow> nat set \<Rightarrow> (nat \<Rightarrow> pool_frame option) \<Rightarrow> nat multiset" where
  "in_calls f T cs = (\<Sum>t\<in>T. case cs t of None \<Rightarrow> {#} | Some fr \<Rightarrow> f fr)"

section \<open>The invariant\<close>

definition pool_conf :: "'q object_pool \<Rightarrow> bool" where
  "pool_conf p \<longleftrightarrow> batch_size p \<le> DEFAULT_BATCH_SIZE \<and> batch_size p \<le> Suc (tls_cache_size p) \<and>
     (\<forall>t. max_cache_size (get_tls_cache t p) = tls_cache_size p)"

fun holds_flag :: "pool_frame \<Rightarrow> bool" where
  "holds_flag A_New = True"
| "holds_flag (A_Push c is) = True"
| "holds_flag (A_Total c) = True"
| "holds_flag A_Unlock = True"
| "holds_flag _ = False"

fun frame_local :: "nat \<Rightarrow> nat \<Rightarrow> 'q object_pool \<Rightarrow> pool_frame \<Rightarrow> bool" where
  "frame_local sz t p A_Pop \<longleftrightarrow> cache (get_tls_cache t p) = []"
| "frame_local sz t p (A_Steal n batch) \<longleftrightarrow>
     cache (get_tls_cache t p) = [] \<and> length batch + n \<le> batch_size p"
| "frame_local sz t p (A_Push c is) \<longleftrightarrow>
     list_all (\<lambda>i. i < chunk_count c) is \<and>
     list_all (\<lambda>d. chunk_region sz c \<inter> chunk_region sz d = {}) (chunks p)"
| "frame_local sz t p _ \<longleftrightarrow> True"

definition frame_ok :: "nat \<Rightarrow> nat \<Rightarrow> 'q object_pool \<Rightarrow> pool_frame \<Rightarrow> bool" where
  "frame_ok sz t p fr \<longleftrightarrow> frame_local sz t p fr \<and> (holds_flag fr \<longrightarrow> allocating p)"

definition balanced :: "('q \<Rightarrow> nat list) \<Rightarrow> nat \<Rightarrow> nat set \<Rightarrow> 'q pool_sys \<Rightarrow> bool" where
  "balanced contents sz T \<sigma> \<longleftrightarrow>
     owned contents T (pm_pool \<sigma>) + pm_live \<sigma> + in_calls (frame_slots sz) T (pm_calls \<sigma>) =
       mset (all_slots sz (pm_pool \<sigma>)) + in_calls (unlinked_slots sz) T (pm_calls \<sigma>)"

definition pool_inv :: "('q \<Rightarrow> nat list) \<Rightarrow> nat \<Rightarrow> nat set \<Rightarrow> 'q pool_sys \<Rightarrow> bool" where
  "pool_inv contents sz T \<sigma> \<longleftrightarrow>
     pool_conf (pm_pool \<sigma>) \<and> chunks_apart sz (pm_pool \<sigma>) \<and> balanced contents sz T \<sigma> \<and>
     (\<forall>t fr. pm_calls \<sigma> t = Some fr \<longrightarrow> t \<in> T \<and> frame_ok sz t (pm_pool \<sigma>) fr) \<and>
     (\<forall>t u fr fr'. pm_calls \<sigma> t = Some fr \<longrightarrow> pm_calls \<sigma> u = Some fr' \<longrightarrow> holds_flag fr \<longrightarrow>
        holds_flag fr' \<longrightarrow> t = u)"

lemma in_calls_update:
  assumes "finite T" and "t \<in> T"
  shows "in_calls f T (cs(t := x)) + (case cs t of None \<Rightarrow> {#} | Some fr \<Rightarrow> f fr) =
    in_calls f T cs + (case x of None \<Rightarrow> {#} | Some fr \<Rightarrow> f fr)"
proof -
  let ?g = "\<lambda>y. case y of None \<Rightarrow> {#} | Some fr \<Rightarrow> f fr"
  have "in_calls f T (cs(t := x)) = (\<Sum>s\<in>T. ((\<lambda>s. ?g (cs s))(t := ?g x)) s)"
    unfolding in_calls_def by (rule sum.cong) simp_all
  with sum_fun_upd_mset [OF assms, of "\<lambda>s. ?g (cs s)" "?g x"] show ?thesis
    by (simp add: in_calls_def del: fun_upd_apply)
qed

lemma add_batch_room:
  "length (cache c) + length xs \<le> max_cache_size c \<Longrightarrow> add_batch xs c = c\<lparr>cache := cache c @ xs\<rparr>"
  by (induction xs arbitrary: c) simp_all

lemma get_tls_cache_other [simp]:
  "get_tls_cache t (p\<lparr>allocating := b\<rparr>) = get_tls_cache t p"
  "get_tls_cache t (p\<lparr>total_allocated := n\<rparr>) = get_tls_cache t p"
  "get_tls_cache t (p\<lparr>chunks := cs\<rparr>) = get_tls_cache t p"
  by (simp_all add: get_tls_cache_def split: option.split)

lemma owned_frame [simp]:
  "owned contents T (p\<lparr>allocating := b\<rparr>) = owned contents T p"
  "owned contents T (p\<lparr>total_allocated := n\<rparr>) = owned contents T p"
  "owned contents T (p\<lparr>chunks := cs\<rparr>) = owned contents T p"
  by (simp_all add: owned_def)

lemma all_slots_frames [simp]:
  "all_slots sz (p\<lparr>allocating := b\<rparr>) = all_slots sz p"
  "all_slots sz (p\<lparr>total_allocated := n\<rparr>) = all_slots sz p"
  "all_slots sz (p\<lparr>chunks := c # cs\<rparr>) = chunk_slots sz c @ all_slots sz (p\<lparr>chunks := cs\<rparr>)"
  by (simp_all add: all_slots_def)

lemma all_slots_same [simp]: "all_slots sz (p\<lparr>chunks := chunks p\<rparr>) = all_slots sz p"
  by (simp add: all_slots_def)

context pool_setting
begin

lemma owned_set_eq:
  assumes "t \<in> T" and "mset (cache c) + m = mset (cache (get_tls_cache t p))"
  shows "owned contents T (set_tls_cache t c p) + m = owned contents T p"
  by (rule mset_balance [OF owned_set_tls_cache [OF threads_finite assms(1)]])
    (use assms(2) in \<open>simp add: ac_simps\<close>)

lemma owned_set_more:
  assumes "t \<in> T" and "mset (cache c) = mset (cache (get_tls_cache t p)) + m"
  shows "owned contents T (set_tls_cache t c p) = owned contents T p + m"
proof -
  have "owned contents T (set_tls_cache t c p) + mset (cache (get_tls_cache t p)) =
      owned contents T p + m + mset (cache (get_tls_cache t p))"
    using owned_set_tls_cache [OF threads_finite assms(1), of contents c p] assms(2)
    by (simp add: ac_simps)
  then show ?thesis by simp
qed

lemma pool_pop_balance:
  assumes "pool_pop Q otherwise p = (nxt, p')"
  shows "(nxt = otherwise \<and> p' = p) \<or>
    (\<exists>x q. nxt = Go (A_Construct x) \<and> p' = p\<lparr>free_queue := q\<rparr> \<and>
       add_mset x (owned contents T p') = owned contents T p)"
  using assms owned_pop [of p _ _ T] by (auto simp: pool_pop_def split: option.splits prod.splits)

lemma cache_acquire_balance:
  assumes "t \<in> T" and "cache_acquire t p = (nxt, p')"
  shows "\<exists>fr. nxt = Go fr \<and> owned contents T p' + frame_slots sz fr = owned contents T p \<and>
    all_slots sz p' = all_slots sz p \<and> unlinked_slots sz fr = {#}"
proof -
  obtain r c where rc: "try_acquire (get_tls_cache t p) = (r, c)" by fastforce
  from owned_set_eq [OF assms(1) try_acquire_mset [OF rc]]
  have "owned contents T (set_tls_cache t c p) + mset_option r = owned contents T p" .
  with rc assms(2) show ?thesis by (cases r) (auto simp: cache_acquire_def)
qed

lemma steal_end_balance:
  assumes "t \<in> T" and "steal_end t batch p = (nxt, p')"
    and "cache (get_tls_cache t p) = []" and "length batch \<le> Suc (max_cache_size (get_tls_cache t p))"
  shows "\<exists>fr. nxt = Go fr \<and> owned contents T p' + frame_slots sz fr = owned contents T p + mset batch \<and>
    all_slots sz p' = all_slots sz p \<and> unlinked_slots sz fr = {#}"
proof (cases batch)
  case Nil
  with assms(2) show ?thesis by (auto simp: steal_end_def)
next
  case (Cons x rest)
  let ?c = "(get_tls_cache t p)\<lparr>cache := rest\<rparr>"
  have "add_batch rest (get_tls_cache t p) = ?c"
    using assms(3,4) Cons by (subst add_batch_room) simp_all
  moreover have "owned contents T (set_tls_cache t ?c p) = owned contents T p + mset rest"
    using assms(1,3) by (intro owned_set_more) simp_all
  ultimately show ?thesis using Cons assms(2) by (auto simp: steal_end_def)
qed

lemma steal_round_balance:
  assumes "t \<in> T" and "pool_conf p" and "frame_local sz t p (A_Steal n batch)"
    and "steal_round Q t n batch p = Inr (nxt, p')"
  shows "\<exists>fr. nxt = Go fr \<and> owned contents T p' + frame_slots sz fr = owned contents T p + mset batch \<and>
    all_slots sz p' = all_slots sz p \<and> unlinked_slots sz fr = {#}"
proof (cases "n = 0 \<or> lfq_pop Q (free_queue p) = None")
  case True
  then have "steal_end t batch p = (nxt, p')" using assms(4) by (auto simp: steal_round_def split: if_splits)
  moreover have "cache (get_tls_cache t p) = []" and len: "length batch + n \<le> batch_size p"
    using assms(3) by simp_all
  moreover have "max_cache_size (get_tls_cache t p) = tls_cache_size p" "batch_size p \<le> Suc (tls_cache_size p)"
    using assms(2) unfolding pool_conf_def by blast+
  then have "length batch \<le> Suc (max_cache_size (get_tls_cache t p))" using len by linarith
  ultimately show ?thesis by (intro steal_end_balance [OF assms(1)])
next
  case False
  then obtain x q where pop: "lfq_pop Q (free_queue p) = Some (x, q)" by auto
  with False assms(4) have "nxt = Go (A_Steal (n - 1) (batch @ [x]))" "p' = p\<lparr>free_queue := q\<rparr>"
    by (auto simp: steal_round_def split: if_splits)
  then show ?thesis by (simp flip: owned_pop [OF pop, of T])
qed

lemma cache_release_balance:
  assumes "t \<in> T" and "cache_release t x p = (nxt, p')"
  shows "\<exists>fr. nxt = Go fr \<and> owned contents T p' + frame_slots sz fr = add_mset x (owned contents T p) \<and>
    all_slots sz p' = all_slots sz p \<and> unlinked_slots sz fr = {#}"
proof -
  obtain kept c where kc: "try_release x (get_tls_cache t p) = (kept, c)" by fastforce
  have "owned contents T (set_tls_cache t c p) = owned contents T p + (if kept then {#x#} else {#})"
    using try_release_mset [OF kc] by (intro owned_set_more [OF assms(1)]) simp
  with kc assms(2) show ?thesis by (auto simp: cache_release_def)
qed

lemma return_check_balance:
  assumes "t \<in> T" and "return_check t p = (nxt, p')"
  shows "owned contents T p' + next_slots sz nxt = owned contents T p \<and>
    all_slots sz p' = all_slots sz p \<and> next_unlinked sz nxt = {#}"
proof (cases "should_batch_return (get_tls_cache t p)")
  case True
  obtain batch c where b: "extract_batch DEFAULT_BATCH_SIZE (get_tls_cache t p) = (batch, c)" by fastforce
  have "owned contents T (set_tls_cache t c p) + mset batch = owned contents T p"
    using extract_batch_mset [OF b] by (intro owned_set_eq [OF assms(1)]) (simp add: ac_simps)
  with True b assms(2) show ?thesis by (auto simp: return_check_def)
next
  case False
  with assms(2) show ?thesis by (auto simp: return_check_def)
qed

lemma alloc_push_balance:
  assumes "frame_local sz t p (A_Push c is)" and "alloc_push Q sz c is p = (nxt, p')"
  shows "owned contents T p' + next_slots sz nxt + mset (all_slots sz p) + unlinked_slots sz (A_Push c is) =
    owned contents T p + frame_slots sz (A_Push c is) + mset (all_slots sz p') + next_unlinked sz nxt"
  using assms by (cases "is") (auto simp: alloc_push_def get_slot_def pool_push_def owned_push ac_simps)

lemma alloc_new_balance:
  assumes "alloc_new sz new_mem p = (nxt, p')"
  shows "owned contents T p' + next_slots sz nxt + mset (all_slots sz p) =
    owned contents T p + mset (all_slots sz p') + next_unlinked sz nxt"
  using assms by (auto simp: alloc_new_def chunk_slots_def split: option.splits)

lemma pool_step_balance:
  assumes "t \<in> T" and "pool_conf p" and "frame_local sz t p fr"
    and "pool_step Q sz new_mem ctor_ok t fr p = Inr (nxt, p')"
  shows "owned contents T p' + next_slots sz nxt + mset (all_slots sz p) + unlinked_slots sz fr =
    owned contents T p + frame_slots sz fr + mset (all_slots sz p') + next_unlinked sz nxt"
  using assms(3,4)
proof (cases fr)
  case A_Start
  then show ?thesis using cache_acquire_balance [OF assms(1), of p nxt p'] assms(4) by auto
next
  case A_Pop
  then show ?thesis using pool_pop_balance [of "Go (A_Steal (batch_size p) [])" p nxt p'] assms(4) by auto
next
  case (A_Steal n batch)
  then show ?thesis using steal_round_balance [OF assms(1,2), of n batch nxt p'] assms(3,4) by auto
next
  case A_New
  then show ?thesis using alloc_new_balance [of new_mem p nxt p'] assms(4) by auto
next
  case (A_Push c "is")
  then show ?thesis using alloc_push_balance [of t p c "is" nxt p'] assms(3,4) by simp
next
  case A_Pop_Fresh
  then show ?thesis using pool_pop_balance [of "Return None" p nxt p'] assms(4) by auto
next
  case (A_Retry n)
  then show ?thesis
    using pool_pop_balance [of "Go (A_Retry (n - 1))" p nxt p'] assms(4)
    by (auto simp: retry_round_def split: if_splits)
next
  case (R_Start x)
  then show ?thesis using cache_release_balance [OF assms(1), of x p nxt p'] assms(4) by auto
next
  case R_Check
  then show ?thesis using return_check_balance [OF assms(1), of p nxt p'] assms(4) by auto
qed (auto simp: alloc_enter_def alloc_total_def pool_push_def owned_push return_push_def ac_simps
    split: if_splits list.splits)

end

section \<open>What a step leaves alone\<close>

lemmas pool_step_defs = cache_acquire_def pool_pop_def steal_round_def steal_end_def alloc_enter_def
  alloc_new_def alloc_push_def alloc_total_def retry_round_def cache_release_def return_check_def
  return_push_def pool_push_def

lemma try_acquire_max [simp]: "max_cache_size (snd (try_acquire c)) = max_cache_size c"
  by (simp add: try_acquire_def)

lemma try_release_max [simp]: "max_cache_size (snd (try_release x c)) = max_cache_size c"
  by (simp add: try_release_def)

lemma extract_batch_max [simp]: "max_cache_size (snd (extract_batch b c)) = max_cache_size c"
  by (simp add: extract_batch_cache)

lemma add_batch_max [simp]: "max_cache_size (add_batch xs c) = max_cache_size c"
  by (induction xs arbitrary: c) simp_all

lemma pool_step_frame:
  assumes "pool_step Q sz new_mem ctor_ok t fr p = Inr (nxt, p')"
  shows "batch_size p' = batch_size p \<and> tls_cache_size p' = tls_cache_size p \<and>
    chunk_size p' = chunk_size p \<and>
    (\<forall>u. u \<noteq> t \<longrightarrow> get_tls_cache u p' = get_tls_cache u p) \<and>
    max_cache_size (get_tls_cache t p') = max_cache_size (get_tls_cache t p)"
  using assms
  by (cases fr)
    (auto simp: pool_step_defs case_prod_beta Let_def split: if_splits option.splits prod.splits list.splits)

lemma pool_step_chunks:
  assumes "pool_step Q sz new_mem ctor_ok t fr p = Inr (nxt, p')"
  shows "(chunks p' = chunks p \<and> (\<forall>c. fr \<noteq> A_Push c [])) \<or>
    (\<exists>c. fr = A_Push c [] \<and> chunks p' = c # chunks p)"
  using assms
  by (cases fr)
    (auto simp: pool_step_defs case_prod_beta Let_def split: if_splits option.splits prod.splits list.splits)

lemma pool_step_allocating:
  assumes "pool_step Q sz new_mem ctor_ok t fr p = Inr (nxt, p')"
  shows "\<not> holds_flag fr \<Longrightarrow> allocating p \<Longrightarrow> allocating p'"
    and "nxt = Go fr' \<Longrightarrow> holds_flag fr' \<Longrightarrow> holds_flag fr \<and> allocating p' = allocating p \<or>
      \<not> holds_flag fr \<and> \<not> allocating p \<and> allocating p'"
  using assms
  by (cases fr;
      auto simp: pool_step_defs case_prod_beta Let_def split: if_splits option.splits prod.splits list.splits)+

lemma pool_step_conf:
  assumes "pool_step Q sz new_mem ctor_ok t fr p = Inr (nxt, p')" and "pool_conf p"
  shows "pool_conf p'"
proof -
  have "max_cache_size (get_tls_cache u p') = tls_cache_size p'" for u
    using pool_step_frame [OF assms(1)] assms(2) by (cases "u = t") (auto simp: pool_conf_def)
  with pool_step_frame [OF assms(1)] assms(2) show ?thesis by (simp add: pool_conf_def)
qed

lemma pool_step_other:
  assumes "pool_step Q sz new_mem ctor_ok t fr p = Inr (nxt, p')" and "u \<noteq> t"
    and "frame_ok sz u p fr'" and "holds_flag fr \<longrightarrow> \<not> holds_flag fr'"
  shows "frame_ok sz u p' fr'"
proof -
  have "frame_local sz u p' fr'"
  proof (cases "\<exists>c. fr = A_Push c []")
    case True
    with assms(4) have "\<not> holds_flag fr'" by auto
    with assms pool_step_frame [OF assms(1)] show ?thesis
      by (cases fr') (auto simp: frame_ok_def)
  next
    case False
    then have "chunks p' = chunks p" using pool_step_chunks [OF assms(1)] by auto
    with assms pool_step_frame [OF assms(1)] show ?thesis
      by (cases fr') (auto simp: frame_ok_def)
  qed
  with pool_step_allocating(1) [OF assms(1)] assms(3,4) show ?thesis by (auto simp: frame_ok_def)
qed

lemma try_acquire_empty: "try_acquire c = (None, c') \<Longrightarrow> cache c' = []"
  by (auto simp: try_acquire_def split: if_splits)

lemma pool_step_local:
  assumes "pool_step Q sz new_mem ctor_ok t fr p = Inr (Go fr', p')" and "frame_local sz t p fr"
    and "fresh_memory sz new_mem (chunk_size p) (chunks p)"
  shows "frame_local sz t p' fr'"
  using assms
proof (cases fr)
  case A_Start
  with assms show ?thesis
    by (auto simp: cache_acquire_def Let_def dest: try_acquire_empty split: prod.splits option.splits)
next
  case (A_Steal n batch)
  with assms show ?thesis
    by (auto simp: steal_round_def steal_end_def split: if_splits option.splits list.splits)
next
  case A_New
  with assms show ?thesis
    by (auto simp: alloc_new_def fresh_memory_def chunk_region_def list_all_iff split: option.splits)
qed (auto simp: pool_step_defs case_prod_beta Let_def split: if_splits option.splits prod.splits list.splits)

lemma pool_step_apart:
  assumes "pool_step Q sz new_mem ctor_ok t fr p = Inr (nxt, p')" and "frame_local sz t p fr"
    and "chunks_apart sz p"
  shows "chunks_apart sz p'"
  using pool_step_chunks [OF assms(1)] assms(2,3) by (auto simp: chunks_apart_def list_all_iff)

section \<open>Every interleaving\<close>

lemma after_step_simps [simp]:
  "pm_pool (after_step t nxt p' \<sigma>) = p'"
  "pm_calls (after_step t nxt p' \<sigma>) =
     (pm_calls \<sigma>)(t := (case nxt of Go fr \<Rightarrow> Some fr | Return r \<Rightarrow> None))"
  "pm_live (after_step t nxt p' \<sigma>) =
     pm_live \<sigma> + (case nxt of Go fr \<Rightarrow> {#} | Return r \<Rightarrow> mset_option r)"
  by (simp_all add: after_step_def split: pool_next.split)

lemma frame_ok_idle: "frame_ok sz t p A_Start" "frame_ok sz t p (R_Start x)"
  by (simp_all add: frame_ok_def)

context pool_setting
begin

lemma balanced_call:
  assumes "t \<in> T" and "pm_calls \<sigma> t = None" and "balanced contents sz T \<sigma>"
    and "unlinked_slots sz fr = {#}" and "frame_slots sz fr + live = pm_live \<sigma>"
  shows "balanced contents sz T (\<sigma>\<lparr>pm_calls := (pm_calls \<sigma>)(t \<mapsto> fr), pm_live := live\<rparr>)"
proof -
  have "in_calls (frame_slots sz) T ((pm_calls \<sigma>)(t \<mapsto> fr)) =
      in_calls (frame_slots sz) T (pm_calls \<sigma>) + frame_slots sz fr"
    "in_calls (unlinked_slots sz) T ((pm_calls \<sigma>)(t \<mapsto> fr)) = in_calls (unlinked_slots sz) T (pm_calls \<sigma>)"
    using in_calls_update [OF threads_finite assms(1), of _ "pm_calls \<sigma>" "Some fr"] assms(2,4) by simp_all
  with assms(3,5) show ?thesis by (simp add: balanced_def ac_simps flip: assms(5))
qed

lemma balance_algebra:
  fixes o' :: "nat multiset"
  assumes "o' + n + a + u = ow + f + a' + u'" and "i' + f = i + n1" and "j' + u = j + u'"
    and "ow + l + i = a + j" and "n1 + n2 = n"
  shows "o' + (l + n2) + i' = a' + j'"
proof (rule multiset_eqI)
  fix x
  let ?c = "\<lambda>m :: nat multiset. count m x"
  have "?c o' + ?c n + ?c a + ?c u = ?c ow + ?c f + ?c a' + ?c u'" "?c i' + ?c f = ?c i + ?c n1"
    "?c j' + ?c u = ?c j + ?c u'" "?c ow + ?c l + ?c i = ?c a + ?c j" "?c n1 + ?c n2 = ?c n"
    using assms [THEN arg_cong [where f = ?c]] by simp_all
  then show "?c (o' + (l + n2) + i') = ?c (a' + j')" by simp
qed

lemma balanced_step:
  assumes "t \<in> T" and "pm_calls \<sigma> t = Some fr" and "balanced contents sz T \<sigma>"
    and "pool_conf (pm_pool \<sigma>)" and "frame_local sz t (pm_pool \<sigma>) fr"
    and "pool_step Q sz new_mem ctor_ok t fr (pm_pool \<sigma>) = Inr (nxt, p')"
  shows "balanced contents sz T (after_step t nxt p' \<sigma>)"
proof -
  let ?x = "case nxt of Go fr \<Rightarrow> Some fr | Return r \<Rightarrow> None"
  have "in_calls f T ((pm_calls \<sigma>)(t := ?x)) + f fr =
      in_calls f T (pm_calls \<sigma>) + (case nxt of Go fr \<Rightarrow> f fr | Return r \<Rightarrow> {#})" for f
    using in_calls_update [OF threads_finite assms(1), of f "pm_calls \<sigma>" ?x] assms(2)
    by (cases nxt) simp_all
  note upd = this [of "frame_slots sz"] this [of "unlinked_slots sz"]
  have u: "(case nxt of Go fr \<Rightarrow> unlinked_slots sz fr | Return r \<Rightarrow> {#}) = next_unlinked sz nxt"
    by (cases nxt) simp_all
  have n: "(case nxt of Go fr \<Rightarrow> frame_slots sz fr | Return r \<Rightarrow> {#}) +
      (case nxt of Go fr \<Rightarrow> {#} | Return r \<Rightarrow> mset_option r) = next_slots sz nxt"
    by (cases nxt) simp_all
  from balance_algebra [OF pool_step_balance [OF assms(1,4,5,6)] upd(1) upd(2) [unfolded u] _ n] assms(3)
  show ?thesis by (simp add: balanced_def)
qed

lemma pool_inv_call:
  assumes "t \<in> T" and "pm_calls \<sigma> t = None" and "pool_inv contents sz T \<sigma>"
    and "fr = A_Start \<or> (\<exists>x. fr = R_Start x)" and "frame_slots sz fr + live = pm_live \<sigma>"
  shows "pool_inv contents sz T (\<sigma>\<lparr>pm_calls := (pm_calls \<sigma>)(t \<mapsto> fr), pm_live := live\<rparr>)"
proof -
  have "unlinked_slots sz fr = {#}" "frame_ok sz t (pm_pool \<sigma>) fr" "\<not> holds_flag fr"
    using assms(4) by (auto simp: frame_ok_idle)
  then show ?thesis
    using assms(1,3) balanced_call [OF assms(1,2) _ _ assms(5)] by (auto simp: pool_inv_def)
qed

lemma pool_inv_run:
  assumes "pool_inv contents sz T \<sigma>" and "pm_calls \<sigma> t = Some fr"
    and "fresh_memory sz new_mem (chunk_size (pm_pool \<sigma>)) (chunks (pm_pool \<sigma>))"
    and "pool_step Q sz new_mem ctor_ok t fr (pm_pool \<sigma>) = Inr (nxt, p')"
  shows "pool_inv contents sz T (after_step t nxt p' \<sigma>)"
proof -
  from assms(1,2) have t: "t \<in> T" and ok: "frame_ok sz t (pm_pool \<sigma>) fr"
    and conf: "pool_conf (pm_pool \<sigma>)" and apart: "chunks_apart sz (pm_pool \<sigma>)"
    and bal: "balanced contents sz T \<sigma>"
    and others: "pm_calls \<sigma> u = Some fr' \<Longrightarrow> u \<in> T \<and> frame_ok sz u (pm_pool \<sigma>) fr'"
    and single: "pm_calls \<sigma> u = Some fr' \<Longrightarrow> pm_calls \<sigma> v = Some fr'' \<Longrightarrow> holds_flag fr' \<Longrightarrow>
      holds_flag fr'' \<Longrightarrow> u = v" for u v fr' fr''
    unfolding pool_inv_def by blast+
  from ok have l: "frame_local sz t (pm_pool \<sigma>) fr" by (simp add: frame_ok_def)
  have next_ok: "frame_ok sz t p' fr'" if "nxt = Go fr'" for fr'
    using pool_step_local [OF _ l assms(3)] pool_step_allocating(2) [OF assms(4) that] assms(4) ok that
    by (auto simp: frame_ok_def)
  have other_ok: "frame_ok sz u p' fr'" if "u \<noteq> t" "pm_calls \<sigma> u = Some fr'" for u fr'
    using pool_step_other [OF assms(4) that(1)] others [OF that(2)] single [OF that(2) assms(2)] that(1)
    by blast
  have alone: "\<not> holds_flag fr''" if "nxt = Go fr'" "holds_flag fr'" "u \<noteq> t" "pm_calls \<sigma> u = Some fr''"
    for u fr' fr''
    using pool_step_allocating(2) [OF assms(4) that(1,2)] others [OF that(4)] single [OF that(4) assms(2)] that(3)
    by (auto simp: frame_ok_def)
  have calls: "(u = t \<and> nxt = Go fr') \<or> (u \<noteq> t \<and> pm_calls \<sigma> u = Some fr')"
    if "pm_calls (after_step t nxt p' \<sigma>) u = Some fr'" for u fr'
    using that by (auto split: if_splits pool_next.splits)
  show ?thesis
    unfolding pool_inv_def
  proof (intro conjI allI impI)
    show "pool_conf (pm_pool (after_step t nxt p' \<sigma>))" using pool_step_conf [OF assms(4) conf] by simp
    show "chunks_apart sz (pm_pool (after_step t nxt p' \<sigma>))" using pool_step_apart [OF assms(4) l apart] by simp
    show "balanced contents sz T (after_step t nxt p' \<sigma>)" by (rule balanced_step [OF t assms(2) bal conf l assms(4)])
  next
    fix u fr' assume "pm_calls (after_step t nxt p' \<sigma>) u = Some fr'"
    from calls [OF this] show "u \<in> T" "frame_ok sz u (pm_pool (after_step t nxt p' \<sigma>)) fr'"
      using t next_ok other_ok others by auto
  next
    fix u v fr' fr''
    assume "pm_calls (after_step t nxt p' \<sigma>) u = Some fr'" "pm_calls (after_step t nxt p' \<sigma>) v = Some fr''"
      and h: "holds_flag fr'" "holds_flag fr''"
    from calls [OF this(1)] calls [OF this(2)] show "u = v"
      using alone single h by metis
  qed
qed

lemma pool_inv_start:
  assumes "fresh_memory sz new_mem (cfg_initial_count cfg) []"
    and "cfg_batch_size cfg \<le> DEFAULT_BATCH_SIZE" and "cfg_batch_size cfg \<le> Suc (cfg_tls_cache_size cfg)"
  shows "pool_inv contents sz T (pool_sys_start (object_pool_new Q sz new_mem cfg))"
proof -
  let ?p = "object_pool_new Q sz new_mem cfg"
  have i: "pool_init Q sz ?p" using assms(1) by (auto simp: pool_init_def)
  have "pool_conf ?p" using assms(2,3)
    by (simp add: pool_conf_def object_pool_new_def allocate_chunk_def get_tls_cache_def tl_cache_new_def
        Let_def split: option.split)
  with pool_init_owned [OF i] pool_init_apart [OF i] show ?thesis
    by (simp add: pool_inv_def pool_sys_start_def balanced_def in_calls_def)
qed

lemma pool_reachable_inv:
  assumes "pool_reachable Q sz T cfg \<sigma>" and "cfg_batch_size cfg \<le> DEFAULT_BATCH_SIZE"
    and "cfg_batch_size cfg \<le> Suc (cfg_tls_cache_size cfg)"
  shows "pool_inv contents sz T \<sigma>"
  using assms(1)
proof (induction rule: pool_reachable.induct)
  case (pool_start new_mem)
  then show ?case using assms(2,3) by (rule pool_inv_start)
next
  case (pool_move \<sigma> \<sigma>')
  from pool_move.hyps(2) pool_move.IH show ?case
  proof (cases rule: pool_sys_step.cases)
    case (call_acquire t)
    have "\<sigma>' = \<sigma>\<lparr>pm_calls := (pm_calls \<sigma>)(t \<mapsto> A_Start), pm_live := pm_live \<sigma>\<rparr>" using call_acquire by simp
    then show ?thesis using pool_inv_call [of t \<sigma> A_Start "pm_live \<sigma>"] call_acquire pool_move.IH by simp
  next
    case (call_release t x)
    then show ?thesis
      using pool_inv_call [of t \<sigma> "R_Start x" "pm_live \<sigma> - {#x#}"] pool_move.IH by simp
  next
    case (run_call t fr new_mem ctor_ok nxt p')
    then show ?thesis using pool_inv_run [OF pool_move.IH] by simp
  qed
qed

text \<open>The slots of the pool are distinct, those of a chunk that is being added included.\<close>

lemma unlinked_cases:
  assumes "pool_inv contents sz T \<sigma>"
  shows "\<exists>xs. distinct xs \<and>
    mset (all_slots sz (pm_pool \<sigma>)) + in_calls (unlinked_slots sz) T (pm_calls \<sigma>) = mset xs"
proof (cases "\<exists>t c is. pm_calls \<sigma> t = Some (A_Push c is)")
  case True
  then obtain t c "is" where c: "pm_calls \<sigma> t = Some (A_Push c is)" by blast
  have others: "u = t" if "pm_calls \<sigma> u = Some (A_Push d js)" for u d js
    using assms c that unfolding pool_inv_def by (metis holds_flag.simps(2))
  have t: "t \<in> T" and ok: "frame_ok sz t (pm_pool \<sigma>) (A_Push c is)"
    using assms c by (auto simp: pool_inv_def)
  have "(case pm_calls \<sigma> u of None \<Rightarrow> {#} | Some fr \<Rightarrow> unlinked_slots sz fr) = {#}" if "u \<noteq> t" for u
  proof (cases "pm_calls \<sigma> u")
    case (Some fr)
    with others that show ?thesis by (cases fr) auto
  qed simp
  then have "in_calls (unlinked_slots sz) T (pm_calls \<sigma>) = mset (chunk_slots sz c)"
    unfolding in_calls_def using t c threads_finite by (simp add: sum.remove sum.neutral)
  moreover have "distinct (concat (map (chunk_slots sz) (c # chunks (pm_pool \<sigma>))))"
    using assms ok size_pos
    by (intro slots_distinct) (auto simp: pool_inv_def chunks_apart_def frame_ok_def list_all_iff)
  ultimately show ?thesis
    by (intro exI [of _ "concat (map (chunk_slots sz) (c # chunks (pm_pool \<sigma>)))"])
      (simp add: all_slots_def ac_simps)
next
  case False
  then have "(case pm_calls \<sigma> u of None \<Rightarrow> {#} | Some fr \<Rightarrow> unlinked_slots sz fr) = {#}" for u
  proof (cases "pm_calls \<sigma> u")
    case (Some fr)
    with False show ?thesis by (cases fr) auto
  qed simp
  then have "in_calls (unlinked_slots sz) T (pm_calls \<sigma>) = {#}" by (simp add: in_calls_def)
  moreover have "distinct (all_slots sz (pm_pool \<sigma>))"
    using assms wf_distinct by (simp add: pool_inv_def)
  ultimately show ?thesis by (intro exI [of _ "all_slots sz (pm_pool \<sigma>)"]) simp
qed

lemma pool_step_no_fault:
  assumes "pool_inv contents sz T \<sigma>" and "pm_calls \<sigma> t = Some fr"
  shows "\<exists>r. pool_step Q sz new_mem ctor_ok t fr (pm_pool \<sigma>) = Inr r"
proof -
  have "frame_local sz t (pm_pool \<sigma>) fr" "batch_size (pm_pool \<sigma>) \<le> DEFAULT_BATCH_SIZE"
    using assms by (auto simp: pool_inv_def frame_ok_def pool_conf_def)
  then show ?thesis
    by (cases fr) (auto simp: steal_round_def split: option.split)
qed

end

section \<open>Properties of the pool under interleaving\<close>

definition call_slots :: "nat \<Rightarrow> nat set \<Rightarrow> 'q pool_sys \<Rightarrow> nat multiset" where
  "call_slots sz T \<sigma> = in_calls (frame_slots sz) T (pm_calls \<sigma>)"

definition racing_sys :: "nat list pool_sys" where
  "racing_sys = (pool_sys_start small_pool)\<lparr>pm_calls := [0 \<mapsto> A_Construct 4096, 1 \<mapsto> A_Start]\<rparr>
     \<lparr>pm_pool := set_tls_cache 0 (tl_cache_new 4 2) (small_pool\<lparr>free_queue := [4160]\<rparr>)\<rparr>"

lemma racing_sys_reachable: "pool_reachable list_queue 64 {0, 1} small_config racing_sys"
proof -
  note r = pool_reachable.pool_move
  let ?s0 = "pool_sys_start small_pool"
  let ?s1 = "?s0\<lparr>pm_calls := [0 \<mapsto> A_Start]\<rparr>"
  let ?s2 = "?s1\<lparr>pm_calls := [0 \<mapsto> A_Start, 1 \<mapsto> A_Start]\<rparr>"
  let ?p1 = "set_tls_cache 0 (tl_cache_new 4 2) small_pool"
  have fresh: "fresh_memory 64 (\<lambda>_. None) n cs" if "n \<le> 2" for n cs
    using that by (simp add: fresh_memory_def)
  have "pool_reachable list_queue 64 {0, 1} small_config ?s0"
    unfolding small_pool_def by (rule pool_reachable.pool_start) (simp add: fresh_memory_def small_config_def)
  moreover have "pool_sys_step list_queue 64 {0, 1} ?s0 ?s1"
    using pool_sys_step.call_acquire [of 0 "{0, 1}" ?s0] by (simp add: pool_sys_start_def)
  ultimately have "pool_reachable list_queue 64 {0, 1} small_config ?s1" by (rule r)
  moreover have "pool_sys_step list_queue 64 {0, 1} ?s1 ?s2"
    using pool_sys_step.call_acquire [of 1 "{0, 1}" ?s1] by (simp add: pool_sys_start_def)
  ultimately have "pool_reachable list_queue 64 {0, 1} small_config ?s2" by (rule r)
  moreover have "pool_sys_step list_queue 64 {0, 1} ?s2 (after_step 0 (Go A_Pop) ?p1 ?s2)"
    by (rule pool_sys_step.run_call [where fr = A_Start and new_mem = "\<lambda>_. None" and ctor_ok = True])
      (simp_all add: fresh pool_sys_start_def small_pool_eq cache_acquire_def try_acquire_def
        get_tls_cache_def tl_cache_new_def)
  ultimately have "pool_reachable list_queue 64 {0, 1} small_config (after_step 0 (Go A_Pop) ?p1 ?s2)"
    by (rule r)
  moreover have "pool_sys_step list_queue 64 {0, 1} (after_step 0 (Go A_Pop) ?p1 ?s2) racing_sys"
  proof -
    let ?s3 = "after_step 0 (Go A_Pop) ?p1 ?s2"
    have "pool_sys_step list_queue 64 {0, 1} ?s3
        (after_step 0 (Go (A_Construct 4096)) (?p1\<lparr>free_queue := [4160]\<rparr>) ?s3)"
      by (rule pool_sys_step.run_call [where fr = A_Pop and new_mem = "\<lambda>_. None" and ctor_ok = True])
        (simp_all add: fresh small_pool_eq pool_pop_def set_tls_cache_def)
    moreover have "after_step 0 (Go (A_Construct 4096)) (?p1\<lparr>free_queue := [4160]\<rparr>) ?s3 = racing_sys"
      by (simp add: racing_sys_def after_step_def pool_sys_start_def set_tls_cache_def fun_upd_twist)
    ultimately show ?thesis by simp
  qed
  ultimately show ?thesis by (rule r)
qed

text \<open>
  C10: However the steps of the threads interleave, no slot of a pool is in two places: the central
  queue, the thread caches, the calls under way and the live objects hold each slot at most once, and
  together all slots of the linked chunks. No step of a call faults. (The batch size must fit the array of
  \<open>batch_steal_from_central\<close> and, but for one object, a thread cache, as in the default configuration.)
\<close>

theorem interleaved_pool_exclusive:
  assumes "reliable_queue Q contents" and "0 < sz" and "finite T"
    and "cfg_batch_size cfg \<le> DEFAULT_BATCH_SIZE" and "cfg_batch_size cfg \<le> Suc (cfg_tls_cache_size cfg)"
    and "pool_reachable Q sz T cfg \<sigma>"
  shows "mset (all_slots sz (pm_pool \<sigma>)) \<subseteq># owned contents T (pm_pool \<sigma>) + pm_live \<sigma> + call_slots sz T \<sigma> \<and>
    count (owned contents T (pm_pool \<sigma>) + pm_live \<sigma> + call_slots sz T \<sigma>) x \<le> 1 \<and>
    (\<forall>fr. pm_calls \<sigma> t = Some fr \<longrightarrow> (\<exists>r. pool_step Q sz new_mem ctor_ok t fr (pm_pool \<sigma>) = Inr r))"
proof -
  have s: "pool_setting Q contents sz T"
    using assms(1-3) by (simp add: pool_setting_def pool_setting_axioms_def)
  have inv: "pool_inv contents sz T \<sigma>" by (rule pool_setting.pool_reachable_inv [OF s assms(6,4,5)])
  then have b: "owned contents T (pm_pool \<sigma>) + pm_live \<sigma> + call_slots sz T \<sigma> =
      mset (all_slots sz (pm_pool \<sigma>)) + in_calls (unlinked_slots sz) T (pm_calls \<sigma>)"
    by (simp add: pool_inv_def balanced_def call_slots_def)
  obtain xs where "distinct xs"
    "mset (all_slots sz (pm_pool \<sigma>)) + in_calls (unlinked_slots sz) T (pm_calls \<sigma>) = mset xs"
    using pool_setting.unlinked_cases [OF s inv] by blast
  then have "count (owned contents T (pm_pool \<sigma>) + pm_live \<sigma> + call_slots sz T \<sigma>) x \<le> 1"
    unfolding b by (simp add: distinct_count_atmost_1)
  with pool_setting.pool_step_no_fault [OF s inv] show ?thesis unfolding b by auto
qed

theorem interleaved_pool_exclusive_witness:
  "mset (all_slots 64 (pm_pool racing_sys)) \<subseteq>#
      owned (\<lambda>q. q) {0, 1} (pm_pool racing_sys) + pm_live racing_sys + call_slots 64 {0, 1} racing_sys \<and>
    count (owned (\<lambda>q. q) {0, 1} (pm_pool racing_sys) + pm_live racing_sys + call_slots 64 {0, 1} racing_sys) 4096 \<le> 1 \<and>
    (\<exists>r. pool_step list_queue 64 (\<lambda>_. None) True 1 A_Start (pm_pool racing_sys) = Inr r)"
proof -
  have "pm_calls racing_sys 1 = Some A_Start" by (simp add: racing_sys_def pool_sys_start_def)
  then show ?thesis
    using interleaved_pool_exclusive [OF lq.reliable_queue_axioms _ _ _ _ racing_sys_reachable, of 4096 1
        "\<lambda>_. None" True] by (simp add: small_config_def DEFAULT_BATCH_SIZE_def)
qed

section \<open>Two threads that race for an empty queue\<close>

definition two_calls ::
    "nat \<Rightarrow> nat \<Rightarrow> 'q object_pool \<Rightarrow> pool_frame option \<Rightarrow> pool_frame option \<Rightarrow> 'q pool_sys" where
  "two_calls t u p f g = \<lparr>pm_pool = p, pm_calls = (\<lambda>_. None)(t := f, u := g), pm_live = {#}\<rparr>"

definition any_memory :: "nat \<Rightarrow> nat option" where
  "any_memory _ = Some 4096"

locale racing_calls = reliable_queue Q contents
  for Q :: "'q lfq_ops" and contents :: "'q \<Rightarrow> nat list" +
  fixes sz :: nat and T :: "nat set" and cfg :: pool_config and t u :: nat
  assumes threads: "t \<in> T" "u \<in> T" "t \<noteq> u"
    and empty_start: "cfg_initial_count cfg = 0"
    and chunk_fits: "sz * cfg_chunk_size cfg < 2 ^ 64"
begin

abbreviation reach :: "'q object_pool \<Rightarrow> pool_frame option \<Rightarrow> pool_frame option \<Rightarrow> bool" where
  "reach p f g \<equiv> pool_reachable Q sz T cfg (two_calls t u p f g) \<and>
     fresh_memory sz any_memory (chunk_size p) (chunks p)"

lemma call_first: "reach p None g \<Longrightarrow> reach p (Some A_Start) g"
  using pool_reachable.pool_move [OF _ pool_sys_step.call_acquire [of t T "two_calls t u p None g" Q sz]] threads
  by (simp add: two_calls_def fun_upd_twist)

lemma call_second: "reach p f None \<Longrightarrow> reach p f (Some A_Start)"
  using pool_reachable.pool_move [OF _ pool_sys_step.call_acquire [of u T "two_calls t u p f None" Q sz]] threads
  by (simp add: two_calls_def fun_upd_twist)

lemma run_first:
  assumes "reach p (Some fr) g" and "pool_step Q sz any_memory True t fr p = Inr (Go fr', p')"
    and "chunks p' = chunks p"
  shows "reach p' (Some fr') g"
proof -
  have "pool_sys_step Q sz T (two_calls t u p (Some fr) g) (after_step t (Go fr') p' (two_calls t u p (Some fr) g))"
    using assms(1,2) threads
    by (intro pool_sys_step.run_call [where fr = fr and new_mem = any_memory and ctor_ok = True])
      (simp_all add: two_calls_def)
  moreover have "after_step t (Go fr') p' (two_calls t u p (Some fr) g) = two_calls t u p' (Some fr') g"
    using threads by (simp add: after_step_def two_calls_def fun_upd_twist)
  ultimately show ?thesis
    using assms(1,3) pool_step_frame [OF assms(2)] by (auto intro: pool_reachable.pool_move)
qed

lemma run_second:
  assumes "reach p f (Some fr)" and "pool_step Q sz any_memory True u fr p = Inr (Go fr', p')"
    and "chunks p' = chunks p"
  shows "reach p' f (Some fr')"
proof -
  have "pool_sys_step Q sz T (two_calls t u p f (Some fr)) (after_step u (Go fr') p' (two_calls t u p f (Some fr)))"
    using assms(1,2) threads
    by (intro pool_sys_step.run_call [where fr = fr and new_mem = any_memory and ctor_ok = True])
      (simp_all add: two_calls_def)
  moreover have "after_step u (Go fr') p' (two_calls t u p f (Some fr)) = two_calls t u p' f (Some fr')"
    using threads by (simp add: after_step_def two_calls_def)
  ultimately show ?thesis
    using assms(1,3) pool_step_frame [OF assms(2)] by (auto intro: pool_reachable.pool_move)
qed

text \<open>While the first thread is about to steal, the second adds a chunk.\<close>

lemma push_chunk:
  "reach p f (Some (A_Push c is)) \<Longrightarrow> list_all (\<lambda>i. i < chunk_count c) is \<Longrightarrow>
     \<exists>p'. reach p' f (Some (A_Push c [])) \<and> batch_size p' = batch_size p \<and>
       tls_cache_size p' = tls_cache_size p \<and> get_tls_cache t p' = get_tls_cache t p \<and>
       length (contents (free_queue p')) = length (contents (free_queue p)) + length is"
proof (induction "is" arbitrary: p)
  case (Cons i js)
  let ?p = "pool_push Q (chunk_memory c + sz * i) p"
  have "reach ?p f (Some (A_Push c js))"
    using Cons.prems by (intro run_second [OF Cons.prems(1)])
      (simp_all add: alloc_push_def get_slot_def pool_push_def)
  from Cons.IH [OF this] Cons.prems(2) show ?case by (auto simp: pool_push_def)
next
  case Nil
  then show ?case by (intro exI [of _ p]) simp
qed

lemma steal_some:
  "reach p (Some (A_Steal (k + m) batch)) g \<Longrightarrow> length batch + k \<le> DEFAULT_BATCH_SIZE \<Longrightarrow>
     k \<le> length (contents (free_queue p)) \<Longrightarrow>
     \<exists>p' batch'. reach p' (Some (A_Steal m batch')) g \<and> length batch' = length batch + k \<and>
       length (contents (free_queue p')) = length (contents (free_queue p)) - k \<and>
       tls_cache_size p' = tls_cache_size p \<and> get_tls_cache t p' = get_tls_cache t p"
proof (induction k arbitrary: p batch)
  case (Suc k)
  then obtain x xs where c: "contents (free_queue p) = x # xs" by (cases "contents (free_queue p)") auto
  then obtain q where q: "lfq_pop Q (free_queue p) = Some (x, q)" "contents q = xs" by (rule pop_nonempty)
  have "reach (p\<lparr>free_queue := q\<rparr>) (Some (A_Steal (k + m) (batch @ [x]))) g"
    using Suc.prems(2) q by (intro run_first [OF Suc.prems(1)]) (simp_all add: steal_round_def)
  from Suc.IH [OF this] Suc.prems(2,3) c q(2) show ?case by force
next
  case 0
  then show ?case by (intro exI [of _ p] exI [of _ batch]) simp
qed

lemma about_to_steal:
  "\<exists>p c. reach p (Some (A_Steal (cfg_batch_size cfg) [])) (Some (A_Push c [])) \<and>
     length (contents (free_queue p)) = cfg_chunk_size cfg \<and> cache (get_tls_cache t p) = [] \<and>
     max_cache_size (get_tls_cache t p) = cfg_tls_cache_size cfg"
proof -
  define p0 where "p0 = object_pool_new Q sz any_memory cfg"
  define q0 where "q0 = lfq_new Q (size_t 128)"
  have p0: "p0 = \<lparr>chunk_size = cfg_chunk_size cfg, tls_cache_size = cfg_tls_cache_size cfg,
      batch_size = cfg_batch_size cfg, free_queue = q0, chunks = [\<lparr>chunk_count = 0, chunk_memory = 4096\<rparr>],
      total_allocated = 0, allocating = False, tls = (\<lambda>_. None)\<rparr>"
    by (simp add: p0_def q0_def object_pool_new_def allocate_chunk_def any_memory_def empty_start Let_def
        size_t_def)
  have q0: "lfq_pop Q q0 = None" by (simp add: q0_def pop_None_iff new_contents)
  let ?n = "cfg_chunk_size cfg" and ?bs = "cfg_batch_size cfg"
  let ?new = "tl_cache_new (cfg_tls_cache_size cfg) ?bs"
  define p1 where "p1 = set_tls_cache t ?new p0"
  define p2 where "p2 = set_tls_cache u ?new p1"
  define c where "c = \<lparr>chunk_count = ?n, chunk_memory = 4096\<rparr>"
  have new_u: "get_tls_cache u p0 = ?new" by (simp add: get_tls_cache_def p0)
  have "pool_reachable Q sz T cfg (pool_sys_start p0)"
    unfolding p0_def by (rule pool_reachable.pool_start) (simp add: fresh_memory_def empty_start)
  then have "reach p0 None None"
    using chunk_fits
    by (simp add: pool_sys_start_def two_calls_def p0 fresh_memory_def chunk_region_def fun_upd_idem)
  then have "reach p0 (Some A_Start) None" by (rule call_first)
  then have "reach p1 (Some A_Pop) None"
    by (rule run_first) (simp_all add: cache_acquire_def get_tls_cache_def try_acquire_def tl_cache_new_def
        p0 p1_def)
  then have "reach p1 (Some (A_Steal ?bs [])) None"
    by (rule run_first) (simp_all add: pool_pop_def p1_def p0 q0)
  then have "reach p1 (Some (A_Steal ?bs [])) (Some A_Start)" by (rule call_second)
  then have "reach p2 (Some (A_Steal ?bs [])) (Some A_Pop)"
    by (rule run_second) (use threads in \<open>simp_all add: cache_acquire_def p1_def p2_def
        new_u try_acquire_def tl_cache_new_def\<close>)
  then have "reach p2 (Some (A_Steal ?bs [])) (Some (A_Steal ?bs []))"
    by (rule run_second) (simp_all add: pool_pop_def p1_def p2_def p0 q0)
  then have "reach p2 (Some (A_Steal ?bs [])) (Some A_Alloc)"
    by (rule run_second) (simp_all add: steal_round_def steal_end_def p1_def p2_def p0 q0)
  then have "reach (p2\<lparr>allocating := True\<rparr>) (Some (A_Steal ?bs [])) (Some A_New)"
    by (rule run_second) (simp_all add: alloc_enter_def p1_def p2_def p0)
  then have "reach (p2\<lparr>allocating := True\<rparr>) (Some (A_Steal ?bs [])) (Some (A_Push c [0..<?n]))"
    by (rule run_second) (simp_all add: alloc_new_def any_memory_def p1_def p2_def p0 c_def)
  from push_chunk [OF this] obtain p where p: "reach p (Some (A_Steal ?bs [])) (Some (A_Push c []))"
    "tls_cache_size p = tls_cache_size p2" "get_tls_cache t p = get_tls_cache t p2"
    "length (contents (free_queue p)) = length (contents (free_queue p2)) + ?n"
    by (auto simp: c_def list_all_iff)
  moreover have "get_tls_cache t p2 = ?new" using threads by (simp add: p2_def p1_def)
  moreover have "contents (free_queue p2) = []" by (simp add: p2_def p1_def p0 q0_def new_contents)
  ultimately show ?thesis by (auto simp: tl_cache_new_def)
qed

lemma steal_overflows:
  assumes "DEFAULT_BATCH_SIZE < cfg_batch_size cfg" and "DEFAULT_BATCH_SIZE < cfg_chunk_size cfg"
  shows "\<exists>p batch n g. reach p (Some (A_Steal n batch)) g \<and> steal_round Q t n batch p = Inl Out_Of_Bounds"
proof -
  obtain m where "0 < m" "DEFAULT_BATCH_SIZE + m = cfg_batch_size cfg"
    using less_imp_add_positive [OF assms(1)] by blast
  then have m: "cfg_batch_size cfg = DEFAULT_BATCH_SIZE + m" "0 < m" by simp_all
  obtain p c where "reach p (Some (A_Steal (cfg_batch_size cfg) [])) (Some (A_Push c [])) \<and>
      length (contents (free_queue p)) = cfg_chunk_size cfg"
    using about_to_steal by (elim exE conjE) (rule that, intro conjI)
  then have p: "reach p (Some (A_Steal (DEFAULT_BATCH_SIZE + m) [])) (Some (A_Push c []))"
    "length (contents (free_queue p)) = cfg_chunk_size cfg" by (simp_all only: m(1))
  have room: "length ([] :: nat list) + DEFAULT_BATCH_SIZE \<le> DEFAULT_BATCH_SIZE"
    "DEFAULT_BATCH_SIZE \<le> length (contents (free_queue p))" using assms(2) p(2) by simp_all
  obtain p' batch where p': "reach p' (Some (A_Steal m batch)) (Some (A_Push c []))"
    "length batch = length ([] :: nat list) + DEFAULT_BATCH_SIZE"
    "length (contents (free_queue p')) = length (contents (free_queue p)) - DEFAULT_BATCH_SIZE"
    using steal_some [OF p(1) room] by blast
  then have "contents (free_queue p') \<noteq> []" using assms(2) p(2) by fastforce
  then obtain x q where "lfq_pop Q (free_queue p') = Some (x, q)" using pop_None_iff by fastforce
  with p'(2) m(2) have "steal_round Q t m batch p' = Inl Out_Of_Bounds" by (simp add: steal_round_def)
  with p'(1) show ?thesis by blast
qed

end

text \<open>The race on the list queue, with a batch size above the length of the array.\<close>

definition large_batches :: pool_config where
  "large_batches = \<lparr>cfg_initial_count = 0, cfg_chunk_size = 20, cfg_tls_cache_size = 32, cfg_batch_size = 17\<rparr>"

interpretation two_racers: racing_calls list_queue "\<lambda>q. q" 64 "{0, 1}" large_batches 0 1
  by unfold_locales (simp_all add: large_batches_def)

text \<open>
  C38: With a batch size above 16, threads that race reach the overrun of the array in
  \<open>batch_steal_from_central\<close>, which no single thread does: one finds the central queue empty, another adds a
  chunk, then the first steals more objects than its array holds.
\<close>

theorem racing_steal_overflows:
  assumes "reliable_queue Q contents" and "t \<in> T" and "u \<in> T" and "t \<noteq> u"
    and "cfg_initial_count cfg = 0" and "sz * cfg_chunk_size cfg < 2 ^ 64"
    and "DEFAULT_BATCH_SIZE < cfg_batch_size cfg" and "DEFAULT_BATCH_SIZE < cfg_chunk_size cfg"
  shows "\<exists>\<sigma> fr. pool_reachable Q sz T cfg \<sigma> \<and> pm_calls \<sigma> t = Some fr \<and>
    pool_step Q sz new_mem ctor_ok t fr (pm_pool \<sigma>) = Inl Out_Of_Bounds"
proof -
  have "racing_calls Q contents sz T cfg t u"
    using assms(1-6) by (simp add: racing_calls_def racing_calls_axioms_def)
  from racing_calls.steal_overflows [OF this assms(7,8)] assms(4) show ?thesis
    by (fastforce simp: two_calls_def)
qed

theorem racing_steal_overflows_witness:
  "\<exists>\<sigma> fr. pool_reachable list_queue 64 {0, 1} large_batches \<sigma> \<and> pm_calls \<sigma> 0 = Some fr \<and>
    pool_step list_queue 64 (\<lambda>_. None) True 0 fr (pm_pool \<sigma>) = Inl Out_Of_Bounds"
  by (rule racing_steal_overflows [OF lq.reliable_queue_axioms, where u = 1])
    (simp_all add: large_batches_def DEFAULT_BATCH_SIZE_def)

end
