(* ===== verification/Net_IO.thy ===== *)
theory Net_IO
  imports Lockfree_Queue Ref_Count Session
begin

text \<open>
  The I/O layer (\<open>braid/src/service\<close>, \<open>net/\<close>): what the operations put into the submission queue,
  \<open>IORequestQueue\<close> and \<open>IOCompletion\<close>. liburing is not part of the repository: a ring is a value of an
  unknown type \<open>'r\<close> with the operations the code calls, and the locale \<open>io_ring\<close> says what they promise.
\<close>

section \<open>io_uring\<close>

text \<open>The entries the code prepares: the object the operation belongs to and the arguments.\<close>

datatype sqe =
    Prep_Accept nat int
  | Prep_Recv nat int nat nat
  | Prep_Send nat int "byte list"
  | Prep_Close nat int
  | Prep_Nop nat

text \<open>
  \<open>ur_add\<close> is \<open>io_uring_get_sqe\<close>, \<open>io_uring_prep_*\<close> and \<open>io_uring_sqe_set_data\<close> in one: \<open>None\<close> when the submission
  queue is full and \<open>get_sqe\<close> returns a null pointer. \<open>ur_wait\<close> is \<open>io_uring_wait_cqe_timeout\<close> (the timeout
  in nanoseconds) or \<open>io_uring_wait_cqe\<close>: a negative error, or user data and result of a completion.
\<close>

record 'r uring_ops =
  ur_init :: "nat \<Rightarrow> 'r"
  ur_add :: "sqe \<Rightarrow> nat \<Rightarrow> 'r \<Rightarrow> 'r option"
  ur_submit :: "'r \<Rightarrow> 'r"
  ur_wait :: "int option \<Rightarrow> 'r \<Rightarrow> (int + nat \<times> int) \<times> 'r"
  ur_seen :: "'r \<Rightarrow> 'r"

locale io_ring =
  fixes U :: "'r uring_ops"
    and pending :: "'r \<Rightarrow> nat multiset"
  assumes init_pending: "pending (ur_init U n) = {#}"
    and add_pending: "ur_add U e x r = Some r' \<Longrightarrow> pending r' = add_mset x (pending r)"
    and submit_pending [simp]: "pending (ur_submit U r) = pending r"
    and wait_completed: "ur_wait U t r = (Inr (x, res), r') \<Longrightarrow> pending r = add_mset x (pending r')"
    and wait_failed: "ur_wait U t r = (Inl err, r') \<Longrightarrow> err < 0 \<and> pending r' = pending r"
    and seen_pending [simp]: "pending (ur_seen U r) = pending r"

text \<open>
  The contract can be met: a ring that completes its operations in order, with the results of a
  given list, and times out when either list is exhausted.
\<close>

definition scripted_ring :: "int list \<Rightarrow> (nat list \<times> int list) uring_ops" where
  "scripted_ring script =
     \<lparr>ur_init = (\<lambda>_. ([], script)), ur_add = (\<lambda>e x (xs, rs). Some (xs @ [x], rs)), ur_submit = (\<lambda>r. r),
      ur_wait = (\<lambda>t (xs, rs). case (xs, rs) of (x # xs', res # rs') \<Rightarrow> (Inr (x, res), (xs', rs'))
                   | _ \<Rightarrow> (Inl (- 62), (xs, rs))),
      ur_seen = (\<lambda>r. r)\<rparr>"

interpretation scripted: io_ring "scripted_ring script" "\<lambda>r. mset (fst r)"
  by unfold_locales (auto simp: scripted_ring_def split: list.splits)

section \<open>Operations\<close>

record io_operation =
  op_object :: nat
  op_kind :: io_kind
  op_refs :: u32

text \<open>
  \<open>request_io\<close> of the four operations, and the virtual call. \<open>io_object_\<close> is never null: every operation
  is made from \<open>shared_from_this()\<close> of a session. \<open>fd\<close> is the socket of that session.
\<close>

definition add_sqe :: "'r uring_ops \<Rightarrow> sqe \<Rightarrow> nat \<Rightarrow> 'r \<Rightarrow> 'r outcome" where
  "add_sqe U e x r = (case ur_add U e x r of None \<Rightarrow> Inl Null_Dereference | Some r' \<Rightarrow> Inr r')"

definition accept_request_io :: "'r uring_ops \<Rightarrow> nat \<Rightarrow> nat \<Rightarrow> int \<Rightarrow> 'r \<Rightarrow> 'r outcome" where
  "accept_request_io U x ob listen_fd r = add_sqe U (Prep_Accept ob listen_fd) x r"

definition recv_request_io ::
    "'r uring_ops \<Rightarrow> nat \<Rightarrow> nat \<Rightarrow> int \<Rightarrow> nat \<Rightarrow> nat \<Rightarrow> 'r \<Rightarrow> 'r outcome" where
  "recv_request_io U x ob fd off len r = add_sqe U (Prep_Recv ob fd off len) x r"

definition send_request_io ::
    "'r uring_ops \<Rightarrow> nat \<Rightarrow> nat \<Rightarrow> int \<Rightarrow> send_buffer \<Rightarrow> 'r \<Rightarrow> 'r outcome" where
  "send_request_io U x ob fd sb r = add_sqe U (Prep_Send ob fd (get_buffer sb)) x r"

definition close_request_io :: "'r uring_ops \<Rightarrow> nat \<Rightarrow> nat \<Rightarrow> int \<Rightarrow> 'r \<Rightarrow> 'r outcome" where
  "close_request_io U x ob fd r =
     bind_outcome (add_sqe U (Prep_Close ob fd) x r) (\<lambda>r'. Inr (ur_submit U r'))"

definition op_request_io ::
    "'r uring_ops \<Rightarrow> (nat \<Rightarrow> int) \<Rightarrow> (nat \<Rightarrow> io_operation option) \<Rightarrow> nat \<Rightarrow> 'r \<Rightarrow> 'r outcome" where
  "op_request_io U fd_of ops x r =
     (case ops x of
        None \<Rightarrow> Inl Use_After_Free
      | Some opn \<Rightarrow>
          (case op_kind opn of
             Io_Accept listen_fd \<Rightarrow> accept_request_io U x (op_object opn) listen_fd r
           | Io_Recv off len \<Rightarrow> recv_request_io U x (op_object opn) (fd_of (op_object opn)) off len r
           | Io_Send_Buffer sb \<Rightarrow> send_request_io U x (op_object opn) (fd_of (op_object opn)) sb r
           | Io_Close \<Rightarrow> close_request_io U x (op_object opn) (fd_of (op_object opn)) r))"

text \<open>
  The two operations no other code makes: \<open>IOOperationSend\<close> sends the bytes its span refers to, and
  \<open>IOOperationNop\<close> is a base class for events, whose hooks \<open>on_event_request\<close> and \<open>on_event_completed\<close> are
  parameters. \<open>None\<close> is a null object or a null ring.
\<close>

definition send_span_request_io :: "'r uring_ops \<Rightarrow> nat \<Rightarrow> nat \<Rightarrow> int \<Rightarrow> byte list \<Rightarrow> 'r \<Rightarrow> 'r outcome" where
  "send_span_request_io U x ob fd bs r = add_sqe U (Prep_Send ob fd bs) x r"

definition send_span_completion :: "nat option \<Rightarrow> int \<Rightarrow> session \<Rightarrow> session \<times> service_call list" where
  "send_span_completion ob result ss =
     (if ob = None then (ss, []) else if result < 0 then (ss, []) else send_completion result ss)"

definition nop_request_io ::
    "'r uring_ops \<Rightarrow> nat \<Rightarrow> nat option \<Rightarrow> ('s \<Rightarrow> 's) \<Rightarrow> 'r option \<Rightarrow> 's \<Rightarrow> ('r option \<times> 's) outcome" where
  "nop_request_io U x ob on_event_request ring s =
     (case ob of
        None \<Rightarrow> Inr (ring, s)
      | Some object \<Rightarrow>
          (case ring of
             None \<Rightarrow> Inr (ring, s)
           | Some r \<Rightarrow>
               (let s' = on_event_request s
                in bind_outcome (add_sqe U (Prep_Nop object) x r) (\<lambda>r'. Inr (Some r', s')))))"

definition nop_completion :: "nat option \<Rightarrow> int \<Rightarrow> ('s \<Rightarrow> 's) \<Rightarrow> 's \<Rightarrow> 's" where
  "nop_completion ob result on_event_completed s =
     (if ob = None then s else if result < 0 then s else on_event_completed s)"

section \<open>IOCompletion\<close>

record io_completion =
  ic_ring :: bool
  ic_cqe :: bool
  ic_result :: int
  ic_operation :: "nat option"

text \<open>The three constructors; the move constructor gives the new object and what is left of the old.\<close>

definition completion_of_cqe :: "bool \<Rightarrow> (nat \<times> int) option \<Rightarrow> io_completion" where
  "completion_of_cqe ring cqe =
     (case cqe of
        None \<Rightarrow> \<lparr>ic_ring = ring, ic_cqe = False, ic_result = 0, ic_operation = None\<rparr>
      | Some (x, res) \<Rightarrow> \<lparr>ic_ring = ring, ic_cqe = True, ic_result = res, ic_operation = Some x\<rparr>)"

definition completion_of_error :: "int \<Rightarrow> io_completion" where
  "completion_of_error ret = \<lparr>ic_ring = False, ic_cqe = False, ic_result = ret, ic_operation = None\<rparr>"

definition completion_move :: "io_completion \<Rightarrow> io_completion \<times> io_completion" where
  "completion_move c =
     (\<lparr>ic_ring = ic_ring c, ic_cqe = ic_cqe c, ic_result = ic_result c, ic_operation = None\<rparr>,
      c\<lparr>ic_ring := False, ic_cqe := False, ic_result := 0\<rparr>)"

text \<open>The part of the destructor that concerns the ring.\<close>

definition completion_seen :: "'r uring_ops \<Rightarrow> io_completion \<Rightarrow> 'r \<Rightarrow> 'r" where
  "completion_seen U c r = (if ic_ring c \<and> ic_cqe c then ur_seen U r else r)"

section \<open>IORequestQueue\<close>

record ('q, 'r) request_queue =
  rq_queue :: 'q
  rq_ring :: 'r

definition request_queue_new :: "'q lfq_ops \<Rightarrow> 'r uring_ops \<Rightarrow> nat \<Rightarrow> ('q, 'r) request_queue" where
  "request_queue_new Q U depth = \<lparr>rq_queue = lfq_new Q depth, rq_ring = ur_init U depth\<rparr>"

text \<open>\<open>EINTR\<close> is 4, \<open>ETIME\<close> is 62. The nanoseconds are computed in \<open>int\<close>, also for a negative timeout.\<close>

definition wait_one ::
    "'r uring_ops \<Rightarrow> int \<Rightarrow> ('q, 'r) request_queue \<Rightarrow> (io_completion \<times> ('q, 'r) request_queue) outcome" where
  "wait_one U timeout_ms rq =
     bind_outcome (checked_int (timeout_ms * 1000000)) (\<lambda>nsec.
       let (ret, r) = ur_wait U (if 0 \<le> timeout_ms then Some nsec else None) (rq_ring rq)
       in Inr (case ret of
                 Inl e \<Rightarrow> if e = - 4 \<or> e = - 62 then completion_of_cqe False None else completion_of_error e
               | Inr cqe \<Rightarrow> completion_of_cqe True (Some cqe),
               rq\<lparr>rq_ring := r\<rparr>))"

definition submit :: "'r uring_ops \<Rightarrow> ('q, 'r) request_queue \<Rightarrow> ('q, 'r) request_queue" where
  "submit U rq = rq\<lparr>rq_ring := ur_submit U (rq_ring rq)\<rparr>"

text \<open>
  \<open>while (!push(operation) && count++ < 10)\<close>: the argument is what is left of the ten retries; the
  result of the last push is thrown away.
\<close>

fun push_retry :: "'q lfq_ops \<Rightarrow> nat \<Rightarrow> nat \<Rightarrow> 'q \<Rightarrow> 'q" where
  "push_retry Q 0 x q = (case lfq_push Q x q of Some q' \<Rightarrow> q' | None \<Rightarrow> q)"
| "push_retry Q (Suc n) x q = (case lfq_push Q x q of Some q' \<Rightarrow> q' | None \<Rightarrow> push_retry Q n x q)"

definition push_request :: "'q lfq_ops \<Rightarrow> nat \<Rightarrow> ('q, 'r) request_queue \<Rightarrow> ('q, 'r) request_queue" where
  "push_request Q x rq = rq\<lparr>rq_queue := push_retry Q 10 x (rq_queue rq)\<rparr>"

partial_function (option) flush_loop ::
    "'q lfq_ops \<Rightarrow> (nat \<Rightarrow> 'r \<Rightarrow> 'r outcome) \<Rightarrow> 'q \<Rightarrow> 'r \<Rightarrow> ('q \<times> 'r) outcome option" where
  "flush_loop Q req q r =
     (case lfq_pop Q q of
        None \<Rightarrow> Some (Inr (q, r))
      | Some (x, q') \<Rightarrow>
          (case req x r of Inl e \<Rightarrow> Some (Inl e) | Inr r' \<Rightarrow> flush_loop Q req q' r'))"

definition flush_requests ::
    "'q lfq_ops \<Rightarrow> 'r uring_ops \<Rightarrow> (nat \<Rightarrow> 'r \<Rightarrow> 'r outcome) \<Rightarrow> ('q, 'r) request_queue
       \<Rightarrow> ('q, 'r) request_queue outcome option" where
  "flush_requests Q U req rq =
     (if lfq_empty Q (rq_queue rq) then Some (Inr rq)
      else map_option (\<lambda>res. bind_outcome res (\<lambda>(q, r). Inr (submit U \<lparr>rq_queue = q, rq_ring = r\<rparr>)))
             (flush_loop Q req (rq_queue rq) (rq_ring rq)))"

section \<open>Flushing\<close>

fun submit_each :: "(nat \<Rightarrow> 'r \<Rightarrow> 'r outcome) \<Rightarrow> nat list \<Rightarrow> 'r \<Rightarrow> 'r outcome" where
  "submit_each req [] r = Inr r"
| "submit_each req (x # xs) r = bind_outcome (req x r) (submit_each req xs)"

context lockfree_queue
begin

text \<open>The loop returns, and has handed the queue over from the front; it stops early only on a fault.\<close>

lemma flush_loop_spec:
  "\<exists>q'. contents q' = [] \<and>
     flush_loop Q req q r = Some (bind_outcome (submit_each req (contents q) r) (\<lambda>r'. Inr (q', r')))"
proof (induction "contents q" arbitrary: q r)
  case Nil
  then have "lfq_pop Q q = None" by (simp add: pop_None_iff)
  with Nil show ?case by (auto simp: flush_loop.simps [of Q req q r] intro: exI [of _ q])
next
  case (Cons x xs)
  from Cons.hyps(2) [symmetric] obtain q1 where q1: "lfq_pop Q q = Some (x, q1)" "contents q1 = xs"
    by (rule pop_nonempty)
  show ?case
  proof (cases "req x r")
    case (Inl e)
    have "contents (lfq_new Q 0) = []" by (rule new_contents)
    moreover have "flush_loop Q req q r = Some (Inl e)"
      by (simp add: flush_loop.simps [of Q req q r] q1 Inl)
    ultimately show ?thesis using Cons.hyps(2) [symmetric] by (intro exI [of _ "lfq_new Q 0"]) (simp add: Inl)
  next
    case (Inr r1)
    from Cons.hyps(1) [OF q1(2) [symmetric], of r1] q1 Cons.hyps(2) [symmetric] show ?thesis
      by (simp add: flush_loop.simps [of Q req q r] Inr)
  qed
qed

lemma flush_requests_spec:
  "\<exists>q'. contents q' = [] \<and>
     flush_requests Q U req rq = Some (bind_outcome (submit_each req (contents (rq_queue rq)) (rq_ring rq))
       (\<lambda>r'. Inr (if contents (rq_queue rq) = [] then rq else \<lparr>rq_queue = q', rq_ring = ur_submit U r'\<rparr>)))"
proof -
  obtain q' where q': "contents q' = []" and loop: "flush_loop Q req (rq_queue rq) (rq_ring rq) =
      Some (bind_outcome (submit_each req (contents (rq_queue rq)) (rq_ring rq)) (\<lambda>r'. Inr (q', r')))"
    using flush_loop_spec [of req "rq_queue rq" "rq_ring rq"] by blast
  have "flush_requests Q U req rq = Some (bind_outcome (submit_each req (contents (rq_queue rq)) (rq_ring rq))
      (\<lambda>r'. Inr (if contents (rq_queue rq) = [] then rq else \<lparr>rq_queue = q', rq_ring = ur_submit U r'\<rparr>)))"
  proof (cases "contents (rq_queue rq) = []")
    case True
    then show ?thesis by (simp add: flush_requests_def empty_contents)
  next
    case False
    then show ?thesis
      by (cases "submit_each req (contents (rq_queue rq)) (rq_ring rq)")
        (simp_all add: flush_requests_def empty_contents submit_def loop)
  qed
  with q' show ?thesis by blast
qed

lemma push_retry_contents:
  "contents (push_retry Q n x q) = contents q @ [x] \<or> contents (push_retry Q n x q) = contents q"
  by (induction n) (auto simp: push_contents split: option.split)

end

context reliable_queue
begin

lemma push_retry_appends [simp]: "contents (push_retry Q n x q) = contents q @ [x]"
  using push_succeeds [of x q] by (cases n) (auto simp: push_contents split: option.split)

end

context io_ring
begin

lemma op_request_pending:
  assumes "op_request_io U fd_of ops x r = Inr r'"
  shows "pending r' = add_mset x (pending r)" and "ops x \<noteq> None"
  using assms
  by (auto simp: op_request_io_def accept_request_io_def recv_request_io_def send_request_io_def
      close_request_io_def add_sqe_def add_pending outcome_simps split: option.splits io_kind.splits)

lemma submit_each_pending:
  "submit_each (op_request_io U fd_of ops) xs r = Inr r' \<Longrightarrow> pending r' = pending r + mset xs"
  by (induction xs arbitrary: r) (auto simp: outcome_simps dest: op_request_pending)

lemma submit_each_succeeds:
  assumes "\<And>e x r. ur_add U e x r \<noteq> None"
  shows "\<forall>x\<in>set xs. ops x \<noteq> None \<Longrightarrow> \<exists>r'. submit_each (op_request_io U fd_of ops) xs r = Inr r'"
proof (induction xs arbitrary: r)
  case (Cons x xs)
  then obtain opn where opn: "ops x = Some opn" by auto
  have "\<exists>r1. add_sqe U e x r = Inr r1" for e using assms by (auto simp: add_sqe_def split: option.split)
  then have "\<exists>r1. op_request_io U fd_of ops x r = Inr r1"
    by (auto simp: op_request_io_def opn accept_request_io_def recv_request_io_def send_request_io_def
        close_request_io_def outcome_simps split: io_kind.split)
  with Cons show ?case by auto
qed simp

end

section \<open>Properties\<close>



text \<open>
  A request that finds the queue full is lost: when the queue has no room for the operation,
  \<open>push_request\<close> gives up after its retries and returns with the queue unchanged, without any sign
  of it to the caller.
\<close>

theorem push_request_drops_silently:
  assumes "lfq_push Q x (rq_queue rq) = None"
  shows "push_request Q x rq = rq"
proof -
  have "push_retry Q n x (rq_queue rq) = rq_queue rq" for n
    using assms by (induction n) simp_all
  then show ?thesis by (simp add: push_request_def)
qed

theorem push_request_drops_silently_witness:
  "push_request (list_queue\<lparr>lfq_push := (\<lambda>x q. if length q < 2 then Some (q @ [x]) else None)\<rparr>) 9
     \<lparr>rq_queue = [1, 2], rq_ring = ()\<rparr> = \<lparr>rq_queue = [1, 2], rq_ring = ()\<rparr>"
  by (rule push_request_drops_silently) simp

text \<open>
  The timeout of \<open>wait_one\<close> is limited to 2147 milliseconds: outside \<open>-2147..2147\<close> the
  multiplication that computes the nanoseconds overflows \<open>int\<close>; inside it the call is defined.
\<close>

theorem wait_one_defined_iff:
  "wait_one U timeout_ms rq \<noteq> Inl Signed_Overflow \<longleftrightarrow> - 2147 \<le> timeout_ms \<and> timeout_ms \<le> 2147"
proof -
  have "fits_int (timeout_ms * 1000000) \<longleftrightarrow> - 2147 \<le> timeout_ms \<and> timeout_ms \<le> 2147"
    by (auto simp: fits_int_def)
  then show ?thesis by (auto simp: wait_one_def checked_int_def Let_def split: prod.split)
qed

end
