(* ===== verification/Service_Loop.thy ===== *)
theory Service_Loop
  imports Net_IO "HOL-Library.Signed_Division"
begin

text \<open>
  \<open>Service\<close> (\<open>service/Service.h\<close>, \<open>.cc\<close>), \<open>ServiceBuilder\<close> and the worker threads (\<open>thread/\<close>): the session
  pool, the distribution of I/O requests over the workers, and the routine of a worker, which runs
  the sessions and operations of \<open>Session\<close> and \<open>Net_IO\<close>. One call of \<open>routine\<close> is one step of the
  service; the worker threads take turns in any order.
\<close>

section \<open>State\<close>

text \<open>
  The template parameter \<open>T\<close> of \<open>request_io<T>\<close> and of the members of \<open>IOPool\<close> is one of the four operation
  classes. \<open>IOPool\<close> is used through two calls, here a parameter; \<open>IO_Pool\<close> models them on the object pools of
  \<open>Memory_Pool\<close>.
\<close>

datatype io_type = Type_Recv | Type_Send_Buffer | Type_Accept | Type_Close

fun io_type_of :: "io_kind \<Rightarrow> io_type" where
  "io_type_of (Io_Recv off len) = Type_Recv"
| "io_type_of (Io_Send_Buffer sb) = Type_Send_Buffer"
| "io_type_of (Io_Accept fd) = Type_Accept"
| "io_type_of Io_Close = Type_Close"

record 'p op_pool =
  op_acquire :: "io_type \<Rightarrow> 'p \<Rightarrow> nat option \<times> 'p"
  op_release :: "io_type \<Rightarrow> nat \<Rightarrow> 'p \<Rightarrow> 'p"

text \<open>A session is named by its index in \<open>sessions\<close>; \<open>user\<close> is the state of the registered handlers.\<close>

record ('q, 'r, 'p, 's) service =
  session_count :: int
  thread_count :: int
  queue_depth_per_thread :: int
  backlog :: int
  acceptor_fd :: int
  request_index :: u32
  worker_threads :: "('q, 'r) request_queue list"
  sessions :: "session list"
  sessions_queue :: 'q
  io_ops :: "nat \<Rightarrow> io_operation option"
  io_pool :: 'p
  user :: 's

section \<open>Requests\<close>

text \<open>
  \<open>request_io(int, IOOperation*)\<close> and \<open>request_io(IOOperation*)\<close>. \<open>request_index_++\<close> wraps around, the
  remainder is C++'s: it has the sign of the dividend, and is not defined for a divisor 0 (nor for
  the least \<open>int\<close> by \<open>-1\<close>).
\<close>

definition request_io_at ::
    "'q lfq_ops \<Rightarrow> int \<Rightarrow> nat \<Rightarrow> ('q, 'r, 'p, 's) service \<Rightarrow> ('q, 'r, 'p, 's) service outcome" where
  "request_io_at Q i x \<sigma> =
     (if i < 0 \<or> thread_count \<sigma> \<le> i then Inr \<sigma>
      else if length (worker_threads \<sigma>) \<le> nat i then Inl Out_Of_Bounds
      else Inr (\<sigma>\<lparr>worker_threads :=
             (worker_threads \<sigma>)[nat i := push_request Q x (worker_threads \<sigma> ! nat i)]\<rparr>))"

definition request_io ::
    "'q lfq_ops \<Rightarrow> nat \<Rightarrow> ('q, 'r, 'p, 's) service \<Rightarrow> ('q, 'r, 'p, 's) service outcome" where
  "request_io Q x \<sigma> =
     (let index = sint (request_index \<sigma>); \<sigma>1 = \<sigma>\<lparr>request_index := request_index \<sigma> + 1\<rparr>
      in if thread_count \<sigma> = 0 then Inl Division_By_Zero
         else if \<not> fits_int (index sdiv thread_count \<sigma>) then Inl Signed_Overflow
         else request_io_at Q (index smod thread_count \<sigma>) x \<sigma>1)"

text \<open>\<open>request_io<T>(args...)\<close>: the operation is constructed in a slot of the pool of its type, with one reference.\<close>

definition request_io_new ::
    "'q lfq_ops \<Rightarrow> 'p op_pool \<Rightarrow> nat \<Rightarrow> io_kind \<Rightarrow> ('q, 'r, 'p, 's) service
       \<Rightarrow> ('q, 'r, 'p, 's) service outcome" where
  "request_io_new Q P s kind \<sigma> =
     (case op_acquire P (io_type_of kind) (io_pool \<sigma>) of
        (None, p) \<Rightarrow> Inr (\<sigma>\<lparr>io_pool := p\<rparr>)
      | (Some x, p) \<Rightarrow>
          request_io Q x
            (\<sigma>\<lparr>io_pool := p,
               io_ops := (io_ops \<sigma>)(x \<mapsto> \<lparr>op_object = s, op_kind = kind, op_refs = add_ref 0\<rparr>)\<rparr>))"

text \<open>
  \<open>request_accept_one\<close>; \<open>ServiceSession::request_accept\<close> is a request for the session that was popped
  (the service is alive while it runs).
\<close>

definition request_accept_one ::
    "'q lfq_ops \<Rightarrow> 'p op_pool \<Rightarrow> ('q, 'r, 'p, 's) service \<Rightarrow> ('q, 'r, 'p, 's) service outcome" where
  "request_accept_one Q P \<sigma> =
     (case lfq_pop Q (sessions_queue \<sigma>) of
        None \<Rightarrow> Inr \<sigma>
      | Some (s, q) \<Rightarrow> request_io_new Q P s (Io_Accept (acceptor_fd \<sigma>)) (\<sigma>\<lparr>sessions_queue := q\<rparr>))"

definition on_session_closed ::
    "'q lfq_ops \<Rightarrow> 'p op_pool \<Rightarrow> nat \<Rightarrow> ('q, 'r, 'p, 's) service \<Rightarrow> ('q, 'r, 'p, 's) service outcome" where
  "on_session_closed Q P s \<sigma> =
     request_accept_one Q P (\<sigma>\<lparr>sessions_queue := push_ignore Q s (sessions_queue \<sigma>)\<rparr>)"

text \<open>The calls a session has made, in their order.\<close>

fun run_call ::
    "'q lfq_ops \<Rightarrow> 'p op_pool \<Rightarrow> service_call \<Rightarrow> ('q, 'r, 'p, 's) service
       \<Rightarrow> ('q, 'r, 'p, 's) service outcome" where
  "run_call Q P (Call_Request_Io s kind) \<sigma> = request_io_new Q P s kind \<sigma>"
| "run_call Q P Call_Accept_One \<sigma> = request_accept_one Q P \<sigma>"
| "run_call Q P (Call_Session_Closed s) \<sigma> = on_session_closed Q P s \<sigma>"

fun run_calls ::
    "'q lfq_ops \<Rightarrow> 'p op_pool \<Rightarrow> service_call list \<Rightarrow> ('q, 'r, 'p, 's) service
       \<Rightarrow> ('q, 'r, 'p, 's) service outcome" where
  "run_calls Q P [] \<sigma> = Inr \<sigma>"
| "run_calls Q P (c # cs) \<sigma> = bind_outcome (run_call Q P c \<sigma>) (run_calls Q P cs)"

section \<open>Start\<close>

text \<open>\<open>int\<close> arguments become \<open>size_t\<close>: a negative depth asks for a huge queue.\<close>

definition as_size_t :: "int \<Rightarrow> nat" where
  "as_size_t i = nat (i mod 2 ^ 64)"

definition initialize_threads ::
    "'q lfq_ops \<Rightarrow> 'r uring_ops \<Rightarrow> ('q, 'r, 'p, 's) service \<Rightarrow> ('q, 'r, 'p, 's) service" where
  "initialize_threads Q U \<sigma> =
     \<sigma>\<lparr>worker_threads := worker_threads \<sigma> @
        replicate (nat (thread_count \<sigma>)) (request_queue_new Q U (as_size_t (queue_depth_per_thread \<sigma>)))\<rparr>"

text \<open>One session is constructed and pushed per round, then one accept is requested per round.\<close>

fun make_sessions :: "'q lfq_ops \<Rightarrow> nat \<Rightarrow> ('q, 'r, 'p, 's) service \<Rightarrow> ('q, 'r, 'p, 's) service" where
  "make_sessions Q 0 \<sigma> = \<sigma>"
| "make_sessions Q (Suc n) \<sigma> =
     make_sessions Q n (\<sigma>\<lparr>sessions_queue := push_ignore Q (length (sessions \<sigma>)) (sessions_queue \<sigma>),
                           sessions := sessions \<sigma> @ [new_session]\<rparr>)"

fun accept_loop ::
    "'q lfq_ops \<Rightarrow> 'p op_pool \<Rightarrow> nat \<Rightarrow> ('q, 'r, 'p, 's) service \<Rightarrow> ('q, 'r, 'p, 's) service outcome" where
  "accept_loop Q P 0 \<sigma> = Inr \<sigma>"
| "accept_loop Q P (Suc n) \<sigma> = bind_outcome (request_accept_one Q P \<sigma>) (accept_loop Q P n)"

definition initialize ::
    "'q lfq_ops \<Rightarrow> 'r uring_ops \<Rightarrow> 'p op_pool \<Rightarrow> ('q, 'r, 'p, 's) service
       \<Rightarrow> ('q, 'r, 'p, 's) service outcome" where
  "initialize Q U P \<sigma> =
     accept_loop Q P (nat (backlog \<sigma>))
       (make_sessions Q (nat (session_count \<sigma>)) (initialize_threads Q U \<sigma>))"

section \<open>Completions\<close>

text \<open>
  \<open>handle_io_completion\<close> of the operation in its session. What user handlers ask for while they run
  is collected in their state and taken out by \<open>drain\<close>; it precedes the next receive request.
\<close>

definition set_session :: "nat \<Rightarrow> session \<Rightarrow> ('q, 'r, 'p, 's) service \<Rightarrow> ('q, 'r, 'p, 's) service" where
  "set_session s ss \<sigma> = \<sigma>\<lparr>sessions := (sessions \<sigma>)[s := ss]\<rparr>"

definition handle_operation ::
    "'s handlers \<Rightarrow> io_operation \<Rightarrow> int \<Rightarrow> session \<Rightarrow> 's \<Rightarrow> (session \<times> 's \<times> service_call list) outcome option" where
  "handle_operation handlers opn result ss u =
     (let s = op_object opn;
          keep = (\<lambda>(ss', calls). Some (Inr (ss', u, calls)))
      in case op_kind opn of
           Io_Recv off len \<Rightarrow> recv_completion handlers s True result ss u
         | Io_Send_Buffer sb \<Rightarrow> keep (send_completion result ss)
         | Io_Accept fd \<Rightarrow> keep (accept_completion s True result ss)
         | Io_Close \<Rightarrow> keep (close_completion result ss))"

definition handle_completion ::
    "'q lfq_ops \<Rightarrow> 'p op_pool \<Rightarrow> 's handlers \<Rightarrow> ('s \<Rightarrow> service_call list \<times> 's) \<Rightarrow> io_completion
       \<Rightarrow> ('q, 'r, 'p, 's) service \<Rightarrow> ('q, 'r, 'p, 's) service outcome option" where
  "handle_completion Q P handlers drain c \<sigma> =
     (case ic_operation c of
        None \<Rightarrow> Some (Inr \<sigma>)
      | Some x \<Rightarrow>
          (case io_ops \<sigma> x of
             None \<Rightarrow> Some (Inl Use_After_Free)
           | Some opn \<Rightarrow>
               if length (sessions \<sigma>) \<le> op_object opn then Some (Inl Use_After_Free)
               else map_option (\<lambda>res. bind_outcome res (\<lambda>(ss', u, calls).
                      let (user_calls, u') = drain u
                      in run_calls Q P (user_calls @ calls)
                           (set_session (op_object opn) ss' (\<sigma>\<lparr>user := u'\<rparr>))))
                    (handle_operation handlers opn (ic_result c) (sessions \<sigma> ! op_object opn) (user \<sigma>))))"

text \<open>
  The last release of an operation runs \<open>on_zero_ref\<close>, which gives it back to the pool of its type; the destructor of
  \<open>IOCompletion\<close> marks the entry as seen and then releases the operation.
\<close>

definition release_op ::
    "'p op_pool \<Rightarrow> nat \<Rightarrow> ('q, 'r, 'p, 's) service \<Rightarrow> ('q, 'r, 'p, 's) service outcome" where
  "release_op P x \<sigma> =
     (case io_ops \<sigma> x of
        None \<Rightarrow> Inl Use_After_Free
      | Some opn \<Rightarrow>
          bind_outcome (release_ref (op_refs opn)) (\<lambda>(n, final).
            Inr (if final then \<sigma>\<lparr>io_ops := (io_ops \<sigma>)(x := None),
                   io_pool := op_release P (io_type_of (op_kind opn)) x (io_pool \<sigma>)\<rparr>
                 else \<sigma>\<lparr>io_ops := (io_ops \<sigma>)(x \<mapsto> opn\<lparr>op_refs := n\<rparr>)\<rparr>)))"

definition set_worker ::
    "nat \<Rightarrow> ('q, 'r) request_queue \<Rightarrow> ('q, 'r, 'p, 's) service \<Rightarrow> ('q, 'r, 'p, 's) service" where
  "set_worker i rq \<sigma> = \<sigma>\<lparr>worker_threads := (worker_threads \<sigma>)[i := rq]\<rparr>"

definition destroy_completion ::
    "'r uring_ops \<Rightarrow> 'p op_pool \<Rightarrow> nat \<Rightarrow> io_completion \<Rightarrow> ('q, 'r, 'p, 's) service
       \<Rightarrow> ('q, 'r, 'p, 's) service outcome" where
  "destroy_completion U P i c \<sigma> =
     (let rq = worker_threads \<sigma> ! i;
          \<sigma>1 = set_worker i (rq\<lparr>rq_ring := completion_seen U c (rq_ring rq)\<rparr>) \<sigma>
      in case ic_operation c of None \<Rightarrow> Inr \<sigma>1 | Some x \<Rightarrow> release_op P x \<sigma>1)"

section \<open>WorkerThread::routine\<close>

text \<open>
  \<open>wait_one(0)\<close>, \<open>handle_completion\<close>, \<open>flush_requests\<close>; the poll of the task distributor is the
  \<open>F_Poll TU_Worker\<close> of \<open>Task_Machine\<close> and changes nothing here; the completion is destroyed on return.
\<close>

definition session_fd :: "('q, 'r, 'p, 's) service \<Rightarrow> nat \<Rightarrow> int" where
  "session_fd \<sigma> s = (if s < length (sessions \<sigma>) then socket_fd (sessions \<sigma> ! s) else - 1)"

definition flush_worker ::
    "'q lfq_ops \<Rightarrow> 'r uring_ops \<Rightarrow> nat \<Rightarrow> ('q, 'r, 'p, 's) service
       \<Rightarrow> ('q, 'r, 'p, 's) service outcome option" where
  "flush_worker Q U i \<sigma> =
     map_option (\<lambda>res. bind_outcome res (\<lambda>rq. Inr (set_worker i rq \<sigma>)))
       (flush_requests Q U (op_request_io U (session_fd \<sigma>) (io_ops \<sigma>)) (worker_threads \<sigma> ! i))"

definition bind_loop :: "'a outcome option \<Rightarrow> ('a \<Rightarrow> 'b outcome option) \<Rightarrow> 'b outcome option" where
  "bind_loop m f = (case m of None \<Rightarrow> None | Some (Inl e) \<Rightarrow> Some (Inl e) | Some (Inr x) \<Rightarrow> f x)"

definition routine ::
    "'q lfq_ops \<Rightarrow> 'r uring_ops \<Rightarrow> 'p op_pool \<Rightarrow> 's handlers \<Rightarrow> ('s \<Rightarrow> service_call list \<times> 's) \<Rightarrow> nat
       \<Rightarrow> ('q, 'r, 'p, 's) service \<Rightarrow> ('q, 'r, 'p, 's) service outcome option" where
  "routine Q U P handlers drain i \<sigma> =
     bind_loop (Some (wait_one U 0 (worker_threads \<sigma> ! i))) (\<lambda>(c, rq).
     bind_loop (handle_completion Q P handlers drain c (set_worker i rq \<sigma>)) (\<lambda>\<sigma>1.
     bind_loop (flush_worker Q U i \<sigma>1) (\<lambda>\<sigma>2.
       Some (destroy_completion U P i c \<sigma>2))))"

text \<open>
  The service runs: its workers execute their routines in any order, and the kernel writes the bytes it
  receives into the buffers of the sessions. Of these writes nothing is assumed here but that they stay
  inside a buffer. \<open>P i\<close> is the pool as the thread of worker \<open>i\<close> calls it, with its own thread-local cache.
\<close>

inductive service_run ::
    "'q lfq_ops \<Rightarrow> 'r uring_ops \<Rightarrow> (nat \<Rightarrow> 'p op_pool) \<Rightarrow> 's handlers \<Rightarrow> ('s \<Rightarrow> service_call list \<times> 's)
       \<Rightarrow> ('q, 'r, 'p, 's) service \<Rightarrow> ('q, 'r, 'p, 's) service \<Rightarrow> bool"
  for Q U P handlers drain where
  no_step: "service_run Q U P handlers drain \<sigma> \<sigma>"
| worker_step: "service_run Q U P handlers drain \<sigma> \<sigma>1 \<Longrightarrow> i < length (worker_threads \<sigma>1) \<Longrightarrow>
     routine Q U (P i) handlers drain i \<sigma>1 = Some (Inr \<sigma>2) \<Longrightarrow> service_run Q U P handlers drain \<sigma> \<sigma>2"
| kernel_write: "service_run Q U P handlers drain \<sigma> \<sigma>1 \<Longrightarrow> s < length (sessions \<sigma>1) \<Longrightarrow>
     mem_write off bs (rx_buffer (sessions \<sigma>1 ! s)) = Inr buf \<Longrightarrow>
     service_run Q U P handlers drain \<sigma> (set_session s ((sessions \<sigma>1 ! s)\<lparr>rx_buffer := buf\<rparr>) \<sigma>1)"

section \<open>ServiceBuilder\<close>

text \<open>
  A builder holds its service until it is built. \<open>sin_port\<close> and \<open>s_addr\<close> are in network byte order;
  \<open>inet_pton\<close> is a parameter and leaves the address as it is when it fails, which nothing checks. The
  system calls of \<open>build_acceptor\<close> are recorded; the descriptor that \<open>socket\<close> returns is a parameter, and
  no result of the calls is used by the code.
\<close>

record sockaddr_in =
  sin_family :: "16 word"
  sin_port :: "16 word"
  s_addr :: u32

datatype socket_call =
    Sys_Socket
  | Sys_Setsockopt_Reuse int
  | Sys_Bind int sockaddr_in
  | Sys_Listen int int

record ('q, 'r, 'p, 's) builder =
  service_instance :: "('q, 'r, 'p, 's) service option"
  listen_fd :: int
  builder_backlog :: int
  acceptor_addr :: sockaddr_in

definition service_new :: "'q lfq_ops \<Rightarrow> nat \<Rightarrow> 'p \<Rightarrow> 's \<Rightarrow> ('q, 'r, 'p, 's) service" where
  "service_new Q garbage p u =
     \<lparr>session_count = 1000, thread_count = 4, queue_depth_per_thread = 1024, backlog = 4096,
      acceptor_fd = - 1, request_index = 0, worker_threads = [], sessions = [],
      sessions_queue = lfq_new Q garbage, io_ops = Map.empty, io_pool = p, user = u\<rparr>"

text \<open>\<open>acceptor_addr_\<close> has no initializer: its first value is a parameter.\<close>

definition builder_new :: "sockaddr_in \<Rightarrow> ('q, 'r, 'p, 's) service \<Rightarrow> ('q, 'r, 'p, 's) builder" where
  "builder_new garbage sv =
     \<lparr>service_instance = Some sv, listen_fd = - 1, builder_backlog = 128, acceptor_addr = garbage\<rparr>"

definition AF_INET :: "16 word" where "AF_INET = 2"
definition INADDR_ANY :: u32 where "INADDR_ANY = 0"

definition htons :: "16 word \<Rightarrow> 16 word" where
  "htons w = or (push_bit 8 w) (drop_bit 8 w)"

definition set_address ::
    "(string \<Rightarrow> u32 option) \<Rightarrow> string \<Rightarrow> int \<Rightarrow> ('q, 'r, 'p, 's) builder \<Rightarrow> ('q, 'r, 'p, 's) builder" where
  "set_address inet_pton address port b =
     (let a = (acceptor_addr b)\<lparr>sin_family := AF_INET, sin_port := htons (word_of_int port)\<rparr>
      in b\<lparr>acceptor_addr :=
             (if address = [] then a\<lparr>s_addr := INADDR_ANY\<rparr>
              else (case inet_pton address of None \<Rightarrow> a | Some ip \<Rightarrow> a\<lparr>s_addr := ip\<rparr>))\<rparr>)"

definition on_instance ::
    "(('q, 'r, 'p, 's) service \<Rightarrow> ('q, 'r, 'p, 's) service) \<Rightarrow> ('q, 'r, 'p, 's) builder
       \<Rightarrow> ('q, 'r, 'p, 's) builder outcome" where
  "on_instance f b =
     (case service_instance b of
        None \<Rightarrow> Inl Null_Dereference
      | Some sv \<Rightarrow> Inr (b\<lparr>service_instance := Some (f sv)\<rparr>))"

definition set_backlog :: "int \<Rightarrow> ('q, 'r, 'p, 's) builder \<Rightarrow> ('q, 'r, 'p, 's) builder" where
  "set_backlog n b = b\<lparr>builder_backlog := n\<rparr>"

definition set_thread_count where
  "set_thread_count n = on_instance (\<lambda>sv. sv\<lparr>thread_count := n\<rparr>)"

definition set_session_count where
  "set_session_count n = on_instance (\<lambda>sv. sv\<lparr>session_count := n\<rparr>)"

definition set_queue_depth_per_thread where
  "set_queue_depth_per_thread n = on_instance (\<lambda>sv. sv\<lparr>queue_depth_per_thread := n\<rparr>)"

definition build_acceptor :: "int \<Rightarrow> ('q, 'r, 'p, 's) builder \<Rightarrow> socket_call list \<times> int" where
  "build_acceptor fd b =
     ([Sys_Socket, Sys_Setsockopt_Reuse fd, Sys_Bind fd (acceptor_addr b), Sys_Listen fd (builder_backlog b)], fd)"

definition build ::
    "int \<Rightarrow> ('q, 'r, 'p, 's) builder
       \<Rightarrow> (('q, 'r, 'p, 's) service \<times> socket_call list \<times> ('q, 'r, 'p, 's) builder) outcome" where
  "build fd b =
     (case service_instance b of
        None \<Rightarrow> Inl Assertion_Failure
      | Some sv \<Rightarrow>
          (let (calls, acceptor) = build_acceptor fd b
           in Inr (sv\<lparr>acceptor_fd := acceptor\<rparr>, calls, b\<lparr>service_instance := None, listen_fd := acceptor\<rparr>)))"

end
