(* ===== verification/Service_Invariants.thy ===== *)
theory Service_Invariants
  imports Service_Loop
begin

text \<open>
  The life of an I/O operation: acquired from the pool with one reference, in one request queue, in
  flight in one ring, in the hands of one worker, and back in the pool. The invariant holds between
  the routines of the workers; a multiset \<open>H\<close> names the operations that are in somebody's hands within
  one.
\<close>

section \<open>The pool of operations\<close>

text \<open>
  What the service relies on: an acquired address is not in use, by no type of operation, and stays in use
  until it is released to the pool of its type. \<open>live\<close> gives the type of each operation in use, \<open>good\<close> is the
  invariant of the provider.
\<close>

locale operation_pool =
  fixes P :: "'p op_pool"
    and good :: "'p \<Rightarrow> bool"
    and live :: "'p \<Rightarrow> nat \<Rightarrow> io_type option"
  assumes acquire_new: "good p \<Longrightarrow> op_acquire P k p = (Some x, p') \<Longrightarrow>
      good p' \<and> live p x = None \<and> live p' = (live p)(x \<mapsto> k)"
    and acquire_none: "good p \<Longrightarrow> op_acquire P k p = (None, p') \<Longrightarrow> good p' \<and> live p' = live p"
    and release_live: "good p \<Longrightarrow> live p x = Some k \<Longrightarrow>
      good (op_release P k x p) \<and> live (op_release P k x p) = (live p)(x := None)"

locale io_service =
  lockfree_queue Q contents + io_ring U pending + operation_pool P good live
  for Q :: "'q lfq_ops" and contents :: "'q \<Rightarrow> nat list"
    and U :: "'r uring_ops" and pending :: "'r \<Rightarrow> nat multiset"
    and P :: "'p op_pool" and good :: "'p \<Rightarrow> bool" and live :: "'p \<Rightarrow> nat \<Rightarrow> io_type option"

section \<open>Where operations are\<close>

definition ops_at ::
    "('q \<Rightarrow> nat list) \<Rightarrow> ('r \<Rightarrow> nat multiset) \<Rightarrow> ('q, 'r) request_queue \<Rightarrow> nat multiset" where
  "ops_at contents pending rq = mset (contents (rq_queue rq)) + pending (rq_ring rq)"

definition ops_held ::
    "('q \<Rightarrow> nat list) \<Rightarrow> ('r \<Rightarrow> nat multiset) \<Rightarrow> ('q, 'r, 'p, 's) service \<Rightarrow> nat multiset" where
  "ops_held contents pending \<sigma> = sum_list (map (ops_at contents pending) (worker_threads \<sigma>))"

text \<open>The operation a worker has taken with a completion.\<close>

definition in_hand :: "io_completion \<Rightarrow> nat multiset" where
  "in_hand c = (case ic_operation c of None \<Rightarrow> {#} | Some x \<Rightarrow> {#x#})"

text \<open>The actor of a session belongs to it, or has been closed.\<close>

definition own_actor :: "nat \<Rightarrow> session \<Rightarrow> bool" where
  "own_actor i ss \<longleftrightarrow> (\<forall>a. main_actor ss = Some a \<longrightarrow> actor_session a = None \<or> actor_session a = Some i)"

definition sessions_ok :: "('q \<Rightarrow> nat list) \<Rightarrow> ('q, 'r, 'p, 's) service \<Rightarrow> bool" where
  "sessions_ok contents \<sigma> \<longleftrightarrow>
     (\<forall>i<length (sessions \<sigma>). own_actor i (sessions \<sigma> ! i)) \<and>
     (\<forall>s\<in>set (contents (sessions_queue \<sigma>)). s < length (sessions \<sigma>))"

definition op_ok :: "('p \<Rightarrow> nat \<Rightarrow> io_type option) \<Rightarrow> ('q, 'r, 'p, 's) service \<Rightarrow> nat \<Rightarrow> bool" where
  "op_ok live \<sigma> x \<longleftrightarrow>
     (\<exists>opn. io_ops \<sigma> x = Some opn \<and> op_refs opn = 1 \<and> op_object opn < length (sessions \<sigma>) \<and>
        live (io_pool \<sigma>) x = Some (io_type_of (op_kind opn)))"

definition service_ok ::
    "('q \<Rightarrow> nat list) \<Rightarrow> ('r \<Rightarrow> nat multiset) \<Rightarrow> ('p \<Rightarrow> bool)
       \<Rightarrow> ('p \<Rightarrow> nat \<Rightarrow> io_type option) \<Rightarrow> nat multiset \<Rightarrow> ('q, 'r, 'p, 's) service \<Rightarrow> bool" where
  "service_ok contents pending good live H \<sigma> \<longleftrightarrow>
     good (io_pool \<sigma>) \<and> sessions_ok contents \<sigma> \<and>
     (\<forall>x. count (ops_held contents pending \<sigma> + H) x \<le> 1) \<and>
     (\<forall>x\<in>#ops_held contents pending \<sigma> + H. op_ok live \<sigma> x)"

lemma sum_list_update_mset:
  fixes f :: "'a \<Rightarrow> 'b multiset"
  shows "i < length xs \<Longrightarrow> sum_list (map f (xs[i := y])) + f (xs ! i) = sum_list (map f xs) + f y"
proof (induction xs arbitrary: i)
  case (Cons x xs)
  show ?case
  proof (cases i)
    case (Suc j)
    with Cons.prems have "sum_list (map f (xs[j := y])) + f (xs ! j) = sum_list (map f xs) + f y"
      by (intro Cons.IH) simp
    with Suc show ?thesis by (simp add: ac_simps)
  qed (simp add: ac_simps)
qed simp

lemma ops_held_set_worker:
  "i < length (worker_threads \<sigma>) \<Longrightarrow>
     ops_held contents pending (set_worker i rq \<sigma>) + ops_at contents pending (worker_threads \<sigma> ! i) =
       ops_held contents pending \<sigma> + ops_at contents pending rq"
  by (simp add: ops_held_def set_worker_def sum_list_update_mset)

lemma service_ok_mono:
  "service_ok contents pending good live (H + H') \<sigma> \<Longrightarrow> service_ok contents pending good live H \<sigma>"
  by (auto simp: service_ok_def) (metis add_leD1 count_union add.assoc)

text \<open>Only the places of the operations change.\<close>

lemma service_ok_move:
  assumes "service_ok contents pending good live H \<sigma>"
    and "ops_held contents pending \<sigma>' + H' \<subseteq># ops_held contents pending \<sigma> + H"
    and "io_pool \<sigma>' = io_pool \<sigma>" and "io_ops \<sigma>' = io_ops \<sigma>" and "sessions \<sigma>' = sessions \<sigma>"
    and "sessions_queue \<sigma>' = sessions_queue \<sigma>"
  shows "service_ok contents pending good live H' \<sigma>'"
proof -
  have "count (ops_held contents pending \<sigma>' + H') x \<le> 1" for x
    using assms(1) mset_subset_eq_count [OF assms(2), of x] by (auto simp: service_ok_def intro: le_trans)
  moreover have "op_ok live \<sigma>' x" if "x \<in># ops_held contents pending \<sigma>' + H'" for x
    using assms(1,3-5) mset_subset_eqD [OF assms(2) that] by (auto simp: service_ok_def op_ok_def)
  ultimately show ?thesis using assms(1,3,5,6) by (auto simp: service_ok_def sessions_ok_def)
qed

section \<open>Requests\<close>

lemma request_io_at_frame:
  assumes "request_io_at Q i x \<sigma> = Inr \<sigma>'"
  shows "sessions \<sigma>' = sessions \<sigma>" and "sessions_queue \<sigma>' = sessions_queue \<sigma>" and "io_pool \<sigma>' = io_pool \<sigma>"
    and "io_ops \<sigma>' = io_ops \<sigma>" and "length (worker_threads \<sigma>') = length (worker_threads \<sigma>)"
    and "user \<sigma>' = user \<sigma>"
  using assms by (auto simp: request_io_at_def split: if_splits)

lemma request_io_eq:
  "request_io Q x \<sigma> = Inr \<sigma>' \<Longrightarrow>
     \<exists>i. request_io_at Q i x (\<sigma>\<lparr>request_index := request_index \<sigma> + 1\<rparr>) = Inr \<sigma>'"
  by (auto simp: request_io_def Let_def split: if_splits)

lemma request_io_new_cases:
  assumes "request_io_new Q P s kind \<sigma> = Inr \<sigma>'"
  obtains (exhausted) p where "op_acquire P (io_type_of kind) (io_pool \<sigma>) = (None, p)" and "\<sigma>' = \<sigma>\<lparr>io_pool := p\<rparr>"
    | (acquired) x p i where "op_acquire P (io_type_of kind) (io_pool \<sigma>) = (Some x, p)"
      and "request_io_at Q i x (\<sigma>\<lparr>io_pool := p,
        io_ops := (io_ops \<sigma>)(x \<mapsto> \<lparr>op_object = s, op_kind = kind, op_refs = 1\<rparr>),
        request_index := request_index \<sigma> + 1\<rparr>) = Inr \<sigma>'"
proof (cases "op_acquire P (io_type_of kind) (io_pool \<sigma>)")
  case (Pair r p)
  show thesis
  proof (cases r)
    case None
    with Pair assms exhausted show thesis by (auto simp: request_io_new_def)
  next
    case (Some x)
    from assms Pair Some have "request_io Q x (\<sigma>\<lparr>io_pool := p,
        io_ops := (io_ops \<sigma>)(x \<mapsto> \<lparr>op_object = s, op_kind = kind, op_refs = 1\<rparr>)\<rparr>) = Inr \<sigma>'"
      by (simp add: request_io_new_def add_ref_def)
    from request_io_eq [OF this] obtain i where "request_io_at Q i x (\<sigma>\<lparr>io_pool := p,
        io_ops := (io_ops \<sigma>)(x \<mapsto> \<lparr>op_object = s, op_kind = kind, op_refs = 1\<rparr>),
        request_index := request_index \<sigma> + 1\<rparr>) = Inr \<sigma>'"
      by (simp del: fun_upd_apply) blast
    with Pair Some show thesis by (intro acquired) simp_all
  qed
qed

lemma request_io_new_frame:
  assumes "request_io_new Q P s kind \<sigma> = Inr \<sigma>'"
  shows "sessions \<sigma>' = sessions \<sigma> \<and> sessions_queue \<sigma>' = sessions_queue \<sigma> \<and> user \<sigma>' = user \<sigma> \<and>
    length (worker_threads \<sigma>') = length (worker_threads \<sigma>)"
  using assms by (cases rule: request_io_new_cases) (auto dest: request_io_at_frame)

lemma request_accept_one_user: "request_accept_one Q P \<sigma> = Inr \<sigma>' \<Longrightarrow> user \<sigma>' = user \<sigma>"
  by (auto simp: request_accept_one_def split: option.splits prod.splits dest: request_io_new_frame)

lemma run_calls_user: "run_calls Q P cs \<sigma> = Inr \<sigma>' \<Longrightarrow> user \<sigma>' = user \<sigma>"
proof (induction cs arbitrary: \<sigma>)
  case (Cons c cs)
  then obtain \<sigma>1 where "run_call Q P c \<sigma> = Inr \<sigma>1" "user \<sigma>' = user \<sigma>1" by (auto simp: outcome_simps)
  then show ?case
    by (cases c) (auto simp: on_session_closed_def dest: request_io_new_frame request_accept_one_user)
qed simp

context io_service
begin

abbreviation "ok \<equiv> service_ok contents pending good live"

lemma request_io_at_ok:
  assumes ok: "ok (add_mset x H) \<sigma>" and req: "request_io_at Q i x \<sigma> = Inr \<sigma>'"
  shows "ok H \<sigma>'"
proof (rule service_ok_move [OF ok])
  show "ops_held contents pending \<sigma>' + H \<subseteq># ops_held contents pending \<sigma> + add_mset x H"
  proof (cases "i < 0 \<or> thread_count \<sigma> \<le> i")
    case True
    with req show ?thesis by (auto simp: request_io_at_def)
  next
    case False
    let ?rq = "worker_threads \<sigma> ! nat i"
    from False req have i: "nat i < length (worker_threads \<sigma>)" and \<sigma>': "\<sigma>' = set_worker (nat i) (push_request Q x ?rq) \<sigma>"
      by (auto simp: request_io_at_def set_worker_def split: if_splits)
    have "ops_at contents pending (push_request Q x ?rq) \<subseteq># add_mset x (ops_at contents pending ?rq)"
      using push_retry_contents [of 10 x "rq_queue ?rq"] by (auto simp: ops_at_def push_request_def)
    then have "ops_held contents pending \<sigma> + ops_at contents pending (push_request Q x ?rq) \<subseteq>#
        ops_held contents pending \<sigma> + {#x#} + ops_at contents pending ?rq"
      by simp
    then have "ops_held contents pending \<sigma>' + ops_at contents pending ?rq \<subseteq>#
        ops_held contents pending \<sigma> + {#x#} + ops_at contents pending ?rq"
      by (metis \<sigma>' ops_held_set_worker [OF i])
    then show ?thesis by simp
  qed
qed (use request_io_at_frame [OF req] in auto)

lemma ok_fresh:
  assumes "ok H \<sigma>" and "live (io_pool \<sigma>) x = None"
  shows "x \<notin># ops_held contents pending \<sigma> + H"
proof
  assume "x \<in># ops_held contents pending \<sigma> + H"
  then have "op_ok live \<sigma> x" using assms(1) by (simp add: service_ok_def)
  with assms(2) show False by (auto simp: op_ok_def)
qed

lemma acquire_none_ok:
  assumes "ok H \<sigma>" and "op_acquire P k (io_pool \<sigma>) = (None, p)"
  shows "ok H (\<sigma>\<lparr>io_pool := p\<rparr>)"
  using assms acquire_none [OF _ assms(2)] by (auto simp: service_ok_def op_ok_def sessions_ok_def ops_held_def)

lemma acquire_ok:
  assumes ok: "ok H \<sigma>" and s: "s < length (sessions \<sigma>)"
    and acq: "op_acquire P (io_type_of kind) (io_pool \<sigma>) = (Some x, p)"
  shows "x \<notin># ops_held contents pending \<sigma> + H"
    and "ok (add_mset x H) (\<sigma>\<lparr>io_pool := p,
      io_ops := (io_ops \<sigma>)(x \<mapsto> \<lparr>op_object = s, op_kind = kind, op_refs = 1\<rparr>), request_index := k\<rparr>)"
proof -
  from ok have "good (io_pool \<sigma>)" by (simp add: service_ok_def)
  note new = acquire_new [OF this acq]
  from ok_fresh [OF ok] new show x: "x \<notin># ops_held contents pending \<sigma> + H" by blast
  let ?\<sigma>1 = "\<sigma>\<lparr>io_pool := p, io_ops := (io_ops \<sigma>)(x \<mapsto> \<lparr>op_object = s, op_kind = kind, op_refs = 1\<rparr>),
    request_index := k\<rparr>"
  have held: "ops_held contents pending ?\<sigma>1 = ops_held contents pending \<sigma>" by (simp add: ops_held_def)
  have "op_ok live ?\<sigma>1 y" if "y \<in># ops_held contents pending \<sigma> + add_mset x H" for y
  proof (cases "y = x")
    case True
    with new s show ?thesis by (simp add: op_ok_def)
  next
    case False
    with that have "op_ok live \<sigma> y" using ok by (auto simp: service_ok_def)
    with False new show ?thesis by (simp add: op_ok_def)
  qed
  moreover have "count (ops_held contents pending \<sigma> + add_mset x H) y \<le> 1" for y
  proof (cases "y = x")
    case True
    with x show ?thesis by (simp add: not_in_iff)
  next
    case False
    moreover have "count (ops_held contents pending \<sigma> + H) y \<le> 1" using ok unfolding service_ok_def by blast
    ultimately show ?thesis by simp
  qed
  ultimately show "ok (add_mset x H) ?\<sigma>1"
    using ok new by (simp add: service_ok_def sessions_ok_def held)
qed

lemma request_io_new_ok:
  assumes ok: "ok H \<sigma>" and s: "s < length (sessions \<sigma>)" and req: "request_io_new Q P s kind \<sigma> = Inr \<sigma>'"
  shows "ok H \<sigma>'"
  using req
proof (cases rule: request_io_new_cases)
  case (exhausted p)
  with acquire_none_ok [OF ok exhausted(1)] show ?thesis by simp
next
  case (acquired x p i)
  from request_io_at_ok [OF acquire_ok(2) [OF ok s acquired(1)] acquired(2)] show ?thesis .
qed

lemma request_accept_one_ok:
  assumes ok: "ok H \<sigma>" and req: "request_accept_one Q P \<sigma> = Inr \<sigma>'"
  shows "ok H \<sigma>' \<and> sessions \<sigma>' = sessions \<sigma> \<and> length (worker_threads \<sigma>') = length (worker_threads \<sigma>) \<and>
    (\<exists>k. contents (sessions_queue \<sigma>') = drop k (contents (sessions_queue \<sigma>)))"
proof (cases "lfq_pop Q (sessions_queue \<sigma>)")
  case None
  with ok req show ?thesis by (auto simp: request_accept_one_def intro: exI [of _ 0])
next
  case (Some p)
  obtain s q where p: "p = (s, q)" by (cases p)
  let ?\<sigma>1 = "\<sigma>\<lparr>sessions_queue := q\<rparr>"
  from Some p have q: "contents (sessions_queue \<sigma>) = s # contents q" by (simp add: pop_Some)
  then have s: "s < length (sessions ?\<sigma>1)" and ok1: "ok H ?\<sigma>1"
    using ok by (auto simp: service_ok_def sessions_ok_def op_ok_def ops_held_def)
  from req Some p have r: "request_io_new Q P s (Io_Accept (acceptor_fd \<sigma>)) ?\<sigma>1 = Inr \<sigma>'"
    by (simp add: request_accept_one_def)
  from request_io_new_ok [OF ok1 s r] request_io_new_frame [OF r] q show ?thesis
    by (auto intro: exI [of _ 1])
qed

end

section \<open>What sessions ask for\<close>

lemma process_completed_actor:
  "process_completed n ss = Inr ss' \<Longrightarrow> main_actor ss' = main_actor (ss :: session)"
  by (auto simp: process_completed_def outcome_simps)

lemma receive_loop_actor:
  assumes "receive_loop handlers ss s = Some r"
  shows "\<forall>ss' s'. r = Inr (ss', s') \<longrightarrow> main_actor ss' = main_actor ss"
proof (rule receive_loop.raw_induct
    [where P = "\<lambda>_ ss _ r. \<forall>ss' s'. r = Inr (ss', s') \<longrightarrow> main_actor ss' = main_actor ss", OF _ assms],
    goal_cases)
  case (1 loop handlers ss s r)
  from 1(2) show ?case
    by (auto split: if_splits sum.splits prod.splits dest!: 1(1) process_completed_actor)
qed

text \<open>
  The calls of sessions and, by hypothesis, of handlers: operations for existing sessions and further
  accepts. \<open>on_session_closed\<close> is not among them: only \<open>on_closed\<close> calls it, and no completion handler
  calls \<open>on_closed\<close>.
\<close>

fun call_ok :: "nat \<Rightarrow> service_call \<Rightarrow> bool" where
  "call_ok n (Call_Request_Io s kind) \<longleftrightarrow> s < n"
| "call_ok n Call_Accept_One \<longleftrightarrow> True"
| "call_ok n (Call_Session_Closed s) \<longleftrightarrow> False"

text \<open>
  What the service relies on in the user's code, for \<open>n\<close> sessions: an invariant \<open>I\<close> of the user's state that every
  handler keeps, if the actor it is given belongs to one of the sessions, and that makes the calls taken out
  acceptable (\<open>C n\<close>).
\<close>

definition actor_in :: "nat \<Rightarrow> actor option \<Rightarrow> bool" where
  "actor_in n a \<longleftrightarrow> (\<forall>b s. a = Some b \<longrightarrow> actor_session b = Some s \<longrightarrow> s < n)"

definition user_contract ::
    "(nat \<Rightarrow> service_call \<Rightarrow> bool) \<Rightarrow> nat \<Rightarrow> ('s \<Rightarrow> bool) \<Rightarrow> 's handlers
       \<Rightarrow> ('s \<Rightarrow> service_call list \<times> 's) \<Rightarrow> bool" where
  "user_contract C n I handlers drain \<longleftrightarrow>
     (\<forall>t h mem k a u mem' u'. handlers t = Some h \<longrightarrow> actor_in n a \<longrightarrow> I u \<longrightarrow> h mem k a u = Inr (mem', u') \<longrightarrow> I u') \<and>
     (\<forall>u. I u \<longrightarrow> list_all (C n) (fst (drain u)) \<and> I (snd (drain u)))"

lemma user_contract_mono:
  assumes "user_contract C n I handlers drain" and "\<And>c. C n c \<Longrightarrow> D n c"
  shows "user_contract D n I handlers drain"
  using assms(1) unfolding user_contract_def by (meson assms(2) list.pred_mono_strong)

lemma dispatch_user:
  assumes "user_contract C n I handlers drain" and "actor_in n a" and "I u"
    and "dispatch handlers t mem k a u = Inr (found, mem', u')"
  shows "I u'"
proof (cases "handlers t")
  case (Some h)
  with assms(4) have "h mem k a u = Inr (mem', u')" by (auto simp: dispatch_def outcome_simps)
  with assms(1-3) Some show ?thesis unfolding user_contract_def by blast
qed (use assms(3,4) in \<open>simp add: dispatch_def\<close>)

lemma receive_loop_user:
  assumes "receive_loop handlers ss u = Some r"
  shows "user_contract C n I handlers drain \<longrightarrow> actor_in n (main_actor ss) \<longrightarrow> I u \<longrightarrow>
    (\<forall>ss' u'. r = Inr (ss', u') \<longrightarrow> I u')"
proof (rule receive_loop.raw_induct
    [where P = "\<lambda>handlers ss u r. user_contract C n I handlers drain \<longrightarrow> actor_in n (main_actor ss) \<longrightarrow> I u \<longrightarrow>
      (\<forall>ss' u'. r = Inr (ss', u') \<longrightarrow> I u')", OF _ assms], goal_cases)
  case (1 loop handlers ss u r)
  show ?case
  proof (intro impI)
    assume con: "user_contract C n I handlers drain" and a: "actor_in n (main_actor ss)" and u: "I u"
    from 1(2) consider "\<exists>e. r = Inl e" | "r = Inr (ss, u)"
      | t k found mem u2 j ss2
      where "dispatch handlers t (rx_buffer ss) k (main_actor ss) u = Inr (found, mem, u2)"
        "process_completed j (ss\<lparr>rx_buffer := mem\<rparr>) = Inr ss2" "loop handlers ss2 u2 = Some r"
      by (auto split: if_splits sum.splits prod.splits)
    then show "\<forall>ss' u'. r = Inr (ss', u') \<longrightarrow> I u'"
    proof cases
      case 3
      have "main_actor ss2 = main_actor ss" using process_completed_actor [OF 3(2)] by simp
      then show ?thesis using 1(1) [OF 3(3)] con a dispatch_user [OF con a u 3(1)] by simp
    qed (use u in auto)
  qed
qed

lemma recv_completion_user:
  assumes "recv_completion handlers i alive res ss u = Some (Inr (ss', u', calls))"
    and "user_contract C n I handlers drain" and "actor_in n (main_actor ss)" and "I u"
  shows "I u'"
proof (cases "res < 0")
  case False
  with assms(1) obtain ss1 where c: "commit res ss = Inr ss1" and r: "receive_loop handlers ss1 u = Some (Inr (ss', u'))"
    by (auto simp: recv_completion_def on_received_def outcome_simps split: sum.splits)
  from c have "main_actor ss1 = main_actor ss" by (auto simp: commit_def outcome_simps)
  then show ?thesis using receive_loop_user [OF r, of C n I drain] assms(2-4) by simp
qed (use assms in \<open>auto simp: recv_completion_def\<close>)

lemma handle_operation_user:
  assumes "handle_operation handlers opn res ss u = Some (Inr (ss', u', calls))"
    and "user_contract C n I handlers drain" and "own_actor (op_object opn) ss" and "op_object opn < n" and "I u"
  shows "I u'"
proof -
  have a: "actor_in n (main_actor ss)" using assms(3,4) by (auto simp: own_actor_def actor_in_def)
  show ?thesis
    using assms(1,2,5) a recv_completion_user [of handlers "op_object opn" True res ss u ss' u' calls C n I drain]
    by (auto simp: handle_operation_def Let_def split_beta split: io_kind.splits)
qed

lemma on_receive_failed_calls:
  "own_actor i ss \<Longrightarrow> i < n \<Longrightarrow> list_all (call_ok n) (on_receive_failed alive ss)"
  by (auto simp: on_receive_failed_def actor_request_close_def session_request_close_def own_actor_def
      split: option.split)

lemma recv_completion_calls:
  assumes "recv_completion handlers i True res ss u = Some (Inr (ss', u', calls))"
    and "own_actor i ss" and "i < n"
  shows "own_actor i ss' \<and> list_all (call_ok n) calls"
proof (cases "res < 0")
  case True
  with assms on_receive_failed_calls show ?thesis by (auto simp: recv_completion_def)
next
  case False
  with assms(1) obtain ss1 where c: "commit res ss = Inr ss1"
    and r: "receive_loop handlers ss1 u = Some (Inr (ss', u'))" and "calls = request_receive i True ss'"
    by (auto simp: recv_completion_def on_received_def outcome_simps split: sum.splits)
  moreover have "main_actor ss' = main_actor ss"
    using receive_loop_actor [OF r] c by (auto simp: commit_def outcome_simps)
  ultimately show ?thesis using assms(2,3) by (simp add: own_actor_def request_receive_def get_remain_span_def)
qed

lemma handle_operation_calls:
  assumes "handle_operation handlers opn res ss u = Some (Inr (ss', u', calls))"
    and "own_actor (op_object opn) ss" and "op_object opn < n"
  shows "own_actor (op_object opn) ss' \<and> list_all (call_ok n) calls"
proof (cases "op_kind opn")
  case (Io_Recv off len)
  with assms recv_completion_calls show ?thesis by (simp add: handle_operation_def Let_def)
qed (use assms in \<open>auto simp: handle_operation_def Let_def send_completion_def close_completion_def
    accept_completion_def on_accepted_def request_receive_def get_remain_span_def own_actor_def split: if_splits\<close>)

section \<open>The routine keeps the invariant\<close>

context io_service
begin

lemma run_calls_ok:
  assumes "ok H \<sigma>" and "list_all (call_ok (length (sessions \<sigma>))) cs" and "run_calls Q P cs \<sigma> = Inr \<sigma>'"
  shows "ok H \<sigma>' \<and> sessions \<sigma>' = sessions \<sigma> \<and> length (worker_threads \<sigma>') = length (worker_threads \<sigma>) \<and>
    (\<exists>k. contents (sessions_queue \<sigma>') = drop k (contents (sessions_queue \<sigma>)))"
  using assms
proof (induction cs arbitrary: \<sigma>)
  case Nil
  then show ?case by (auto intro: exI [of _ 0])
next
  case (Cons c cs)
  from Cons.prems(3) obtain \<sigma>1 where c: "run_call Q P c \<sigma> = Inr \<sigma>1" and cs: "run_calls Q P cs \<sigma>1 = Inr \<sigma>'"
    by (auto simp: outcome_simps)
  have one: "ok H \<sigma>1 \<and> sessions \<sigma>1 = sessions \<sigma> \<and> length (worker_threads \<sigma>1) = length (worker_threads \<sigma>) \<and>
      (\<exists>k. contents (sessions_queue \<sigma>1) = drop k (contents (sessions_queue \<sigma>)))"
  proof (cases c)
    case (Call_Request_Io s kind)
    with Cons.prems c request_io_new_ok request_io_new_frame show ?thesis
      by (fastforce intro: exI [of _ 0])
  next
    case Call_Accept_One
    with Cons.prems c request_accept_one_ok show ?thesis by simp
  qed (use Cons.prems in simp)
  with Cons.IH [of \<sigma>1] Cons.prems cs show ?case by fastforce
qed

lemma handle_completion_ok:
  assumes ok: "ok H \<sigma>" and x: "\<forall>x. ic_operation c = Some x \<longrightarrow> x \<in># H"
    and con: "user_contract call_ok (length (sessions \<sigma>)) I handlers drain" and u: "I (user \<sigma>)"
    and run: "handle_completion Q P handlers drain c \<sigma> = Some (Inr \<sigma>')"
  shows "ok H \<sigma>' \<and> length (sessions \<sigma>') = length (sessions \<sigma>) \<and> I (user \<sigma>') \<and>
    length (worker_threads \<sigma>') = length (worker_threads \<sigma>) \<and>
    (\<exists>k. contents (sessions_queue \<sigma>') = drop k (contents (sessions_queue \<sigma>)))"
proof (cases "ic_operation c")
  case None
  with ok run u show ?thesis by (auto simp: handle_completion_def intro: exI [of _ 0])
next
  case (Some x)
  with ok x obtain opn where opn: "io_ops \<sigma> x = Some opn" and s: "op_object opn < length (sessions \<sigma>)"
    by (auto simp: service_ok_def op_ok_def)
  let ?s = "op_object opn"
  from ok s have own: "own_actor ?s (sessions \<sigma> ! ?s)" by (simp add: service_ok_def sessions_ok_def)
  from run obtain ss' u1 calls where
    h: "handle_operation handlers opn (ic_result c) (sessions \<sigma> ! ?s) (user \<sigma>) = Some (Inr (ss', u1, calls))"
    and r: "run_calls Q P (fst (drain u1) @ calls) (set_session ?s ss' (\<sigma>\<lparr>user := snd (drain u1)\<rparr>)) = Inr \<sigma>'"
    using Some opn s by (auto simp: handle_completion_def outcome_simps Let_def split_beta)
  from handle_operation_calls [OF h own s] have own': "own_actor ?s ss'"
    and calls: "list_all (call_ok (length (sessions \<sigma>))) calls"
    by simp_all
  have u1: "list_all (call_ok (length (sessions \<sigma>))) (fst (drain u1))" "I (snd (drain u1))"
    using handle_operation_user [OF h con own s u] con by (auto simp: user_contract_def)
  have "ok H (set_session ?s ss' (\<sigma>\<lparr>user := snd (drain u1)\<rparr>))"
    using ok own' s
    by (auto simp: service_ok_def sessions_ok_def set_session_def ops_held_def op_ok_def nth_list_update)
  from run_calls_ok [OF this _ r] run_calls_user [OF r] calls u1 show ?thesis by (simp add: set_session_def)
qed

lemma ok_set_worker:
  assumes ok: "ok H \<sigma>" and i: "i < length (worker_threads \<sigma>)"
    and eq: "ops_at contents pending rq + H' = ops_at contents pending (worker_threads \<sigma> ! i) + H"
  shows "ok H' (set_worker i rq \<sigma>)"
proof (rule service_ok_move [OF ok])
  have "ops_held contents pending (set_worker i rq \<sigma>) + ops_at contents pending (worker_threads \<sigma> ! i) + H' =
      ops_held contents pending \<sigma> + (ops_at contents pending rq + H')"
    using ops_held_set_worker [OF i, of contents pending rq] by (simp add: ac_simps)
  also have "\<dots> = ops_held contents pending \<sigma> + H + ops_at contents pending (worker_threads \<sigma> ! i)"
    using eq by (simp add: ac_simps)
  finally show "ops_held contents pending (set_worker i rq \<sigma>) + H' \<subseteq># ops_held contents pending \<sigma> + H"
    by (simp add: ac_simps)
qed (simp_all add: set_worker_def)

lemma wait_one_at:
  assumes wait: "wait_one U 0 rq = Inr (c, rq')"
  shows "ops_at contents pending rq = ops_at contents pending rq' + in_hand c"
proof -
  obtain ret r where w: "ur_wait U (Some 0) (rq_ring rq) = (ret, r)" by fastforce
  show ?thesis
  proof (cases ret)
    case (Inl e)
    with wait w wait_failed [of "Some 0" "rq_ring rq" e r] show ?thesis
      by (auto simp: wait_one_def ops_at_def in_hand_def completion_of_cqe_def completion_of_error_def
          fits_int_def checked_int_def)
  next
    case (Inr cqe)
    obtain x res where "cqe = (x, res)" by (cases cqe)
    with Inr wait w wait_completed [of "Some 0" "rq_ring rq" x res r] show ?thesis
      by (auto simp: wait_one_def ops_at_def in_hand_def completion_of_cqe_def fits_int_def checked_int_def)
  qed
qed

lemma wait_one_ok:
  assumes ok: "ok {#} \<sigma>" and i: "i < length (worker_threads \<sigma>)"
    and wait: "wait_one U 0 (worker_threads \<sigma> ! i) = Inr (c, rq)"
  shows "ok (in_hand c) (set_worker i rq \<sigma>)"
  by (rule ok_set_worker [OF ok i]) (simp add: wait_one_at [OF wait])

lemma flush_worker_ok:
  assumes ok: "ok H \<sigma>" and i: "i < length (worker_threads \<sigma>)"
    and flush: "flush_worker Q U i \<sigma> = Some (Inr \<sigma>')"
  shows "ok H \<sigma>' \<and> (\<exists>rq. \<sigma>' = set_worker i rq \<sigma> \<and>
    ops_at contents pending rq = ops_at contents pending (worker_threads \<sigma> ! i))"
proof -
  let ?rq = "worker_threads \<sigma> ! i" and ?req = "op_request_io U (session_fd \<sigma>) (io_ops \<sigma>)"
  obtain rq where rq: "flush_requests Q U ?req ?rq = Some (Inr rq)" and \<sigma>': "\<sigma>' = set_worker i rq \<sigma>"
    using flush by (auto simp: flush_worker_def outcome_simps)
  obtain q' where q': "contents q' = []" and "bind_outcome (submit_each ?req (contents (rq_queue ?rq)) (rq_ring ?rq))
      (\<lambda>r'. Inr (if contents (rq_queue ?rq) = [] then ?rq else \<lparr>rq_queue = q', rq_ring = ur_submit U r'\<rparr>)) = Inr rq"
    using flush_requests_spec [of U ?req ?rq] rq by auto
  then obtain r' where r': "submit_each ?req (contents (rq_queue ?rq)) (rq_ring ?rq) = Inr r'"
    and "rq = (if contents (rq_queue ?rq) = [] then ?rq else \<lparr>rq_queue = q', rq_ring = ur_submit U r'\<rparr>)"
    by (auto simp: outcome_simps)
  then have "ops_at contents pending rq = ops_at contents pending ?rq"
    using submit_each_pending [OF r'] q' by (simp add: ops_at_def)
  with ok_set_worker [OF ok i] show ?thesis by (auto simp: \<sigma>')
qed

lemma release_op_ok:
  assumes ok: "ok (add_mset x H) \<sigma>" and rel: "release_op P x \<sigma> = Inr \<sigma>'"
  shows "ok H \<sigma>'" and "io_ops \<sigma>' x = None \<and> live (io_pool \<sigma>') x = None"
    and "sessions \<sigma>' = sessions \<sigma> \<and> sessions_queue \<sigma>' = sessions_queue \<sigma> \<and>
      length (worker_threads \<sigma>') = length (worker_threads \<sigma>) \<and> user \<sigma>' = user \<sigma>"
proof -
  from ok have one: "count (ops_held contents pending \<sigma> + add_mset x H) x \<le> 1" and good: "good (io_pool \<sigma>)"
    and opx: "op_ok live \<sigma> x"
    unfolding service_ok_def by (blast, blast, simp)
  from one have x: "x \<notin># ops_held contents pending \<sigma> + H" by (simp add: not_in_iff)
  from opx obtain opn where opn: "io_ops \<sigma> x = Some opn" "op_refs opn = 1"
    and lx: "live (io_pool \<sigma>) x = Some (io_type_of (op_kind opn))"
    by (auto simp: op_ok_def)
  from rel opn have \<sigma>': "\<sigma>' = \<sigma>\<lparr>io_ops := (io_ops \<sigma>)(x := None),
      io_pool := op_release P (io_type_of (op_kind opn)) x (io_pool \<sigma>)\<rparr>"
    by (simp add: release_op_def)
  have "op_ok live \<sigma>' y" if "y \<in># ops_held contents pending \<sigma> + H" for y
  proof -
    from that x have "y \<noteq> x" by auto
    moreover have "op_ok live \<sigma> y" using ok that by (auto simp: service_ok_def)
    ultimately show ?thesis using release_live [OF good lx] by (simp add: op_ok_def \<sigma>')
  qed
  moreover have "count (ops_held contents pending \<sigma> + H) y \<le> 1" for y
  proof -
    have "count (ops_held contents pending \<sigma> + add_mset x H) y \<le> 1" using ok unfolding service_ok_def by blast
    then show ?thesis by (simp split: if_splits)
  qed
  ultimately show "ok H \<sigma>'"
    using ok release_live [OF good lx] by (simp add: service_ok_def sessions_ok_def ops_held_def \<sigma>')
  show "io_ops \<sigma>' x = None \<and> live (io_pool \<sigma>') x = None" using release_live [OF good lx] by (simp add: \<sigma>')
  show "sessions \<sigma>' = sessions \<sigma> \<and> sessions_queue \<sigma>' = sessions_queue \<sigma> \<and>
      length (worker_threads \<sigma>') = length (worker_threads \<sigma>) \<and> user \<sigma>' = user \<sigma>"
    by (simp add: \<sigma>')
qed

lemma destroy_completion_ok:
  assumes ok: "ok (in_hand c) \<sigma>" and i: "i < length (worker_threads \<sigma>)"
    and destroy: "destroy_completion U P i c \<sigma> = Inr \<sigma>'"
  shows "ok {#} \<sigma>' \<and> (\<forall>x. ic_operation c = Some x \<longrightarrow> io_ops \<sigma>' x = None \<and> live (io_pool \<sigma>') x = None) \<and>
    sessions \<sigma>' = sessions \<sigma> \<and> sessions_queue \<sigma>' = sessions_queue \<sigma> \<and>
    length (worker_threads \<sigma>') = length (worker_threads \<sigma>) \<and> user \<sigma>' = user \<sigma>"
proof -
  let ?rq = "worker_threads \<sigma> ! i"
  define \<sigma>1 where "\<sigma>1 = set_worker i (?rq\<lparr>rq_ring := completion_seen U c (rq_ring ?rq)\<rparr>) \<sigma>"
  have ok1: "ok (in_hand c) \<sigma>1"
    unfolding \<sigma>1_def by (rule ok_set_worker [OF ok i]) (simp add: ops_at_def completion_seen_def)
  have frame: "sessions \<sigma>1 = sessions \<sigma>" "sessions_queue \<sigma>1 = sessions_queue \<sigma>" "user \<sigma>1 = user \<sigma>"
    "length (worker_threads \<sigma>1) = length (worker_threads \<sigma>)"
    by (simp_all add: \<sigma>1_def set_worker_def)
  show ?thesis
  proof (cases "ic_operation c")
    case None
    with destroy have "\<sigma>' = \<sigma>1" by (simp add: destroy_completion_def \<sigma>1_def Let_def)
    with None ok1 frame show ?thesis by (simp add: in_hand_def)
  next
    case (Some x)
    with destroy have "release_op P x \<sigma>1 = Inr \<sigma>'" by (simp add: destroy_completion_def \<sigma>1_def Let_def)
    moreover have "ok {#x#} \<sigma>1" using ok1 Some by (simp add: in_hand_def)
    ultimately show ?thesis using release_op_ok [of x "{#}" \<sigma>1 \<sigma>'] frame Some by simp
  qed
qed

lemma routine_ok:
  assumes ok: "ok {#} \<sigma>" and i: "i < length (worker_threads \<sigma>)"
    and con: "user_contract call_ok (length (sessions \<sigma>)) I handlers drain" and u: "I (user \<sigma>)"
    and run: "routine Q U P handlers drain i \<sigma> = Some (Inr \<sigma>')"
  obtains c rq where "wait_one U 0 (worker_threads \<sigma> ! i) = Inr (c, rq)" and "ok {#} \<sigma>'"
    and "\<And>x. ic_operation c = Some x \<Longrightarrow> io_ops \<sigma> x \<noteq> None \<and> io_ops \<sigma>' x = None \<and> live (io_pool \<sigma>') x = None"
    and "length (sessions \<sigma>') = length (sessions \<sigma>)" and "length (worker_threads \<sigma>') = length (worker_threads \<sigma>)"
    and "\<exists>k. contents (sessions_queue \<sigma>') = drop k (contents (sessions_queue \<sigma>))" and "I (user \<sigma>')"
proof -
  obtain c rq where w: "wait_one U 0 (worker_threads \<sigma> ! i) = Inr (c, rq)"
    using run by (auto simp: routine_def bind_loop_def split: sum.splits)
  let ?\<sigma>0 = "set_worker i rq \<sigma>"
  obtain \<sigma>1 \<sigma>2 where h: "handle_completion Q P handlers drain c ?\<sigma>0 = Some (Inr \<sigma>1)"
    and f: "flush_worker Q U i \<sigma>1 = Some (Inr \<sigma>2)" and d: "destroy_completion U P i c \<sigma>2 = Inr \<sigma>'"
    using run w by (auto simp: routine_def bind_loop_def split: option.splits sum.splits)
  note ok0 = wait_one_ok [OF ok i w]
  have s0: "sessions ?\<sigma>0 = sessions \<sigma>" "sessions_queue ?\<sigma>0 = sessions_queue \<sigma>" "io_ops ?\<sigma>0 = io_ops \<sigma>"
    "length (worker_threads ?\<sigma>0) = length (worker_threads \<sigma>)" "user ?\<sigma>0 = user \<sigma>"
    by (simp_all add: set_worker_def)
  have "\<forall>x. ic_operation c = Some x \<longrightarrow> x \<in># in_hand c" by (simp add: in_hand_def)
  note h = handle_completion_ok [OF ok0 this _ _ h, unfolded s0, OF con u]
  then have i1: "i < length (worker_threads \<sigma>1)" using i by simp
  note f = flush_worker_ok [OF conjunct1 [OF h] i1 f]
  then have i2: "i < length (worker_threads \<sigma>2)" and s2: "sessions \<sigma>2 = sessions \<sigma>1"
    "sessions_queue \<sigma>2 = sessions_queue \<sigma>1" "length (worker_threads \<sigma>2) = length (worker_threads \<sigma>1)"
    "user \<sigma>2 = user \<sigma>1"
    using i1 by (auto simp: set_worker_def)
  note d = destroy_completion_ok [OF conjunct1 [OF f] i2 d]
  have "io_ops \<sigma> x \<noteq> None" if "ic_operation c = Some x" for x
    using ok0 that s0 by (auto simp: service_ok_def op_ok_def in_hand_def)
  with w d h s2 show thesis by (intro that [of c rq]) auto
qed

end

lemma service_run_ok:
  assumes "\<And>i. io_service Q contents U pending (P i) good live"
    and "service_run Q U P handlers drain \<sigma> \<sigma>'"
    and "service_ok contents pending good live {#} \<sigma>"
    and "user_contract call_ok (length (sessions \<sigma>)) I handlers drain" and "I (user \<sigma>)"
  shows "service_ok contents pending good live {#} \<sigma>' \<and> length (sessions \<sigma>') = length (sessions \<sigma>) \<and> I (user \<sigma>') \<and>
    length (worker_threads \<sigma>') = length (worker_threads \<sigma>) \<and>
    (\<exists>k. contents (sessions_queue \<sigma>') = drop k (contents (sessions_queue \<sigma>)))"
  using assms(2-)
proof (induction rule: service_run.induct)
  case (no_step \<sigma>)
  then show ?case by (auto intro: exI [of _ 0])
next
  case (worker_step \<sigma> \<sigma>1 i \<sigma>2)
  then have ok1: "service_ok contents pending good live {#} \<sigma>1"
    and s1: "length (sessions \<sigma>1) = length (sessions \<sigma>)" "length (worker_threads \<sigma>1) = length (worker_threads \<sigma>)"
    and "\<exists>k. contents (sessions_queue \<sigma>1) = drop k (contents (sessions_queue \<sigma>))"
    by blast+
  moreover have con: "user_contract call_ok (length (sessions \<sigma>1)) I handlers drain" and "I (user \<sigma>1)"
    using worker_step s1 by simp_all
  ultimately show ?case
    by (elim io_service.routine_ok [OF assms(1) ok1 worker_step.hyps(2) con _ worker_step.hyps(3)])
      (auto simp: drop_drop)
next
  case (kernel_write \<sigma> \<sigma>1 s off bs buf)
  then have "service_ok contents pending good live {#} \<sigma>1" by blast
  then have "service_ok contents pending good live {#} (set_session s ((sessions \<sigma>1 ! s)\<lparr>rx_buffer := buf\<rparr>) \<sigma>1)"
    using kernel_write.hyps(2)
    by (auto simp: service_ok_def sessions_ok_def set_session_def ops_held_def op_ok_def own_actor_def nth_list_update)
  then show ?case using kernel_write by (simp add: set_session_def)
qed

section \<open>The start\<close>

lemma sum_list_replicate_empty: "sum_list (replicate n ({#} :: 'a multiset)) = {#}"
  by (induction n) simp_all

lemma make_sessions_frame [simp]:
  "worker_threads (make_sessions Q n \<sigma>) = worker_threads \<sigma>"
  "io_pool (make_sessions Q n \<sigma>) = io_pool \<sigma>"
  "io_ops (make_sessions Q n \<sigma>) = io_ops \<sigma>"
  "thread_count (make_sessions Q n \<sigma>) = thread_count \<sigma>"
  "request_index (make_sessions Q n \<sigma>) = request_index \<sigma>"
  "acceptor_fd (make_sessions Q n \<sigma>) = acceptor_fd \<sigma>"
  "user (make_sessions Q n \<sigma>) = user \<sigma>"
  "sessions (make_sessions Q n \<sigma>) = sessions \<sigma> @ replicate n new_session"
  by (induction n arbitrary: \<sigma>) (simp_all add: replicate_append_same [symmetric])

lemma initialize_user: "initialize Q U P \<sigma> = Inr \<sigma>' \<Longrightarrow> user \<sigma>' = user \<sigma>"
proof -
  have "user \<sigma>' = user \<sigma>1" if "accept_loop Q P n \<sigma>1 = Inr \<sigma>'" for n \<sigma>1
    using that by (induction n arbitrary: \<sigma>1) (auto simp: outcome_simps dest: request_accept_one_user)
  moreover assume "initialize Q U P \<sigma> = Inr \<sigma>'"
  ultimately show ?thesis by (fastforce simp: initialize_def initialize_threads_def)
qed

context io_service
begin

lemma make_sessions_queue:
  "s \<in> set (contents (sessions_queue (make_sessions Q n \<sigma>))) \<Longrightarrow>
     s \<in> set (contents (sessions_queue \<sigma>)) \<or> (length (sessions \<sigma>) \<le> s \<and> s < length (sessions \<sigma>) + n)"
proof (induction n arbitrary: \<sigma>)
  case (Suc n)
  let ?\<sigma>1 = "\<sigma>\<lparr>sessions_queue := push_ignore Q (length (sessions \<sigma>)) (sessions_queue \<sigma>),
    sessions := sessions \<sigma> @ [new_session]\<rparr>"
  from Suc.prems have "s \<in> set (contents (sessions_queue (make_sessions Q n ?\<sigma>1)))" by simp
  note Suc.IH [OF this]
  then show ?case
    using push_ignore_contents [of "length (sessions \<sigma>)" "sessions_queue \<sigma>"] by auto
qed simp

lemma accept_loop_ok:
  assumes "ok H \<sigma>" and "accept_loop Q P n \<sigma> = Inr \<sigma>'"
  shows "ok H \<sigma>' \<and> sessions \<sigma>' = sessions \<sigma> \<and> length (worker_threads \<sigma>') = length (worker_threads \<sigma>)"
  using assms
proof (induction n arbitrary: \<sigma>)
  case (Suc n)
  then obtain \<sigma>1 where "request_accept_one Q P \<sigma> = Inr \<sigma>1" and "accept_loop Q P n \<sigma>1 = Inr \<sigma>'"
    by (auto simp: outcome_simps)
  with Suc request_accept_one_ok [of H \<sigma> \<sigma>1] show ?case by fastforce
qed simp

lemma prepared_ok:
  assumes fresh: "worker_threads \<sigma> = []" "sessions \<sigma> = []" "contents (sessions_queue \<sigma>) = []"
    and good: "good (io_pool \<sigma>)"
  defines "\<sigma>1 \<equiv> make_sessions Q (nat (session_count \<sigma>)) (initialize_threads Q U \<sigma>)"
  shows "ok {#} \<sigma>1" and "ops_held contents pending \<sigma>1 = {#}"
    and "sessions \<sigma>1 = replicate (nat (session_count \<sigma>)) new_session"
    and "length (worker_threads \<sigma>1) = nat (thread_count \<sigma>)"
proof -
  show s1: "sessions \<sigma>1 = replicate (nat (session_count \<sigma>)) new_session"
    using fresh by (simp add: \<sigma>1_def initialize_threads_def)
  have p1: "io_pool \<sigma>1 = io_pool \<sigma>" by (simp add: \<sigma>1_def initialize_threads_def)
  have q1: "s < nat (session_count \<sigma>)" if "s \<in> set (contents (sessions_queue \<sigma>1))" for s
    using make_sessions_queue [OF that [unfolded \<sigma>1_def]] fresh by (simp add: initialize_threads_def)
  have w1: "worker_threads \<sigma>1 = replicate (nat (thread_count \<sigma>))
      (request_queue_new Q U (as_size_t (queue_depth_per_thread \<sigma>)))"
    by (simp add: \<sigma>1_def initialize_threads_def fresh)
  then show "length (worker_threads \<sigma>1) = nat (thread_count \<sigma>)" by simp
  have "ops_at contents pending (request_queue_new Q U n) = {#}" for n
    by (simp add: ops_at_def request_queue_new_def new_contents init_pending)
  then show held: "ops_held contents pending \<sigma>1 = {#}"
    by (simp only: ops_held_def w1 map_replicate) (rule sum_list_replicate_empty)
  show "ok {#} \<sigma>1"
    using good held s1 q1 p1 by (auto simp: service_ok_def sessions_ok_def own_actor_def new_session_def)
qed

lemma initialize_ok:
  assumes fresh: "worker_threads \<sigma> = []" "sessions \<sigma> = []" "contents (sessions_queue \<sigma>) = []"
    and good: "good (io_pool \<sigma>)" and init: "initialize Q U P \<sigma> = Inr \<sigma>'"
  shows "ok {#} \<sigma>' \<and> length (sessions \<sigma>') = nat (session_count \<sigma>) \<and>
    length (worker_threads \<sigma>') = nat (thread_count \<sigma>)"
  using accept_loop_ok [OF prepared_ok(1) [OF fresh good]] prepared_ok(3,4) [OF fresh good] init
  by (fastforce simp: initialize_def)

end

end
