(* ===== verification/IO_Pool.thy ===== *)
theory IO_Pool
  imports Memory_Pool Service_Invariants
begin

text \<open>
  \<open>IOPool\<close> (\<open>service/IOPool.h\<close>): one \<open>ObjectPool\<close> for each of the four operation classes, made by the first call
  that needs it, with the default configuration. The lemmas show that these pools, on the allocator of the
  program, provide the operations the service relies on.
\<close>

section \<open>IOPool\<close>

text \<open>
  \<open>static ObjectPool<T> pool\<close> in \<open>get_io_pool\<close>, for each type: \<open>None\<close> until it is first used. \<open>sz\<close> gives the sizes of
  the classes, \<open>alloc ps\<close> is the memory allocator as it is found when the pools are \<open>ps\<close>; thread \<open>t\<close> uses its
  own caches. A call of \<open>acquire\<close> does not fault (\<open>acquire_never_faults\<close>).
\<close>

type_synonym 'q io_pools = "io_type \<Rightarrow> 'q object_pool option"

definition get_io_pool ::
    "'q lfq_ops \<Rightarrow> (io_type \<Rightarrow> nat) \<Rightarrow> ('q io_pools \<Rightarrow> nat \<Rightarrow> nat option) \<Rightarrow> io_type \<Rightarrow> 'q io_pools
       \<Rightarrow> 'q object_pool" where
  "get_io_pool Q sz alloc k ps =
     (case ps k of None \<Rightarrow> object_pool_new Q (sz k) (alloc ps) default_config | Some p \<Rightarrow> p)"

definition io_acquire ::
    "'q lfq_ops \<Rightarrow> (io_type \<Rightarrow> nat) \<Rightarrow> ('q io_pools \<Rightarrow> nat \<Rightarrow> nat option) \<Rightarrow> nat \<Rightarrow> io_type \<Rightarrow> 'q io_pools
       \<Rightarrow> nat option \<times> 'q io_pools" where
  "io_acquire Q sz alloc t k ps =
     (let p = get_io_pool Q sz alloc k ps; ps1 = ps(k \<mapsto> p)
      in case acquire Q (sz k) (alloc ps1) True t p of
           Inl e \<Rightarrow> (None, ps1)
         | Inr (r, p') \<Rightarrow> (r, ps1(k \<mapsto> p')))"

definition io_release ::
    "'q lfq_ops \<Rightarrow> (io_type \<Rightarrow> nat) \<Rightarrow> ('q io_pools \<Rightarrow> nat \<Rightarrow> nat option) \<Rightarrow> nat \<Rightarrow> io_type \<Rightarrow> nat
       \<Rightarrow> 'q io_pools \<Rightarrow> 'q io_pools" where
  "io_release Q sz alloc t k x ps = ps(k \<mapsto> release Q t (Some x) (get_io_pool Q sz alloc k ps))"

definition object_io_pool ::
    "'q lfq_ops \<Rightarrow> (io_type \<Rightarrow> nat) \<Rightarrow> ('q io_pools \<Rightarrow> nat \<Rightarrow> nat option) \<Rightarrow> nat \<Rightarrow> 'q io_pools op_pool" where
  "object_io_pool Q sz alloc t =
     \<lparr>op_acquire = io_acquire Q sz alloc t, op_release = io_release Q sz alloc t\<rparr>"

section \<open>One pool\<close>

definition pool_good :: "('q \<Rightarrow> nat list) \<Rightarrow> nat \<Rightarrow> nat set \<Rightarrow> 'q object_pool \<Rightarrow> bool" where
  "pool_good contents sz T p \<longleftrightarrow>
     chunks_apart sz p \<and> owned contents T p \<subseteq># mset (all_slots sz p) \<and> sz * chunk_size p < 2 ^ 64"

definition pool_live :: "('q \<Rightarrow> nat list) \<Rightarrow> nat \<Rightarrow> nat set \<Rightarrow> 'q object_pool \<Rightarrow> nat set" where
  "pool_live contents sz T p = set (all_slots sz p) - set_mset (owned contents T p)"

lemma distinct_mset_diff:
  assumes "distinct xs" and "A + B = mset xs"
  shows "set xs - set_mset A = set_mset B"
proof -
  have "set_mset A \<inter> set_mset B = {}" by (rule distinct_mset_part(2) [OF assms])
  moreover have "set xs = set_mset A \<union> set_mset B"
    using arg_cong [OF assms(2), of set_mset] by simp
  ultimately show ?thesis by blast
qed

lemma acquire_chunk_size:
  assumes "acquire Q sz new_mem ok t p = Inr (r, p')"
  shows "chunk_size p' = chunk_size p"
proof -
  obtain r1 p1 where p1: "acquire_cached Q t p = Inr (r1, p1)"
    using assms by (auto simp: acquire_def bind_outcome_eq_Inr)
  obtain b p2 where p2: "allocate_chunk Q sz new_mem (chunk_size p1) p1 = (b, p2)" by fastforce
  then have "chunk_size p2 = chunk_size p1"
    by (auto simp: allocate_chunk_def Let_def split: option.splits if_splits)
  moreover have "chunk_size p' = chunk_size p1 \<or> chunk_size p' = chunk_size p2"
    using assms p1 p2
    by (auto simp: acquire_def acquire_fresh_def Let_def split: option.splits if_splits prod.splits)
  ultimately show ?thesis using acquire_cached_chunks [OF p1] by auto
qed

lemma release_chunk_size: "chunk_size (release Q t obj p) = chunk_size p"
  by (auto simp: release_def set_tls_cache_def batch_return_to_central_def Let_def split: option.split prod.split)

context pool_setting
begin

lemma pool_acquire_step:
  assumes good: "pool_good contents sz T p" and t: "t \<in> T"
    and fresh: "fresh_memory sz new_mem (chunk_size p) (chunks p)"
    and acq: "acquire Q sz new_mem True t p = Inr (r, p')"
  shows "pool_good contents sz T p' \<and>
    pool_live contents sz T p' = (case r of None \<Rightarrow> pool_live contents sz T p | Some x \<Rightarrow> insert x (pool_live contents sz T p)) \<and>
    (\<forall>x. r = Some x \<longrightarrow> x \<notin> pool_live contents sz T p)"
proof -
  have step: "pool_acq Q sz T p r p'" and size: "chunk_size p' = chunk_size p"
    using fresh t acq acquire_chunk_size by (auto simp: pool_acq_def)
  have apart: "chunks_apart sz p" and sub: "owned contents T p \<subseteq># mset (all_slots sz p)"
    and small: "sz * chunk_size p < 2 ^ 64"
    using good by (simp_all add: pool_good_def)
  have apart': "chunks_apart sz p'" by (rule acq_wf [OF apart step])
  from sub obtain L where L: "owned contents T p + L = mset (all_slots sz p)"
    by (metis subset_mset.add_diff_inverse)
  have "owned contents T p' + mset_option r + mset (all_slots sz p) = owned contents T p + mset (all_slots sz p')"
    by (rule acq_held [OF step])
  then have L': "owned contents T p' + (mset_option r + L) = mset (all_slots sz p')"
    by (simp add: L [symmetric] ac_simps)
  have live: "pool_live contents sz T p = set_mset L" and live': "pool_live contents sz T p' = set_mset (mset_option r + L)"
    using distinct_mset_diff [OF wf_distinct [OF apart] L] distinct_mset_diff [OF wf_distinct [OF apart'] L']
    by (simp_all add: pool_live_def)
  have "owned contents T p' \<subseteq># mset (all_slots sz p')" by (simp add: L' [symmetric])
  moreover have "x \<notin># L" if "r = Some x" for x
  proof -
    have "(mset_option r + L) + owned contents T p' = mset (all_slots sz p')"
      using L' by (simp add: ac_simps)
    from distinct_mset_part(1) [OF wf_distinct [OF apart'] this]
    have "count (mset_option r + L) x \<le> 1" .
    with that show ?thesis by (simp add: mset_option_def not_in_iff)
  qed
  ultimately show ?thesis
    using apart' small size by (auto simp: pool_good_def live live' mset_option_def split: option.split)
qed

lemma pool_release_step:
  assumes good: "pool_good contents sz T p" and t: "t \<in> T" and x: "x \<in> pool_live contents sz T p"
  shows "pool_good contents sz T (release Q t (Some x) p) \<and>
    pool_live contents sz T (release Q t (Some x) p) = pool_live contents sz T p - {x}"
proof -
  have step: "pool_rel Q T p x (release Q t (Some x) p)" using t by (auto simp: pool_rel_def)
  note rel = rel_held [OF step] rel_total [OF step] rel_wf [OF _ step]
  show ?thesis
    using good x rel release_chunk_size [of Q t "Some x" p]
    by (auto simp: pool_good_def pool_live_def insert_subset_eq_iff in_diff_count subseteq_mset_def not_in_iff)
qed

lemma pool_new_step:
  assumes "fresh_memory sz new_mem (cfg_initial_count cfg) []" and "sz * cfg_chunk_size cfg < 2 ^ 64"
  shows "pool_good contents sz T (object_pool_new Q sz new_mem cfg) \<and>
    pool_live contents sz T (object_pool_new Q sz new_mem cfg) = {}"
proof -
  have init: "pool_init Q sz (object_pool_new Q sz new_mem cfg)" using assms(1) by (auto simp: pool_init_def)
  have "chunk_size (object_pool_new Q sz new_mem cfg) = cfg_chunk_size cfg"
    by (auto simp: object_pool_new_def allocate_chunk_def Let_def split: option.split)
  then show ?thesis
    using pool_init_owned [OF init] pool_init_apart [OF init] assms(2) by (simp add: pool_good_def pool_live_def)
qed

end

section \<open>The memory of the pools\<close>

definition pool_region :: "nat \<Rightarrow> 'q object_pool \<Rightarrow> nat set" where
  "pool_region sz p = (\<Union>c\<in>set (chunks p). chunk_region sz c)"

definition used_memory :: "(io_type \<Rightarrow> nat) \<Rightarrow> 'q io_pools \<Rightarrow> nat set" where
  "used_memory sz ps = (\<Union>k. case ps k of None \<Rightarrow> {} | Some p \<Rightarrow> pool_region (sz k) p)"

lemma used_memory_pool: "ps k = Some p \<Longrightarrow> pool_region (sz k) p \<subseteq> used_memory sz ps"
  unfolding used_memory_def by (rule subsetI, rule UN_I [of k]) auto

lemma pool_live_region: "0 < sz \<Longrightarrow> pool_live contents sz T p \<subseteq> pool_region sz p"
  using chunk_slots_region [of sz] by (fastforce simp: pool_live_def pool_region_def all_slots_def)

lemma acquire_chunks:
  assumes "acquire Q sz new_mem ok t p = Inr (r, p')"
  shows "chunks p' = chunks p \<or> (\<exists>base. new_mem (chunk_bytes sz (chunk_size p)) = Some base \<and>
    chunks p' = \<lparr>chunk_count = chunk_size p, chunk_memory = base\<rparr> # chunks p)"
proof -
  obtain r1 p1 where p1: "acquire_cached Q t p = Inr (r1, p1)"
    using assms by (auto simp: acquire_def bind_outcome_eq_Inr)
  note same = acquire_cached_chunks [OF p1]
  obtain b p2 where p2: "allocate_chunk Q sz new_mem (chunk_size p1) p1 = (b, p2)" by fastforce
  then have "chunks p2 = chunks p1 \<or> (\<exists>base. new_mem (chunk_bytes sz (chunk_size p1)) = Some base \<and>
      chunks p2 = \<lparr>chunk_count = chunk_size p1, chunk_memory = base\<rparr> # chunks p1)"
    by (auto simp: allocate_chunk_def Let_def split: option.splits if_splits)
  moreover have "chunks p' = chunks p1 \<or> chunks p' = chunks p2"
    using assms p1 p2
    by (auto simp: acquire_def acquire_fresh_def Let_def split: option.splits if_splits prod.splits)
  ultimately show ?thesis using same by auto
qed

lemma pool_new_chunks:
  "chunks (object_pool_new Q sz new_mem cfg) = [] \<or>
    (\<exists>base. new_mem (chunk_bytes sz (cfg_initial_count cfg)) = Some base \<and>
      chunks (object_pool_new Q sz new_mem cfg) = [\<lparr>chunk_count = cfg_initial_count cfg, chunk_memory = base\<rparr>])"
  by (auto simp: object_pool_new_def allocate_chunk_def Let_def split: option.split)

text \<open>The invariant of all pools, and the type of the operation at an address.\<close>

definition io_types :: "io_type list" where
  "io_types = [Type_Recv, Type_Send_Buffer, Type_Accept, Type_Close]"

lemma io_types_all [simp]: "k \<in> set io_types"
  by (cases k) (simp_all add: io_types_def)

definition io_good ::
    "('q \<Rightarrow> nat list) \<Rightarrow> (io_type \<Rightarrow> nat) \<Rightarrow> nat set \<Rightarrow> 'q io_pools \<Rightarrow> bool" where
  "io_good contents sz T ps \<longleftrightarrow>
     (\<forall>k p. ps k = Some p \<longrightarrow> pool_good contents (sz k) T p) \<and>
     (\<forall>k k' p p'. k \<noteq> k' \<longrightarrow> ps k = Some p \<longrightarrow> ps k' = Some p' \<longrightarrow>
        pool_region (sz k) p \<inter> pool_region (sz k') p' = {})"

definition io_live ::
    "('q \<Rightarrow> nat list) \<Rightarrow> (io_type \<Rightarrow> nat) \<Rightarrow> nat set \<Rightarrow> 'q io_pools \<Rightarrow> nat \<Rightarrow> io_type option" where
  "io_live contents sz T ps x =
     List.find (\<lambda>k. case ps k of None \<Rightarrow> False | Some p \<Rightarrow> x \<in> pool_live contents (sz k) T p) io_types"

lemma grown_disjoint:
  "A' = A \<or> (\<exists>b. f b \<inter> U = {} \<and> A' = f b \<union> A) \<Longrightarrow> C \<subseteq> U \<Longrightarrow> A \<inter> C = {} \<Longrightarrow> A' \<inter> C = {}"
  by blast

lemma find_unique:
  assumes "\<And>a b. P a \<Longrightarrow> P b \<Longrightarrow> a = b" and "a \<in> set xs"
  shows "List.find P xs = Some a \<longleftrightarrow> P a"
proof
  assume "P a"
  then have "List.find P xs \<noteq> None" using assms(2) by (auto simp: find_None_iff)
  then obtain b where b: "List.find P xs = Some b" by blast
  then have "P b" by (auto simp: find_Some_iff)
  with b \<open>P a\<close> assms(1) show "List.find P xs = Some a" by blast
qed (auto simp: find_Some_iff)

lemma io_live_eq:
  assumes "io_good contents sz T ps" and "\<And>k. 0 < sz k"
  shows "io_live contents sz T ps x = Some k \<longleftrightarrow> (\<exists>p. ps k = Some p \<and> x \<in> pool_live contents (sz k) T p)"
proof -
  let ?P = "\<lambda>k. case ps k of None \<Rightarrow> False | Some p \<Rightarrow> x \<in> pool_live contents (sz k) T p"
  have "a = b" if ab: "?P a" "?P b" for a b
  proof (rule ccontr)
    assume "a \<noteq> b"
    obtain p q where p: "ps a = Some p" "x \<in> pool_live contents (sz a) T p"
      and q: "ps b = Some q" "x \<in> pool_live contents (sz b) T q"
      using ab by (auto split: option.splits)
    then have "x \<in> pool_region (sz a) p \<inter> pool_region (sz b) q"
      using pool_live_region [OF assms(2)] by blast
    with assms(1) \<open>a \<noteq> b\<close> p(1) q(1) show False unfolding io_good_def by blast
  qed
  then have "List.find ?P io_types = Some k \<longleftrightarrow> ?P k" by (rule find_unique) simp_all
  then show ?thesis by (simp add: io_live_def split: option.split)
qed

lemma option_eqI: "(\<And>k. a = Some k \<longleftrightarrow> b = Some k) \<Longrightarrow> a = b"
  by (metis not_Some_eq)

text \<open>One of the pools changes, within memory that no other pool has.\<close>

lemma io_good_update:
  assumes "io_good contents sz T ps" and "pool_good contents (sz k) T p"
    and "\<And>j q. j \<noteq> k \<Longrightarrow> ps j = Some q \<Longrightarrow> pool_region (sz k) p \<inter> pool_region (sz j) q = {}"
  shows "io_good contents sz T (ps(k \<mapsto> p))"
  using assms unfolding io_good_def by (auto simp: Int_commute)

lemma io_live_update:
  assumes good: "io_good contents sz T ps" "io_good contents sz T (ps(k \<mapsto> p))" and pos: "\<And>k. 0 < sz k"
    and L: "\<And>x. (x \<in> pool_live contents (sz k) T p) = (live' x = Some k)"
    and other: "\<And>x j. j \<noteq> k \<Longrightarrow> (io_live contents sz T ps x = Some j) = (live' x = Some j)"
  shows "io_live contents sz T (ps(k \<mapsto> p)) = live'"
proof (intro ext option_eqI)
  fix x j
  show "io_live contents sz T (ps(k \<mapsto> p)) x = Some j \<longleftrightarrow> live' x = Some j"
    using io_live_eq [OF good(2) pos, of x j] io_live_eq [OF good(1) pos, of x j] L other
    by (cases "j = k") auto
qed

section \<open>The pools provide the operations\<close>

text \<open>\<open>operator new\<close> returns memory that no pool has, or fails.\<close>

locale io_pool_setting = reliable_queue Q contents
  for Q :: "'q lfq_ops" and contents :: "'q \<Rightarrow> nat list" +
  fixes sz :: "io_type \<Rightarrow> nat" and T :: "nat set" and alloc :: "'q io_pools \<Rightarrow> nat \<Rightarrow> nat option" and t :: nat
  assumes size_pos: "0 < sz k" and size_small: "sz k * 128 < 2 ^ 64"
    and threads: "finite T" and thread: "t \<in> T"
    and alloc_fresh: "sz k * n < 2 ^ 64 \<Longrightarrow> alloc ps (chunk_bytes (sz k) n) = Some base \<Longrightarrow>
      {base..<base + sz k * n} \<inter> used_memory sz ps = {}"
begin

lemma pool: "pool_setting Q contents (sz k) T"
  by unfold_locales (simp_all add: size_pos threads)

abbreviation "good_pools \<equiv> io_good contents sz T"
abbreviation "live_at \<equiv> io_live contents sz T"

lemma fresh_for:
  assumes "sz k * n < 2 ^ 64" and "(\<Union>c\<in>set cs. chunk_region (sz k) c) \<subseteq> used_memory sz ps"
  shows "fresh_memory (sz k) (alloc ps) n cs"
  using alloc_fresh [OF assms(1)] assms by (fastforce simp: fresh_memory_def list_all_iff)

lemma get_io_pool_step:
  fixes k :: io_type
  assumes good: "good_pools ps"
  defines "p \<equiv> get_io_pool Q sz alloc k ps"
  shows "good_pools (ps(k \<mapsto> p)) \<and> live_at (ps(k \<mapsto> p)) = live_at ps"
proof (cases "ps k")
  case None
  have count: "cfg_initial_count default_config = 128" "cfg_chunk_size default_config = 128"
    by (simp_all add: default_config_def)
  have p: "p = object_pool_new Q (sz k) (alloc ps) default_config" by (simp add: p_def get_io_pool_def None)
  have new: "pool_good contents (sz k) T p" "pool_live contents (sz k) T p = {}"
    using pool_setting.pool_new_step [OF pool [of k], of "alloc ps" default_config] size_small [of k]
      fresh_for [of k 128 "[]" ps]
    by (simp_all add: p count)
  have apart: "pool_region (sz k) p \<inter> used_memory sz ps = {}"
    using pool_new_chunks [of Q "sz k" "alloc ps" default_config] alloc_fresh [OF size_small [of k], of ps]
    by (auto simp: p count pool_region_def chunk_region_def disjoint_iff)
  have g: "good_pools (ps(k \<mapsto> p))"
    by (rule io_good_update [OF good new(1)]) (use apart used_memory_pool [of ps _ _ sz] in blast)
  have "live_at ps x \<noteq> Some k" for x using io_live_eq [OF good size_pos, of x k] None by simp
  then have "live_at (ps(k \<mapsto> p)) = live_at ps"
    by (intro io_live_update [OF good g size_pos]) (simp_all add: new(2))
  with g show ?thesis by blast
next
  case (Some q)
  then have "ps(k \<mapsto> p) = ps" by (auto simp: p_def get_io_pool_def)
  with good show ?thesis by simp
qed

lemma io_acquire_step:
  assumes good: "good_pools ps" and acq: "io_acquire Q sz alloc t k ps = (r, ps')"
  shows "good_pools ps' \<and> (\<forall>x. r = Some x \<longrightarrow> live_at ps x = None) \<and>
    live_at ps' = (case r of None \<Rightarrow> live_at ps | Some x \<Rightarrow> (live_at ps)(x \<mapsto> k))"
proof -
  define p where "p = get_io_pool Q sz alloc k ps"
  define ps1 where "ps1 = ps(k \<mapsto> p)"
  have g1: "good_pools ps1" and l1: "live_at ps1 = live_at ps"
    using get_io_pool_step [OF good, of k] by (simp_all add: p_def ps1_def)
  have "\<exists>r' p'. acquire Q (sz k) (alloc ps1) True t p = Inr (r', p')"
    by (rule acquire_never_faults)
  then obtain p' where p': "acquire Q (sz k) (alloc ps1) True t p = Inr (r, p')" and ps': "ps' = ps1(k \<mapsto> p')"
    using acq by (auto simp: io_acquire_def Let_def simp flip: p_def ps1_def)
  have pk: "ps1 k = Some p" and gp: "pool_good contents (sz k) T p"
    using g1 by (simp_all add: ps1_def io_good_def)
  then have small: "sz k * chunk_size p < 2 ^ 64" by (simp add: pool_good_def)
  have "fresh_memory (sz k) (alloc ps1) (chunk_size p) (chunks p)"
    using fresh_for [OF small] used_memory_pool [of ps1 k p sz] pk by (simp add: pool_region_def)
  note step = pool_setting.pool_acquire_step [OF pool gp thread this p']
  have "pool_region (sz k) p' \<inter> pool_region (sz j) q = {}" if "j \<noteq> k" "ps1 j = Some q" for j q
  proof -
    have old: "pool_region (sz k) p \<inter> pool_region (sz j) q = {}"
      using g1 pk that unfolding io_good_def by blast
    have "pool_region (sz k) p' = pool_region (sz k) p \<or> (\<exists>base. {base..<base + sz k * chunk_size p} \<inter>
        used_memory sz ps1 = {} \<and> pool_region (sz k) p' = {base..<base + sz k * chunk_size p} \<union> pool_region (sz k) p)"
      using acquire_chunks [OF p']
    proof (elim disjE exE conjE)
      fix base
      assume "alloc ps1 (chunk_bytes (sz k) (chunk_size p)) = Some base"
        and "chunks p' = \<lparr>chunk_count = chunk_size p, chunk_memory = base\<rparr> # chunks p"
      with alloc_fresh [OF small] show ?thesis
        by (intro disjI2 exI [of _ base]) (simp add: pool_region_def chunk_region_def)
    qed (simp add: pool_region_def)
    moreover have "pool_region (sz j) q \<subseteq> used_memory sz ps1" using that(2) by (rule used_memory_pool)
    ultimately show ?thesis using old
      by (rule grown_disjoint [where f = "\<lambda>base. {base..<base + sz k * chunk_size p}"])
  qed
  note apart = this
  have g': "good_pools ps'"
    unfolding ps' by (rule io_good_update [OF g1 conjunct1 [OF step]]) (rule apart)
  have fresh: "live_at ps1 x = None" if r: "r = Some x" for x
  proof (rule ccontr)
    assume "live_at ps1 x \<noteq> None"
    then obtain j where j: "live_at ps1 x = Some j" by blast
    then obtain q where q: "ps1 j = Some q" "x \<in> pool_live contents (sz j) T q"
      using io_live_eq [OF g1 size_pos] by blast
    have x: "x \<in> pool_live contents (sz k) T p'" using step r by simp
    show False
    proof (cases "j = k")
      case True
      with q pk step r show False by simp
    next
      case False
      then have "live_at ps' x = Some j \<and> live_at ps' x = Some k"
        using io_live_eq [OF g' size_pos] x q by (auto simp: ps')
      with False show False by (metis option.inject)
    qed
  qed
  have in_pool: "y \<in> pool_live contents (sz k) T p \<longleftrightarrow> live_at ps1 y = Some k" for y
    using io_live_eq [OF g1 size_pos] pk by auto
  have "live_at (ps1(k \<mapsto> p')) = (case r of None \<Rightarrow> live_at ps1 | Some x \<Rightarrow> (live_at ps1)(x \<mapsto> k))"
    using step fresh g1 g' in_pool by (intro io_live_update size_pos) (auto simp: ps' split: option.splits)
  with g' fresh show ?thesis unfolding ps' l1 by blast
qed

lemma io_release_step:
  assumes good: "good_pools ps" and x: "live_at ps x = Some k"
  shows "good_pools (io_release Q sz alloc t k x ps) \<and>
    live_at (io_release Q sz alloc t k x ps) = (live_at ps)(x := None)"
proof -
  obtain p where p: "ps k = Some p" "x \<in> pool_live contents (sz k) T p"
    using io_live_eq [OF good size_pos] x by blast
  let ?p = "release Q t (Some x) p"
  have rel: "io_release Q sz alloc t k x ps = ps(k \<mapsto> ?p)" by (simp add: io_release_def get_io_pool_def p(1))
  have gp: "pool_good contents (sz k) T p" using good p(1) by (simp add: io_good_def)
  note step = pool_setting.pool_release_step [OF pool gp thread p(2)]
  have in_pool: "y \<in> pool_live contents (sz k) T p \<longleftrightarrow> live_at ps y = Some k" for y
    using io_live_eq [OF good size_pos] p(1) by auto
  have "pool_region (sz k) ?p \<inter> pool_region (sz j) q = {}" if "j \<noteq> k" "ps j = Some q" for j q
    using good p(1) that by (simp add: io_good_def pool_region_def)
  note apart = this
  have g': "good_pools (ps(k \<mapsto> ?p))"
    by (rule io_good_update [OF good conjunct1 [OF step]]) (rule apart)
  have "live_at (ps(k \<mapsto> ?p)) = (live_at ps)(x := None)"
    using step x good g' in_pool by (intro io_live_update size_pos) (auto split: if_splits)
  with g' show ?thesis by (simp add: rel)
qed

sublocale operation_pool "object_io_pool Q sz alloc t" good_pools live_at
  by unfold_locales (use io_acquire_step io_release_step in \<open>auto simp: object_io_pool_def\<close>)

end

text \<open>A simple allocator: the new block starts behind all blocks of the pools.\<close>

definition pool_stop :: "nat \<Rightarrow> 'q object_pool option \<Rightarrow> nat" where
  "pool_stop sz p =
     (case p of None \<Rightarrow> 0 | Some p \<Rightarrow> sum_list (map (\<lambda>c. chunk_memory c + sz * chunk_count c) (chunks p)))"

definition bump_alloc :: "(io_type \<Rightarrow> nat) \<Rightarrow> 'q io_pools \<Rightarrow> nat \<Rightarrow> nat option" where
  "bump_alloc sz ps n = Some (sum_list (map (\<lambda>k. pool_stop (sz k) (ps k)) io_types))"

lemma bump_alloc_fresh:
  assumes "bump_alloc sz ps n = Some base"
  shows "{base..<base + m} \<inter> used_memory sz ps = {}"
proof -
  have "x < base" if x: "ps k = Some p" "c \<in> set (chunks p)" "x \<in> chunk_region (sz k) c" for x k p c
  proof -
    have "x < chunk_memory c + sz k * chunk_count c" using x(3) by (simp add: chunk_region_def)
    also have "\<dots> \<le> pool_stop (sz k) (ps k)"
      using x(1,2) by (simp add: pool_stop_def member_le_sum_list)
    also have "\<dots> \<le> base"
      using assms by (auto simp: bump_alloc_def intro: member_le_sum_list)
    finally show ?thesis .
  qed
  then show ?thesis by (fastforce simp: used_memory_def pool_region_def split: option.splits)
qed

interpretation worker_pool: io_pool_setting list_queue "\<lambda>q. q" "\<lambda>_. 64" "{0, 1}" "bump_alloc (\<lambda>_. 64)" 0
  by unfold_locales (simp_all add: bump_alloc_fresh)

interpretation worker_service: io_service list_queue "\<lambda>q. q" "scripted_ring script" "\<lambda>r. mset (fst r)"
    "object_io_pool list_queue (\<lambda>_. 64) (bump_alloc (\<lambda>_. 64)) 0" "io_good (\<lambda>q. q) (\<lambda>_. 64) {0, 1}"
    "io_live (\<lambda>q. q) (\<lambda>_. 64) {0, 1}" for script
  ..

end
