(* ===== verification/Service_Properties.thy ===== *)
theory Service_Properties
  imports IO_Pool
begin

text \<open>
  What a running service does with requests, operations and sessions, and what the builder configures.
\<close>

section \<open>Distribution of requests\<close>

lemma sint_u32: "sint (w :: u32) = (uint w + 2 ^ 31) mod 2 ^ 32 - 2 ^ 31"
  by (simp add: sint_uint signed_take_bit_eq_take_bit_shift take_bit_eq_mod)

lemma unat_u32: "unat (w :: u32) < 2 ^ 32"
  using unsigned_less [of w] by simp

lemma sint_u32_low:
  assumes "unat (w :: u32) < 2 ^ 31"
  shows "sint w = int (unat w)"
proof -
  have u: "uint w = int (unat w)" by simp
  have "(int (unat w) + 2 ^ 31) mod 2 ^ 32 = int (unat w) + 2 ^ 31"
    using assms by (intro mod_pos_pos_trivial) (simp_all del: of_nat_unat)
  then show ?thesis unfolding sint_u32 u by linarith
qed

lemma sint_u32_high:
  assumes "2 ^ 31 \<le> unat (w :: u32)"
  shows "sint w = int (unat w) - 2 ^ 32"
proof -
  have u: "uint w = int (unat w)" by simp
  have "(int (unat w) + 2 ^ 31 - 2 ^ 32) mod 2 ^ 32 = int (unat w) + 2 ^ 31 - 2 ^ 32"
    using assms unat_u32 [of w] by (intro mod_pos_pos_trivial) (simp_all del: of_nat_unat)
  then have "(int (unat w) + 2 ^ 31) mod 2 ^ 32 = int (unat w) + 2 ^ 31 - 2 ^ 32"
    by (simp only: minus_mod_self2)
  then show ?thesis unfolding sint_u32 u by linarith
qed

lemma smod_nonneg: "int k smod int n = int (k mod n)"
  by (simp add: signed_modulo_int_def sgn_if zmod_int)

lemma smod_negative: "0 < k \<Longrightarrow> (- int k) smod int n = - int (k mod n)"
  by (simp add: signed_modulo_int_def sgn_if zmod_int)

lemma sdiv_fits:
  assumes "0 < n" and "fits_int a"
  shows "fits_int (a sdiv int n)"
proof -
  have le: "0 \<le> b div int n \<and> b div int n \<le> b" if "0 \<le> b" for b
    using that assms(1) zdiv_mono2 [of b 1 "int n"] by (simp add: pos_imp_zdiv_nonneg_iff)
  show ?thesis
    using assms le [of a] le [of "- a"] by (auto simp: signed_divide_int_def fits_int_def sgn_if)
qed

lemma requests_round_robin_eq:
  assumes "0 < n" and "thread_count \<sigma> = int n" and "length (worker_threads \<sigma>) = n"
    and "unat (request_index \<sigma>) < 2 ^ 31"
  shows "request_io Q x \<sigma> =
    (let i = unat (request_index \<sigma>) mod n
     in Inr (\<sigma>\<lparr>request_index := request_index \<sigma> + 1,
               worker_threads := (worker_threads \<sigma>)[i := push_request Q x (worker_threads \<sigma> ! i)]\<rparr>))"
proof -
  have s: "sint (request_index \<sigma>) = int (unat (request_index \<sigma>))" using assms(4) by (rule sint_u32_low)
  have "(n \<le> unat (request_index \<sigma>) mod n) = False" using assms(1) by (simp add: not_le)
  moreover have "fits_int (int (unat (request_index \<sigma>)) sdiv int n)"
    using assms(1,4) by (intro sdiv_fits) (auto simp: fits_int_def simp del: of_nat_unat)
  ultimately show ?thesis
    using assms by (simp add: request_io_def request_io_at_def s smod_nonneg Let_def del: of_nat_unat)
qed

text \<open>
  Requests are dealt out in turn: as long as fewer than \<open>2 ^ 31\<close> requests have been made before, the
  next one is pushed to the worker whose index is that number modulo the number of workers.
\<close>

theorem requests_round_robin:
  assumes "0 < n" and "thread_count \<sigma> = int n" and "length (worker_threads \<sigma>) = n"
    and "unat (request_index \<sigma>) < 2 ^ 31"
  shows "request_io Q x \<sigma> =
    (let i = unat (request_index \<sigma>) mod n
     in Inr (\<sigma>\<lparr>request_index := request_index \<sigma> + 1,
               worker_threads := (worker_threads \<sigma>)[i := push_request Q x (worker_threads \<sigma> ! i)]\<rparr>))"
  using assms by (rule requests_round_robin_eq)

theorem requests_round_robin_witness:
  "request_io list_queue 9 ((service_new list_queue 0 () ())\<lparr>thread_count := 2, request_index := 5,
       worker_threads := [\<lparr>rq_queue = [1], rq_ring = ()\<rparr>, \<lparr>rq_queue = [2], rq_ring = ()\<rparr>]\<rparr>)
   = Inr ((service_new list_queue 0 () ())\<lparr>thread_count := 2, request_index := 6,
       worker_threads := [\<lparr>rq_queue = [1], rq_ring = ()\<rparr>, \<lparr>rq_queue = [2, 9], rq_ring = ()\<rparr>]\<rparr>)"
  using requests_round_robin [of 2 "(service_new list_queue 0 () ())\<lparr>thread_count := 2, request_index := 5,
       worker_threads := [\<lparr>rq_queue = [1], rq_ring = ()\<rparr>, \<lparr>rq_queue = [2], rq_ring = ()\<rparr>]\<rparr>" list_queue 9]
  by (simp add: push_request_def)

text \<open>
  C28: After \<open>2 ^ 31\<close> requests the service loses requests: the counter has become negative, the remainder
  with it, and every request whose remainder is not zero is dropped: no worker gets it and nothing
  reports it.
\<close>

theorem requests_lost_after_wrap:
  assumes "0 < n" and "thread_count \<sigma> = int n" and "2 ^ 31 \<le> unat (request_index \<sigma>)"
    and "\<not> n dvd 2 ^ 32 - unat (request_index \<sigma>)"
  shows "request_io Q x \<sigma> = Inr (\<sigma>\<lparr>request_index := request_index \<sigma> + 1\<rparr>)"
proof -
  define k where "k = 2 ^ 32 - unat (request_index \<sigma>)"
  have k: "0 < k" "k \<le> 2 ^ 31" and s: "sint (request_index \<sigma>) = - int k"
    using sint_u32_high [OF assms(3)] unat_u32 [of "request_index \<sigma>"] assms(3)
    by (simp_all add: k_def del: of_nat_unat)
  have "0 < k mod n" using assms(4) by (simp add: k_def mod_greater_zero_iff_not_dvd)
  then have "(- int k) smod int n < 0"
    using smod_negative [OF k(1), of n] by simp
  moreover have "fits_int ((- int k) sdiv int n)"
    using assms(1) k by (intro sdiv_fits) (simp_all add: fits_int_def)
  ultimately show ?thesis using assms(1,2) by (simp add: request_io_def request_io_at_def s Let_def)
qed

theorem requests_lost_after_wrap_witness:
  "request_io list_queue 9 ((service_new list_queue 0 () ())\<lparr>thread_count := 3, request_index := 0x80000000,
       worker_threads := replicate 3 \<lparr>rq_queue = [], rq_ring = ()\<rparr>\<rparr>)
   = Inr ((service_new list_queue 0 () ())\<lparr>thread_count := 3, request_index := 0x80000001,
       worker_threads := replicate 3 \<lparr>rq_queue = [], rq_ring = ()\<rparr>\<rparr>)"
  using requests_lost_after_wrap [of 3 "(service_new list_queue 0 () ())\<lparr>thread_count := 3,
       request_index := 0x80000000, worker_threads := replicate 3 \<lparr>rq_queue = [], rq_ring = ()\<rparr>\<rparr>" list_queue 9]
  by (simp add: dvd_eq_mod_eq_0)

text \<open>
  The accepts requested at the start: one for each session, as far as the backlog goes, dealt out in
  turn.
\<close>

lemma unat_inc: "unat (w :: u32) < 2 ^ 32 - 1 \<Longrightarrow> unat (w + 1) = Suc (unat w)"
  by (simp add: unat_word_ariths(1))

definition waiting_at :: "('q \<Rightarrow> nat list) \<Rightarrow> nat \<Rightarrow> ('q, 'r, 'p, 's) service \<Rightarrow> nat" where
  "waiting_at contents i \<sigma> = length (contents (rq_queue (worker_threads \<sigma> ! i)))"

context reliable_queue
begin

lemma make_sessions_contents:
  "contents (sessions_queue (make_sessions Q n \<sigma>)) =
     contents (sessions_queue \<sigma>) @ [length (sessions \<sigma>)..<length (sessions \<sigma>) + n]"
  by (induction n arbitrary: \<sigma>) (simp_all add: upt_conv_Cons)

lemma accept_loop_spec:
  assumes pool: "operation_pool P good live" and some: "\<And>p. good p \<Longrightarrow> fst (op_acquire P Type_Accept p) \<noteq> None"
    and n: "0 < n"
  shows "good (io_pool \<sigma>) \<Longrightarrow> thread_count \<sigma> = int n \<Longrightarrow> length (worker_threads \<sigma>) = n \<Longrightarrow>
    unat (request_index \<sigma>) + b \<le> 2 ^ 31 \<Longrightarrow>
    \<exists>\<sigma>'. accept_loop Q P b \<sigma> = Inr \<sigma>' \<and> sessions \<sigma>' = sessions \<sigma> \<and>
      contents (sessions_queue \<sigma>') = drop b (contents (sessions_queue \<sigma>)) \<and>
      (\<forall>i<n. waiting_at contents i \<sigma>' = waiting_at contents i \<sigma> + length (filter (\<lambda>j. j mod n = i)
         [unat (request_index \<sigma>)..<unat (request_index \<sigma>) + min b (length (contents (sessions_queue \<sigma>)))]))"
proof (induction b arbitrary: \<sigma>)
  case (Suc b)
  show ?case
  proof (cases "contents (sessions_queue \<sigma>)")
    case Nil
    then have "lfq_pop Q (sessions_queue \<sigma>) = None" by (simp add: pop_None_iff)
    then have "request_accept_one Q P \<sigma> = Inr \<sigma>" by (simp add: request_accept_one_def)
    moreover obtain \<sigma>' where "accept_loop Q P b \<sigma> = Inr \<sigma>' \<and> sessions \<sigma>' = sessions \<sigma> \<and>
        contents (sessions_queue \<sigma>') = [] \<and> (\<forall>i<n. waiting_at contents i \<sigma>' = waiting_at contents i \<sigma>)"
      using Suc.IH [of \<sigma>] Suc.prems Nil by auto
    ultimately show ?thesis using Nil by auto
  next
    case (Cons s rest)
    then obtain q where pop: "lfq_pop Q (sessions_queue \<sigma>) = Some (s, q)" and q: "contents q = rest"
      by (rule pop_nonempty)
    obtain x p where acq: "op_acquire P Type_Accept (io_pool \<sigma>) = (Some x, p)"
      using some [OF Suc.prems(1)] by (cases "op_acquire P Type_Accept (io_pool \<sigma>)") auto
    have good': "good p" using operation_pool.acquire_new [OF pool Suc.prems(1) acq] by blast
    let ?k = "unat (request_index \<sigma>)"
    let ?i = "?k mod n"
    let ?\<sigma>1 = "\<sigma>\<lparr>sessions_queue := q, io_pool := p, io_ops := (io_ops \<sigma>)(x \<mapsto>
        \<lparr>op_object = s, op_kind = Io_Accept (acceptor_fd \<sigma>), op_refs = add_ref 0\<rparr>)\<rparr>"
    define \<sigma>2 where "\<sigma>2 = ?\<sigma>1\<lparr>request_index := request_index \<sigma> + 1,
      worker_threads := (worker_threads \<sigma>)[?i := push_request Q x (worker_threads \<sigma> ! ?i)]\<rparr>"
    have "request_io Q x ?\<sigma>1 = Inr \<sigma>2"
      using requests_round_robin_eq [of n ?\<sigma>1 Q x] n Suc.prems by (simp add: \<sigma>2_def Let_def)
    then have step: "request_accept_one Q P \<sigma> = Inr \<sigma>2"
      by (simp add: request_accept_one_def pop request_io_new_def acq)
    have idx: "unat (request_index \<sigma>2) = Suc ?k"
      using Suc.prems(4) by (simp add: \<sigma>2_def unat_inc)
    have "good (io_pool \<sigma>2)" "thread_count \<sigma>2 = int n" "length (worker_threads \<sigma>2) = n"
      "unat (request_index \<sigma>2) + b \<le> 2 ^ 31"
      using good' Suc.prems idx by (simp_all add: \<sigma>2_def)
    from Suc.IH [OF this] obtain \<sigma>' where \<sigma>': "accept_loop Q P b \<sigma>2 = Inr \<sigma>'" "sessions \<sigma>' = sessions \<sigma>2"
      "contents (sessions_queue \<sigma>') = drop b (contents (sessions_queue \<sigma>2))"
      "\<forall>i<n. waiting_at contents i \<sigma>' = waiting_at contents i \<sigma>2 + length (filter (\<lambda>j. j mod n = i)
         [Suc ?k..<Suc ?k + min b (length (contents (sessions_queue \<sigma>2)))])"
      unfolding idx by blast
    have w2: "waiting_at contents i \<sigma>2 = waiting_at contents i \<sigma> + (if ?i = i then 1 else 0)" if "i < n" for i
      using that Suc.prems(3) by (auto simp: waiting_at_def \<sigma>2_def push_request_def)
    have "[?k..<?k + min (Suc b) (length (contents (sessions_queue \<sigma>)))] =
        ?k # [Suc ?k..<Suc ?k + min b (length rest)]"
    proof -
      have "min (Suc b) (length (contents (sessions_queue \<sigma>))) = Suc (min b (length rest))"
        by (simp add: Cons)
      then show ?thesis by (simp add: upt_conv_Cons del: upt_Suc)
    qed
    with \<sigma>' w2 step show ?thesis by (simp add: Cons \<sigma>2_def q)
  qed
qed simp

end

lemma initialize_accepts:
  assumes "reliable_queue Q contents" and "operation_pool P good live"
    and "\<And>p. good p \<Longrightarrow> fst (op_acquire P Type_Accept p) \<noteq> None" and "good (io_pool \<sigma>)"
    and "worker_threads \<sigma> = []" and "sessions \<sigma> = []" and "contents (sessions_queue \<sigma>) = []"
    and "request_index \<sigma> = 0" and "0 < n" and "thread_count \<sigma> = int n"
    and "session_count \<sigma> = int m" and "backlog \<sigma> = int b" and "b \<le> 2 ^ 31"
  shows "\<exists>\<sigma>'. initialize Q U P \<sigma> = Inr \<sigma>' \<and> sessions \<sigma>' = replicate m new_session \<and>
    contents (sessions_queue \<sigma>') = [b..<m] \<and>
    (\<forall>i<n. length (contents (rq_queue (worker_threads \<sigma>' ! i))) = card {j. j < b \<and> j < m \<and> j mod n = i})"
proof -
  let ?\<sigma>0 = "initialize_threads Q U \<sigma>"
  let ?\<sigma>1 = "make_sessions Q m ?\<sigma>0"
  note made = reliable_queue.make_sessions_contents [OF assms(1), of m ?\<sigma>0]
  have w: "worker_threads ?\<sigma>0 = replicate n (request_queue_new Q U (as_size_t (queue_depth_per_thread \<sigma>)))"
    using assms(5,10) by (simp add: initialize_threads_def)
  have q: "contents (sessions_queue ?\<sigma>1) = [0..<m]" and idx: "unat (request_index ?\<sigma>1) = 0"
    using made assms(6,7,8) by (simp_all add: initialize_threads_def)
  have new: "contents (lfq_new Q k) = []" for k
    using assms(1) by (meson lockfree_queue.new_contents reliable_queue.axioms(1))
  have zero: "waiting_at contents i ?\<sigma>1 = 0" if "i < n" for i
    using that new by (simp add: waiting_at_def w request_queue_new_def)
  have "good (io_pool ?\<sigma>1)" "thread_count ?\<sigma>1 = int n" "length (worker_threads ?\<sigma>1) = n"
    "unat (request_index ?\<sigma>1) + b \<le> 2 ^ 31"
    using assms(4,10,13) idx w by (simp_all add: initialize_threads_def)
  from reliable_queue.accept_loop_spec [OF assms(1-3,9) this]
  obtain \<sigma>' where \<sigma>': "accept_loop Q P b ?\<sigma>1 = Inr \<sigma>'" "sessions \<sigma>' = sessions ?\<sigma>1"
    "contents (sessions_queue \<sigma>') = drop b [0..<m]"
    "\<forall>i<n. waiting_at contents i \<sigma>' = length (filter (\<lambda>j. j mod n = i) [0..<min b m])"
    using q idx zero by auto
  have "length (filter (\<lambda>j. j mod n = i) [0..<min b m]) = card {j. j < b \<and> j < m \<and> j mod n = i}" for i
  proof -
    have "length (filter (\<lambda>j. j mod n = i) [0..<min b m]) = card (set (filter (\<lambda>j. j mod n = i) [0..<min b m]))"
      by (rule distinct_card [symmetric]) simp
    also have "set (filter (\<lambda>j. j mod n = i) [0..<min b m]) = {j. j < b \<and> j < m \<and> j mod n = i}" by auto
    finally show ?thesis .
  qed
  with \<sigma>' show ?thesis
    using assms(6,11,12) by (simp add: initialize_def waiting_at_def initialize_threads_def)
qed

text \<open>
  \<open>initialize\<close> requests one accept for every session as far as the backlog allows, and deals them out
  evenly: with \<open>n\<close> workers, \<open>m\<close> sessions and a backlog of \<open>b\<close>, worker \<open>i\<close> gets as many as there are
  numbers below both \<open>b\<close> and \<open>m\<close> that leave remainder \<open>i\<close>, and the sessions from \<open>b\<close> on stay in the pool.
\<close>

theorem initialize_requests_accepts:
  assumes "reliable_queue Q contents" and "operation_pool P good live"
    and "\<And>p. good p \<Longrightarrow> fst (op_acquire P Type_Accept p) \<noteq> None" and "good (io_pool \<sigma>)"
    and "worker_threads \<sigma> = []" and "sessions \<sigma> = []" and "contents (sessions_queue \<sigma>) = []"
    and "request_index \<sigma> = 0" and "0 < n" and "thread_count \<sigma> = int n"
    and "session_count \<sigma> = int m" and "backlog \<sigma> = int b" and "b \<le> 2 ^ 31"
  shows "\<exists>\<sigma>'. initialize Q U P \<sigma> = Inr \<sigma>' \<and> sessions \<sigma>' = replicate m new_session \<and>
    contents (sessions_queue \<sigma>') = [b..<m] \<and>
    (\<forall>i<n. length (contents (rq_queue (worker_threads \<sigma>' ! i))) = card {j. j < b \<and> j < m \<and> j mod n = i})"
  using assms by (rule initialize_accepts)

text \<open>A pool that hands out consecutive addresses serves the witness.\<close>

definition counting_pool :: "(nat \<times> (nat \<Rightarrow> io_type option)) op_pool" where
  "counting_pool =
     \<lparr>op_acquire = (\<lambda>k (n, L). (Some n, (Suc n, L(n \<mapsto> k)))), op_release = (\<lambda>k x (n, L). (n, L(x := None)))\<rparr>"

interpretation counting: operation_pool counting_pool "\<lambda>(n, L). \<forall>x. n \<le> x \<longrightarrow> L x = None" snd
  by unfold_locales (auto simp: counting_pool_def)

theorem initialize_requests_accepts_witness:
  "\<exists>\<sigma>'. initialize list_queue (scripted_ring []) counting_pool
       ((service_new list_queue 0 (0, Map.empty) ())\<lparr>thread_count := 2, session_count := 5, backlog := 3\<rparr>) = Inr \<sigma>' \<and>
     sessions_queue \<sigma>' = [3..<5] \<and>
     length (rq_queue (worker_threads \<sigma>' ! 0)) = card {j. j < 3 \<and> j < 5 \<and> j mod 2 = (0::nat)}"
proof -
  let ?sv = "(service_new list_queue 0 (0, Map.empty) ())\<lparr>thread_count := 2, session_count := 5, backlog := 3\<rparr>"
  have "fst (op_acquire counting_pool Type_Accept p) \<noteq> None" for p
    by (cases p) (simp add: counting_pool_def)
  then have "\<exists>\<sigma>'. initialize list_queue (scripted_ring []) counting_pool ?sv = Inr \<sigma>' \<and>
      sessions \<sigma>' = replicate 5 new_session \<and> sessions_queue \<sigma>' = [3..<5] \<and>
      (\<forall>i<2. length (rq_queue (worker_threads \<sigma>' ! i)) = card {j. j < 3 \<and> j < 5 \<and> j mod 2 = i})"
    by (intro initialize_requests_accepts [OF lq.reliable_queue_axioms counting.operation_pool_axioms])
      (simp_all add: service_new_def)
  then obtain \<sigma>' where i: "initialize list_queue (scripted_ring []) counting_pool ?sv = Inr \<sigma>'"
      "sessions_queue \<sigma>' = [3..<5]"
    and w: "\<forall>i<2. length (rq_queue (worker_threads \<sigma>' ! i)) = card {j. j < 3 \<and> j < 5 \<and> j mod 2 = i}"
    by blast
  from w have "length (rq_queue (worker_threads \<sigma>' ! 0)) = card {j. j < 3 \<and> j < 5 \<and> j mod 2 = (0::nat)}"
    by (elim allE [of _ 0] impE) simp_all
  with i show ?thesis by blast
qed

section \<open>A small service\<close>

text \<open>
  For the witnesses: one worker, one session, pools of two slots for accepts, receives and sends, a ring that
  completes the first operation with result 5. \<open>initialize\<close> requests the accept, the first routine submits it,
  the second completes it.
\<close>

type_synonym demo = "(nat list, nat list \<times> int list, nat list io_pools, unit) service"

definition demo_pool :: "nat list io_pools op_pool" where
  "demo_pool = object_io_pool list_queue (\<lambda>_. 64) (bump_alloc (\<lambda>_. 64)) 0"

definition pool_at :: "nat \<Rightarrow> nat list object_pool" where
  "pool_at base = object_pool_new list_queue 64 (\<lambda>_. Some base) small_config"

definition demo_pools :: "nat list io_pools" where
  "demo_pools = [Type_Accept \<mapsto> small_pool, Type_Recv \<mapsto> pool_at 8192, Type_Send_Buffer \<mapsto> pool_at 12288]"

definition demo_pools_after :: "nat list io_pools" where
  "demo_pools_after = demo_pools(Type_Accept \<mapsto> small_pool_after)"

definition demo_ring :: "(nat list \<times> int list) uring_ops" where
  "demo_ring = scripted_ring [5]"

definition demo_service :: demo where
  "demo_service = (service_new list_queue 0 demo_pools ())
     \<lparr>thread_count := 1, session_count := 1, backlog := 1, acceptor_fd := 3\<rparr>"

definition demo_started :: demo where
  "demo_started = demo_service\<lparr>request_index := 1,
     worker_threads := [\<lparr>rq_queue = [4096], rq_ring = ([], [5])\<rparr>],
     sessions := [new_session], sessions_queue := [], io_pool := demo_pools_after,
     io_ops := [4096 \<mapsto> \<lparr>op_object = 0, op_kind = Io_Accept 3, op_refs = 1\<rparr>]\<rparr>"

definition demo_flushed :: demo where
  "demo_flushed = demo_started\<lparr>worker_threads := [\<lparr>rq_queue = [], rq_ring = ([4096], [5])\<rparr>]\<rparr>"

definition no_requests :: "unit \<Rightarrow> service_call list \<times> unit" where
  "no_requests u = ([], u)"

lemmas request_defs =
  request_accept_one_def request_io_new_def request_io_def request_io_at_def push_request_def add_ref_def
  Let_def split_beta fits_int_def checked_int_def demo_service_def service_new_def
  demo_started_def demo_ring_def scripted_ring_def

lemmas routine_defs =
  routine_def bind_loop_def wait_one_def set_worker_def handle_completion_def completion_of_cqe_def
  flush_worker_def flush_requests_def flush_loop.simps op_request_io_def add_sqe_def submit_def
  destroy_completion_def completion_seen_def no_requests_def

lemma pool_at_eq:
  "pool_at base = \<lparr>chunk_size = 2, tls_cache_size = 4, batch_size = 2, free_queue = [base, base + 64],
     chunks = [\<lparr>chunk_count = 2, chunk_memory = base\<rparr>], total_allocated = 2,
     allocating = False, tls = (\<lambda>_. None)\<rparr>"
  by (simp add: pool_at_def small_config_def object_pool_new_def allocate_chunk_def
      chunk_bytes_def get_slot_def upt_rec size_t_def)

lemmas acquire_defs = acquire_def acquire_cached_def try_acquire_def get_tls_cache_def set_tls_cache_def tl_cache_new_def

lemma demo_acquire:
  "op_acquire demo_pool Type_Accept demo_pools = (Some 4096, demo_pools_after)"
  "\<exists>p. op_acquire demo_pool Type_Recv demo_pools_after = (Some 8192, p)"
  by (simp_all add: demo_pool_def object_io_pool_def io_acquire_def get_io_pool_def demo_pools_def demo_pools_after_def
      small_pool_after_def small_pool_eq pool_at_eq acquire_defs Let_def)

lemma demo_initialize: "initialize list_queue demo_ring demo_pool demo_service = Inr demo_started"
  by (simp add: initialize_def initialize_threads_def demo_acquire request_queue_new_def request_defs)

lemma demo_first_routine:
  "routine list_queue demo_ring demo_pool Map.empty no_requests 0 demo_started = Some (Inr demo_flushed)"
  by (simp add: routine_defs accept_request_io_def demo_flushed_def request_defs)

lemma demo_second_routine:
  "\<exists>\<sigma>'. routine list_queue demo_ring demo_pool Map.empty no_requests 0 demo_flushed = Some (Inr \<sigma>')"
proof -
  obtain p where p: "op_acquire demo_pool Type_Recv demo_pools_after = (Some 8192, p)" using demo_acquire(2) by blast
  show ?thesis
    by (simp add: routine_defs recv_request_io_def demo_flushed_def p handle_operation_def
        accept_completion_def on_accepted_def request_receive_def set_session_def release_op_def
        session_fd_def request_defs)
qed

lemma demo_run: "service_run list_queue demo_ring (\<lambda>_. demo_pool) Map.empty no_requests demo_started demo_flushed"
  by (rule service_run.worker_step [OF service_run.no_step _ demo_first_routine])
    (simp add: demo_started_def)

lemma demo_contracts:
  "io_service list_queue (\<lambda>q. q) demo_ring (\<lambda>r. mset (fst r)) demo_pool
     (io_good (\<lambda>q. q) (\<lambda>_. 64) {0, 1}) (io_live (\<lambda>q. q) (\<lambda>_. 64) {0, 1})"
  unfolding demo_ring_def demo_pool_def by (rule worker_service.io_service_axioms)

lemma demo_good: "io_good (\<lambda>q. q) (\<lambda>_. 64) {0, 1} (io_pool demo_service)"
proof -
  have good: "pool_good (\<lambda>q. q) 64 {0, 1} (pool_at base)" for base
    using two_threads.pool_new_step [of "\<lambda>_. Some base" small_config]
    by (simp add: pool_at_def fresh_memory_def small_config_def)
  have small: "small_pool = pool_at 4096" by (simp add: small_pool_def pool_at_def)
  have "pool_region 64 (pool_at base) = {base..<base + 128}" for base
    by (simp add: pool_region_def chunk_region_def pool_at_eq)
  then show ?thesis
    using good by (auto simp: io_good_def demo_service_def service_new_def demo_pools_def small split: if_splits)
qed

lemma demo_fresh:
  "worker_threads demo_service = []" "sessions demo_service = []" "sessions_queue demo_service = []"
  "user_contract C n (\<lambda>_. True) Map.empty no_requests"
  by (simp_all add: demo_service_def service_new_def user_contract_def no_requests_def)

section \<open>Operations and sessions over time\<close>



text \<open>
  C21: Sessions are used once: whatever the workers do, the pool of free sessions only shrinks, from the
  front; a session that was taken for an accept never returns to it, because no completion handler
  calls \<open>on_closed\<close>. So a service accepts at most as many connections as it has sessions.
\<close>

theorem sessions_never_return:
  assumes "\<And>j. io_service Q contents U pending (P j) good live"
    and "worker_threads \<sigma>0 = []" and "sessions \<sigma>0 = []" and "contents (sessions_queue \<sigma>0) = []"
    and "good (io_pool \<sigma>0)" and "initialize Q U (P 0) \<sigma>0 = Inr \<sigma>1"
    and "user_contract call_ok (nat (session_count \<sigma>0)) I handlers drain" and "service_run Q U P handlers drain \<sigma>1 \<sigma>"
    and "I (user \<sigma>0)"
  shows "\<exists>k. contents (sessions_queue \<sigma>) = drop k (contents (sessions_queue \<sigma>1))"
proof -
  have "service_ok contents pending good live {#} \<sigma>1 \<and> length (sessions \<sigma>1) = nat (session_count \<sigma>0)"
    using io_service.initialize_ok [OF assms(1-6)] by blast
  with service_run_ok [OF assms(1,8)] assms(7,9) initialize_user [OF assms(6)] show ?thesis by auto
qed

theorem sessions_never_return_witness:
  "\<exists>k. sessions_queue demo_flushed = drop k (sessions_queue demo_started)"
  by (rule sessions_never_return [OF demo_contracts demo_fresh(1-3) demo_good demo_initialize demo_fresh(4) demo_run TrueI])

section \<open>Configuration\<close>

lemma htons_bytes:
  assumes "0 \<le> port" and "port < 65536"
  shows "uint (htons (word_of_int port)) = 256 * (port mod 256) + port div 256"
proof -
  let ?v = "word_of_int port :: 16 word"
  have u: "uint ?v = port" using assms by (simp add: unsigned_of_int take_bit_int_eq_self)
  have b: "0 \<le> port div 256" "port div 256 < 256" using assms by auto
  have a: "uint (push_bit 8 ?v) = push_bit 8 (port mod 256)"
    by (simp add: unsigned_push_bit_eq u take_bit_push_bit) (simp add: take_bit_eq_mod)
  have d: "uint (drop_bit 8 ?v) = port div 256"
    by (simp only: unsigned_drop_bit_eq u) (use assms b in \<open>simp add: drop_bit_eq_div take_bit_int_eq_self\<close>)
  have "take_bit 8 (port div 256) = port div 256" using b by (simp add: take_bit_int_eq_self)
  then have "or (push_bit 8 (port mod 256)) (port div 256) = push_bit 8 (port mod 256) + port div 256"
    by (metis concat_bit_def concat_bit_eq or.commute add.commute)
  then have "uint (htons ?v) = push_bit 8 (port mod 256) + port div 256"
    by (simp only: htons_def unsigned_or_eq a d)
  then show ?thesis by (simp add: push_bit_eq_mult)
qed

text \<open>
  What the builder's setters reach. After an address (empty: any), a port, a backlog and counts have
  been set, \<open>build\<close> binds the socket to that port in network byte order and listens with the backlog given,
  and the service has the counts given; but its own backlog, the number of accepts \<open>initialize\<close>
  requests, stays 4096. A second \<open>build\<close> fails its assertion.
\<close>

theorem builder_configuration:
  assumes "0 \<le> port" and "port < 65536"
  shows "\<exists>b sv addr.
    bind_outcome (set_thread_count t (set_backlog bl
      (set_address inet_pton [] port (builder_new garbage (service_new Q g p u))))) (\<lambda>b1.
    bind_outcome (set_session_count s b1) (\<lambda>b2.
    bind_outcome (set_queue_depth_per_thread d b2) (build fd))) =
      Inr (sv, [Sys_Socket, Sys_Setsockopt_Reuse fd, Sys_Bind fd addr, Sys_Listen fd bl], b) \<and>
    uint (sin_port addr) = 256 * (port mod 256) + port div 256 \<and> s_addr addr = INADDR_ANY \<and>
    sin_family addr = AF_INET \<and>
    thread_count sv = t \<and> session_count sv = s \<and> queue_depth_per_thread sv = d \<and> acceptor_fd sv = fd \<and>
    backlog sv = 4096 \<and> build fd' b = Inl Assertion_Failure"
  by (simp add: set_thread_count_def set_session_count_def set_queue_depth_per_thread_def set_backlog_def
      on_instance_def builder_new_def service_new_def build_def build_acceptor_def set_address_def
      htons_bytes [OF assms])

theorem builder_configuration_witness:
  "\<exists>b sv addr.
    bind_outcome (set_thread_count 36 (set_backlog 4096
      (set_address (\<lambda>_. None) [] 4832 (builder_new \<lparr>sin_family = 7, sin_port = 7, s_addr = 7\<rparr>
        (service_new list_queue 0 () ()))))) (\<lambda>b1.
    bind_outcome (set_session_count 10000 b1) (\<lambda>b2.
    bind_outcome (set_queue_depth_per_thread 10000 b2) (build 3))) =
      Inr (sv :: (nat list, unit, unit, unit) service,
        [Sys_Socket, Sys_Setsockopt_Reuse 3, Sys_Bind 3 addr, Sys_Listen 3 4096], b) \<and>
    uint (sin_port addr) = 57362 \<and> thread_count sv = 36 \<and> backlog sv = 4096"
  using builder_configuration [of 4832 36 4096 "\<lambda>_. None" "\<lparr>sin_family = 7, sin_port = 7, s_addr = 7\<rparr>"
      list_queue 0 "()" "()" 10000 10000 3]
  by fastforce

end
