(* ===== verification/Worker_Thread.thy ===== *)
theory Worker_Thread
  imports Service_Properties
begin

text \<open>
  \<open>Thread\<close> (\<open>thread/Thread.h\<close>, \<open>.cc\<close>) and the life of a worker: the loop of \<open>Thread::run\<close> around
  \<open>WorkerThread::routine\<close>, and \<open>Service::run\<close>, which starts and joins the workers. What a routine can and
  cannot end in is shown with the invariant of \<open>Service_Invariants\<close>.
\<close>

section \<open>Thread\<close>

record thread =
  thread_id :: int
  is_stop :: bool
  joinable :: bool
  tick_interval :: int

definition thread_new :: thread where
  "thread_new = \<lparr>thread_id = - 1, is_stop = False, joinable = False, tick_interval = 0\<rparr>"

definition thread_initialize :: "thread \<Rightarrow> thread" where
  "thread_initialize th = th\<lparr>is_stop := False\<rparr>"

definition set_thread_id :: "int \<Rightarrow> thread \<Rightarrow> thread" where
  "set_thread_id n th = th\<lparr>thread_id := n\<rparr>"

definition thread_stop :: "thread \<Rightarrow> thread" where
  "thread_stop th = th\<lparr>is_stop := True\<rparr>"

text \<open>Assigning to a joinable \<open>std::thread\<close> ends the process, as a failed assertion does.\<close>

definition thread_start :: "thread \<Rightarrow> thread outcome" where
  "thread_start th = (if joinable th then Inl Assertion_Failure else Inr (th\<lparr>joinable := True\<rparr>))"

text \<open>
  \<open>Thread::run\<close>: \<open>rt\<close> is one call of \<open>routine\<close> and may not return. A sleep changes nothing that is modelled.
\<close>

partial_function (option) thread_run ::
    "('s \<Rightarrow> bool) \<Rightarrow> ('s \<Rightarrow> 's outcome option) \<Rightarrow> 's \<Rightarrow> 's outcome option" where
  "thread_run stopped rt s =
     (if stopped s then Some (Inr s)
      else (case rt s of
              None \<Rightarrow> None
            | Some (Inl e) \<Rightarrow> Some (Inl e)
            | Some (Inr s') \<Rightarrow> thread_run stopped rt s'))"

text \<open>
  The run of worker \<open>i\<close>: its thread object and the service. Before each of its routines the other workers
  take some steps, which is the parameter \<open>others\<close>. No code calls \<open>stop\<close>.
\<close>

definition worker_round ::
    "'q lfq_ops \<Rightarrow> 'r uring_ops \<Rightarrow> 'p op_pool \<Rightarrow> 's handlers \<Rightarrow> ('s \<Rightarrow> service_call list \<times> 's) \<Rightarrow> nat
       \<Rightarrow> (('q, 'r, 'p, 's) service \<Rightarrow> ('q, 'r, 'p, 's) service) \<Rightarrow> thread \<times> ('q, 'r, 'p, 's) service
       \<Rightarrow> (thread \<times> ('q, 'r, 'p, 's) service) outcome option" where
  "worker_round Q U P handlers drain i others = (\<lambda>(th, \<sigma>).
     map_option (\<lambda>r. bind_outcome r (\<lambda>\<sigma>'. Inr (th, \<sigma>'))) (routine Q U P handlers drain i (others \<sigma>)))"

definition worker_run ::
    "'q lfq_ops \<Rightarrow> 'r uring_ops \<Rightarrow> 'p op_pool \<Rightarrow> 's handlers \<Rightarrow> ('s \<Rightarrow> service_call list \<times> 's) \<Rightarrow> nat
       \<Rightarrow> (('q, 'r, 'p, 's) service \<Rightarrow> ('q, 'r, 'p, 's) service) \<Rightarrow> thread \<times> ('q, 'r, 'p, 's) service
       \<Rightarrow> (thread \<times> ('q, 'r, 'p, 's) service) outcome option" where
  "worker_run Q U P handlers drain i others =
     thread_run (\<lambda>(th, \<sigma>). is_stop th) (worker_round Q U P handlers drain i others)"

section \<open>Faults of a routine\<close>

definition handlers_safe :: "'s handlers \<Rightarrow> bool" where
  "handlers_safe handlers \<longleftrightarrow> (\<forall>t h mem n a s. handlers t = Some h \<longrightarrow> h mem n a s \<noteq> Inl Use_After_Free)"

lemma mem_faults [simp]:
  "mem_read off n mem \<noteq> Inl Use_After_Free" "mem_write off bs mem \<noteq> Inl Use_After_Free"
  "checked_int i \<noteq> Inl Use_After_Free"
  by (simp_all add: mem_read_def mem_write_def checked_int_def)

lemma parse_message_faults [simp]: "parse_message mem \<noteq> Inl Use_After_Free"
  by (simp add: parse_message_def bind_outcome_eq_Inl)

lemma process_completed_faults [simp]: "process_completed n ob \<noteq> Inl Use_After_Free"
  by (simp add: process_completed_def mem_move_def bind_outcome_eq_Inl)

lemma dispatch_faults: "handlers_safe handlers \<Longrightarrow> dispatch handlers t mem n a s \<noteq> Inl Use_After_Free"
  by (auto simp: dispatch_def handlers_safe_def bind_outcome_eq_Inl split: option.split)

lemma receive_loop_faults:
  assumes "handlers_safe handlers" and "receive_loop handlers ss s = Some r"
  shows "r \<noteq> Inl Use_After_Free"
proof -
  have "handlers_safe handlers \<longrightarrow> r \<noteq> Inl Use_After_Free"
  proof (rule receive_loop.raw_induct
      [where P = "\<lambda>handlers _ _ r. handlers_safe handlers \<longrightarrow> r \<noteq> Inl Use_After_Free", OF _ assms(2)], goal_cases)
    case (1 loop handlers ss s r)
    from 1(2) show ?case
      by (auto split: if_splits sum.splits prod.splits dest!: 1(1) dispatch_faults)
  qed
  with assms(1) show ?thesis by blast
qed

lemma recv_completion_faults:
  "handlers_safe handlers \<Longrightarrow> recv_completion handlers self alive res ss s \<noteq> Some (Inl Use_After_Free)"
  by (auto simp: recv_completion_def on_received_def commit_def bind_outcome_eq_Inl split: sum.splits
      dest: receive_loop_faults)

lemma handle_operation_faults:
  "handlers_safe handlers \<Longrightarrow> handle_operation handlers opn res ss s \<noteq> Some (Inl Use_After_Free)"
  by (simp add: handle_operation_def recv_completion_faults Let_def split_beta split: io_kind.split)

lemma request_io_faults [simp]: "request_io Q x \<sigma> \<noteq> Inl Use_After_Free"
  by (simp add: request_io_def request_io_at_def Let_def)

lemma request_io_new_faults [simp]: "request_io_new Q P s kind \<sigma> \<noteq> Inl Use_After_Free"
  by (simp add: request_io_new_def split: prod.split option.split)

lemma request_accept_one_faults [simp]: "request_accept_one Q P \<sigma> \<noteq> Inl Use_After_Free"
  by (simp add: request_accept_one_def split: prod.split option.split)

lemma run_calls_faults [simp]: "run_calls Q P cs \<sigma> \<noteq> Inl Use_After_Free"
proof (induction cs arbitrary: \<sigma>)
  case (Cons c cs)
  then show ?case by (cases c) (auto simp: bind_outcome_eq_Inl on_session_closed_def)
qed simp

lemma add_sqe_faults [simp]: "add_sqe U e x r \<noteq> Inl Use_After_Free"
  by (simp add: add_sqe_def split: option.split)

lemma op_request_io_faults: "ops x \<noteq> None \<Longrightarrow> op_request_io U fd ops x r \<noteq> Inl Use_After_Free"
  by (auto simp: op_request_io_def accept_request_io_def recv_request_io_def send_request_io_def
      close_request_io_def bind_outcome_eq_Inl split: io_kind.splits)

lemma submit_each_faults:
  "\<forall>x\<in>set xs. ops x \<noteq> None \<Longrightarrow> submit_each (op_request_io U fd ops) xs r \<noteq> Inl Use_After_Free"
  by (induction xs arbitrary: r) (auto simp: bind_outcome_eq_Inl op_request_io_faults)

lemma release_ref_faults [simp]: "release_ref n \<noteq> Inl Use_After_Free"
  by (simp add: release_ref_def)

lemma in_sum_list_mset: "y \<in> set ys \<Longrightarrow> x \<in># f y \<Longrightarrow> x \<in># sum_list (map f ys)"
  by (induction ys) auto

context io_service
begin

lemma flush_worker_faults:
  assumes ok: "ok H \<sigma>" and i: "i < length (worker_threads \<sigma>)"
  shows "flush_worker Q U i \<sigma> \<noteq> Some (Inl Use_After_Free)"
proof
  let ?rq = "worker_threads \<sigma> ! i" and ?req = "op_request_io U (session_fd \<sigma>) (io_ops \<sigma>)"
  assume "flush_worker Q U i \<sigma> = Some (Inl Use_After_Free)"
  then have "flush_requests Q U ?req ?rq = Some (Inl Use_After_Free)"
    by (auto simp: flush_worker_def bind_outcome_eq_Inl)
  with flush_requests_spec [of U ?req ?rq]
  have "submit_each ?req (contents (rq_queue ?rq)) (rq_ring ?rq) = Inl Use_After_Free"
    by (cases "submit_each ?req (contents (rq_queue ?rq)) (rq_ring ?rq)") auto
  moreover have "io_ops \<sigma> x \<noteq> None" if "x \<in> set (contents (rq_queue ?rq))" for x
  proof -
    have "x \<in># ops_held contents pending \<sigma>"
      unfolding ops_held_def using i that
      by (intro in_sum_list_mset [of ?rq]) (simp_all add: ops_at_def)
    then show ?thesis using ok by (auto simp: service_ok_def op_ok_def)
  qed
  ultimately show False using submit_each_faults by metis
qed

text \<open>A routine on a service whose operations are where they should be does not use one that is gone.\<close>

lemma routine_faults:
  assumes ok: "ok {#} \<sigma>" and i: "i < length (worker_threads \<sigma>)" 
    and con: "user_contract call_ok (length (sessions \<sigma>)) I handlers drain" and u: "I (user \<sigma>)" and safe: "handlers_safe handlers"
  shows "routine Q U P handlers drain i \<sigma> \<noteq> Some (Inl Use_After_Free)"
proof
  assume run: "routine Q U P handlers drain i \<sigma> = Some (Inl Use_After_Free)"
  obtain c rq where w: "wait_one U 0 (worker_threads \<sigma> ! i) = Inr (c, rq)"
    by (auto simp: wait_one_def fits_int_def checked_int_def Let_def split_beta)
  let ?\<sigma>0 = "set_worker i rq \<sigma>"
  note ok0 = wait_one_ok [OF ok i w]
  have s0: "sessions ?\<sigma>0 = sessions \<sigma>" "length (worker_threads ?\<sigma>0) = length (worker_threads \<sigma>)"
    "user ?\<sigma>0 = user \<sigma>"
    by (simp_all add: set_worker_def)
  have x: "\<forall>x. ic_operation c = Some x \<longrightarrow> x \<in># in_hand c" by (simp add: in_hand_def)
  have h: "handle_completion Q P handlers drain c ?\<sigma>0 \<noteq> Some (Inl Use_After_Free)"
  proof (cases "ic_operation c")
    case (Some y)
    with ok0 obtain opn where "io_ops ?\<sigma>0 y = Some opn" "op_object opn < length (sessions ?\<sigma>0)"
      by (auto simp: service_ok_def op_ok_def in_hand_def)
    with Some show ?thesis
      using handle_operation_faults [OF safe, of opn "ic_result c" "sessions ?\<sigma>0 ! op_object opn" "user ?\<sigma>0"]
      by (auto simp: handle_completion_def bind_outcome_eq_Inl Let_def split_beta)
  qed (simp add: handle_completion_def)
  with run w obtain \<sigma>1 where h1: "handle_completion Q P handlers drain c ?\<sigma>0 = Some (Inr \<sigma>1)"
    and rest: "bind_loop (flush_worker Q U i \<sigma>1) (\<lambda>\<sigma>2. Some (destroy_completion U P i c \<sigma>2)) = Some (Inl Use_After_Free)"
    by (auto simp: routine_def bind_loop_def split: option.splits sum.splits)
  note ok1 = handle_completion_ok [OF ok0 x _ _ h1, unfolded s0, OF con u]
  then have i1: "i < length (worker_threads \<sigma>1)" using i by simp
  note f = flush_worker_faults [OF conjunct1 [OF ok1] i1]
  with rest obtain \<sigma>2 where f2: "flush_worker Q U i \<sigma>1 = Some (Inr \<sigma>2)"
    and d: "destroy_completion U P i c \<sigma>2 = Inl Use_After_Free"
    by (auto simp: bind_loop_def split: option.splits sum.splits)
  have "ok (in_hand c) \<sigma>2" using flush_worker_ok [OF conjunct1 [OF ok1] i1 f2] by blast
  then have "ic_operation c = Some y \<Longrightarrow> io_ops \<sigma>2 y \<noteq> None" for y
    by (auto simp: service_ok_def op_ok_def in_hand_def)
  with d show False
    by (auto simp: destroy_completion_def release_op_def set_worker_def bind_outcome_eq_Inl Let_def
        split: option.splits if_splits)
qed

end

section \<open>The run of a worker\<close>

lemma service_run_trans:
  "service_run Q U P handlers drain \<sigma>1 \<sigma>2 \<Longrightarrow> service_run Q U P handlers drain \<sigma> \<sigma>1 \<Longrightarrow>
     service_run Q U P handlers drain \<sigma> \<sigma>2"
  by (induction rule: service_run.induct) (auto intro: service_run.worker_step service_run.kernel_write)

text \<open>
  A loop whose flag is never set does not end regularly; a fault is one of a routine on a state that
  satisfies every invariant of the rounds.
\<close>

lemma thread_run_invariant:
  assumes "thread_run stopped rt s = Some r" and "I s" and "\<And>s. I s \<Longrightarrow> \<not> stopped s"
    and "\<And>s s'. I s \<Longrightarrow> rt s = Some (Inr s') \<Longrightarrow> I s'"
  shows "\<exists>e s'. r = Inl e \<and> I s' \<and> rt s' = Some (Inl e)"
proof -
  have "stopped = stopped \<and> rt = rt \<and> I s \<longrightarrow> (\<exists>e s'. r = Inl e \<and> I s' \<and> rt s' = Some (Inl e))"
  proof (rule thread_run.raw_induct
      [where P = "\<lambda>st rt' s r. st = stopped \<and> rt' = rt \<and> I s \<longrightarrow> (\<exists>e s'. r = Inl e \<and> I s' \<and> rt s' = Some (Inl e))",
        OF _ assms(1)], goal_cases)
    case (1 loop st rt' s r)
    show ?case
    proof (intro impI, elim conjE)
      assume eq: "st = stopped" "rt' = rt" and inv: "I s"
      show "\<exists>e s'. r = Inl e \<and> I s' \<and> rt s' = Some (Inl e)"
      proof (cases "rt s")
        case None
        then show ?thesis using 1(2) eq assms(3) [OF inv] by simp
      next
        case (Some res)
        then show ?thesis
          using 1(2) 1(1) [of stopped rt] eq inv assms(3) [OF inv] assms(4) [OF inv]
          by (cases res) auto
      qed
    qed
  qed
  then show ?thesis using assms(2) by blast
qed

lemma worker_run_faults:
  assumes run: "worker_run Q U (P i) handlers drain i others (th, \<sigma>) = Some r" and go: "\<not> is_stop th"
    and others: "\<And>\<sigma>. service_run Q U P handlers drain \<sigma> (others \<sigma>)"
    and i: "\<And>\<sigma>'. service_run Q U P handlers drain \<sigma> \<sigma>' \<Longrightarrow> i < length (worker_threads \<sigma>')"
  shows "\<exists>e \<sigma>'. r = Inl e \<and> service_run Q U P handlers drain \<sigma> \<sigma>' \<and>
    routine Q U (P i) handlers drain i \<sigma>' = Some (Inl e)"
proof -
  define I where "I s \<longleftrightarrow> \<not> is_stop (fst s) \<and> service_run Q U P handlers drain \<sigma> (snd s)"
    for s :: "thread \<times> ('a, 'b, 'c, 'd) service"
  have reach: "service_run Q U P handlers drain \<sigma> (others (snd s))" if "I s" for s
    using that service_run_trans [OF others] by (auto simp: I_def)
  have "\<exists>e s'. r = Inl e \<and> I s' \<and> worker_round Q U (P i) handlers drain i others s' = Some (Inl e)"
  proof (rule thread_run_invariant [OF run [unfolded worker_run_def]])
    show "I (th, \<sigma>)" using go by (simp add: I_def service_run.no_step)
    show "\<not> (case s of (th, \<sigma>) \<Rightarrow> is_stop th)" if "I s" for s
      using that by (simp add: I_def split_beta)
    show "I s'" if "I s" and "worker_round Q U (P i) handlers drain i others s = Some (Inr s')" for s s'
    proof -
      from that(2) obtain \<sigma>2 where \<sigma>2: "routine Q U (P i) handlers drain i (others (snd s)) = Some (Inr \<sigma>2)"
        "s' = (fst s, \<sigma>2)"
        by (auto simp: worker_round_def split_beta outcome_simps)
      from service_run.worker_step [OF reach [OF that(1)] i [OF reach [OF that(1)]] \<sigma>2(1)] \<sigma>2(2) that(1)
      show ?thesis by (simp add: I_def)
    qed
  qed
  then obtain e s' where e: "r = Inl e" "I s'" "worker_round Q U (P i) handlers drain i others s' = Some (Inl e)"
    by blast
  then have "routine Q U (P i) handlers drain i (others (snd s')) = Some (Inl e)"
    by (auto simp: worker_round_def split_beta bind_outcome_eq_Inl)
  with e reach show ?thesis by blast
qed


text \<open>For the witness: a ring whose submission queue is full, so that \<open>io_uring_get_sqe\<close> returns null.\<close>

definition full_ring :: "unit uring_ops" where
  "full_ring =
     \<lparr>ur_init = (\<lambda>_. ()), ur_add = (\<lambda>e x r. None), ur_submit = (\<lambda>r. r), ur_wait = (\<lambda>t r. (Inl (- 62), r)),
      ur_seen = (\<lambda>r. r)\<rparr>"

lemma full_ring_contract: "io_ring full_ring (\<lambda>_. {#})"
  by unfold_locales (auto simp: full_ring_def)

type_synonym full_demo = "(nat list, unit, nat list io_pools, unit) service"

definition full_service :: full_demo where
  "full_service = (service_new list_queue 0 demo_pools ())
     \<lparr>thread_count := 1, session_count := 1, backlog := 1, acceptor_fd := 3\<rparr>"

definition full_started :: full_demo where
  "full_started = full_service\<lparr>request_index := 1,
     worker_threads := [\<lparr>rq_queue = [4096], rq_ring = ()\<rparr>],
     sessions := [new_session], sessions_queue := [], io_pool := demo_pools_after,
     io_ops := [4096 \<mapsto> \<lparr>op_object = 0, op_kind = Io_Accept 3, op_refs = 1\<rparr>]\<rparr>"

lemma full_initialize: "initialize list_queue full_ring demo_pool full_service = Inr full_started"
  by (simp add: initialize_def initialize_threads_def demo_acquire request_queue_new_def request_defs
      full_service_def full_started_def full_ring_def)

lemma full_routine:
  "routine list_queue full_ring demo_pool Map.empty no_requests 0 full_started = Some (Inl Null_Dereference)"
  by (simp add: routine_defs accept_request_io_def full_started_def full_service_def full_ring_def request_defs)

lemma full_contracts:
  "io_service list_queue (\<lambda>q. q) full_ring (\<lambda>_. {#}) demo_pool
     (io_good (\<lambda>q. q) (\<lambda>_. 64) {0, 1}) (io_live (\<lambda>q. q) (\<lambda>_. 64) {0, 1})"
  using demo_contracts full_ring_contract by (simp add: io_service_def)


end
