(* ===== verification/Receive_Windows.thy ===== *)
theory Receive_Windows
  imports Worker_Thread Stream_Framing
begin

text \<open>
  Receiving in a running service: a session is in the pool of free sessions, or waits for an accept, or has one
  receive outstanding, never two of these; and the window that a receive offers to the kernel is exactly the
  free part of the session's buffer. The invariant is proved on the steps of \<open>Service_Loop\<close>, next to the one
  of \<open>Service_Invariants\<close>.
\<close>

section \<open>Sessions keep their buffers\<close>

text \<open>Handlers may write into the buffer, but not change the header of the message they are given.\<close>

definition handlers_keep_header :: "'s handlers \<Rightarrow> bool" where
  "handlers_keep_header handlers \<longleftrightarrow>
     (\<forall>t h mem n a s mem' s'. handlers t = Some h \<longrightarrow> h mem n a s = Inr (mem', s') \<longrightarrow>
        length mem' = length mem \<and> take 8 mem' = take 8 mem)"

lemma parse_message_prefix:
  assumes "length mem' = length mem" and "take 8 mem' = take 8 mem"
  shows "parse_message mem' = parse_message mem"
proof -
  have "take 4 mem' = take 4 mem" using arg_cong [OF assms(2), of "take 4"] by simp
  moreover have "take 4 (drop 4 mem') = take 4 (drop 4 mem)"
    using arg_cong [OF assms(2), of "drop 4"] by (simp add: drop_take)
  ultimately show ?thesis using assms(1) by (simp add: parse_message_def mem_read_def)
qed

lemma dispatch_keeps_header:
  assumes "handlers_keep_header handlers" and "dispatch handlers t mem n a s = Inr (found, mem', s')"
  shows "length mem' = length mem \<and> take 8 mem' = take 8 mem"
proof (cases "handlers t")
  case (Some h)
  with assms(2) have "h mem n a s = Inr (mem', s')" by (auto simp: dispatch_def outcome_simps)
  with assms(1) Some show ?thesis unfolding handlers_keep_header_def by blast
qed (use assms(2) in \<open>simp add: dispatch_def\<close>)

lemma process_completed_ok:
  assumes "process_completed n ss = Inr ss'" and "session_ok ss" and "0 \<le> n" and "n \<le> commited_size ss"
  shows "session_ok ss'"
proof -
  obtain k where k: "n = int k" using assms(3) by (elim nonneg_int_cases)
  then have "k \<le> length (received ss)" using assms(2,4) by (simp add: received_length)
  from process_completed_received [OF assms(2) this] assms(1) show ?thesis by (auto simp: k)
qed

lemma receive_loop_session_ok:
  assumes "receive_loop handlers ss s = Some r"
  shows "handlers_keep_header handlers \<longrightarrow> session_ok ss \<longrightarrow>
    (case r of Inl e \<Rightarrow> True | Inr (ss1, s1) \<Rightarrow> session_ok ss1)"
proof (rule receive_loop.raw_induct
    [where P = "\<lambda>handlers ss _ r. handlers_keep_header handlers \<longrightarrow> session_ok ss \<longrightarrow>
        (case r of Inl e \<Rightarrow> True | Inr (ss1, s1) \<Rightarrow> session_ok ss1)", OF _ assms], goal_cases)
  case (1 loop handlers ss s r)
  show ?case
  proof (intro impI)
    assume keep: "handlers_keep_header handlers" and ok: "session_ok ss"
    show "case r of Inl e \<Rightarrow> True | Inr (ss1, s1) \<Rightarrow> session_ok ss1"
    proof (cases r)
      case (Inr r1)
      obtain ss1 s1 where r1: "r1 = (ss1, s1)" by fastforce
      from 1(2) Inr r1 consider "ss1 = ss"
        | header found mem s2 header' ss2 where "parse_message (rx_buffer ss) = Inr header"
          "8 \<le> hd_size header" "nat (hd_size header) \<le> nat (commited_size ss)"
          "dispatch handlers (sint (hd_type header)) (rx_buffer ss) (nat (hd_size header)) (main_actor ss) s =
            Inr (found, mem, s2)"
          "parse_message mem = Inr header'" "process_completed (hd_size header') (ss\<lparr>rx_buffer := mem\<rparr>) = Inr ss2"
          "loop handlers ss2 s2 = Some r"
        by (auto simp: HEADER_SIZE_def get_received_span_def not_less split: if_splits sum.splits prod.splits)
      then show ?thesis
      proof cases
        case 1
        then show ?thesis using ok Inr r1 by simp
      next
        case 2
        note mem = dispatch_keeps_header [OF keep 2(4)]
        have "header' = header" using parse_message_prefix [of mem "rx_buffer ss"] mem 2(1,5) by simp
        moreover have "session_ok (ss\<lparr>rx_buffer := mem\<rparr>)" using ok mem by (simp add: session_ok_def)
        ultimately have "session_ok ss2" using 2(2,3,6) ok
          by (intro process_completed_ok [OF 2(6)]) (auto simp: session_ok_def)
        then show ?thesis using "1"(1) [OF 2(7)] keep by blast
      qed
    qed simp
  qed
qed

section \<open>The invariant\<close>

text \<open>Operations that take the place of their session: an accept and a receive.\<close>

fun takes_slot :: "io_kind \<Rightarrow> bool" where
  "takes_slot (Io_Recv off len) = True"
| "takes_slot (Io_Accept fd) = True"
| "takes_slot (Io_Send_Buffer sb) = False"
| "takes_slot Io_Close = False"

definition slots :: "(nat \<Rightarrow> io_operation option) \<Rightarrow> nat multiset \<Rightarrow> nat multiset" where
  "slots ops M = image_mset (\<lambda>x. op_object (the (ops x)))
     (filter_mset (\<lambda>x. \<exists>opn. ops x = Some opn \<and> takes_slot (op_kind opn)) M)"

definition places ::
    "('q \<Rightarrow> nat list) \<Rightarrow> ('r \<Rightarrow> nat multiset) \<Rightarrow> ('q, 'r, 'p, 's) service \<Rightarrow> nat multiset" where
  "places contents pending \<sigma> =
     mset (contents (sessions_queue \<sigma>)) + slots (io_ops \<sigma>) (ops_held contents pending \<sigma>)"

definition windows_fit ::
    "('q \<Rightarrow> nat list) \<Rightarrow> ('r \<Rightarrow> nat multiset) \<Rightarrow> ('q, 'r, 'p, 's) service \<Rightarrow> bool" where
  "windows_fit contents pending \<sigma> \<longleftrightarrow>
     (\<forall>x\<in>#ops_held contents pending \<sigma>. \<forall>opn off len.
        io_ops \<sigma> x = Some opn \<longrightarrow> op_kind opn = Io_Recv off len \<longrightarrow>
        (off, len) = get_remain_span (sessions \<sigma> ! op_object opn))"

definition windows_ok ::
    "('q \<Rightarrow> nat list) \<Rightarrow> ('r \<Rightarrow> nat multiset) \<Rightarrow> ('q, 'r, 'p, 's) service \<Rightarrow> bool" where
  "windows_ok contents pending \<sigma> \<longleftrightarrow>
     (\<forall>s. count (places contents pending \<sigma>) s \<le> 1) \<and> windows_fit contents pending \<sigma> \<and>
     (\<forall>ss\<in>set (sessions \<sigma>). session_ok ss)"

lemma slots_union [simp]: "slots ops (M + N) = slots ops M + slots ops N"
  by (simp add: slots_def)

lemma slots_single:
  "slots ops {#x#} = (case ops x of None \<Rightarrow> {#} | Some opn \<Rightarrow> if takes_slot (op_kind opn) then {#op_object opn#} else {#})"
  by (auto simp: slots_def split: option.split)

lemma slots_mono: "M \<subseteq># N \<Longrightarrow> slots ops M \<subseteq># slots ops N"
  by (simp add: slots_def image_mset_subseteq_mono multiset_filter_mono)

lemma slots_fresh: "x \<notin># M \<Longrightarrow> slots (ops(x := opn)) M = slots ops M"
  by (induction M) (auto simp: slots_def)

text \<open>Only the places of the operations change, and some may be lost.\<close>

lemma windows_ok_move:
  assumes "windows_ok contents pending \<sigma>" and "ops_held contents pending \<sigma>' \<subseteq># ops_held contents pending \<sigma>"
    and "io_ops \<sigma>' = io_ops \<sigma>" and "sessions \<sigma>' = sessions \<sigma>" and "sessions_queue \<sigma>' = sessions_queue \<sigma>"
  shows "windows_ok contents pending \<sigma>' \<and> places contents pending \<sigma>' \<subseteq># places contents pending \<sigma>"
proof -
  have sub: "places contents pending \<sigma>' \<subseteq># places contents pending \<sigma>"
    using slots_mono [OF assms(2)] by (simp add: places_def assms(3,5))
  then have "count (places contents pending \<sigma>') s \<le> 1" for s
    using assms(1) mset_subset_eq_count [OF sub, of s] by (auto simp: windows_ok_def intro: le_trans)
  moreover have "windows_fit contents pending \<sigma>'"
    using assms(1) mset_subset_eqD [OF assms(2)] unfolding windows_ok_def windows_fit_def assms(3,4) by blast
  ultimately show ?thesis using sub assms(1,4) by (simp add: windows_ok_def)
qed

context io_service
begin

abbreviation "win \<equiv> windows_ok contents pending"
abbreviation "pl \<equiv> places contents pending"

lemma request_io_at_held:
  assumes "request_io_at Q i x \<sigma> = Inr \<sigma>'"
  shows "ops_held contents pending \<sigma>' \<subseteq># ops_held contents pending \<sigma> + {#x#}"
proof (cases "i < 0 \<or> thread_count \<sigma> \<le> i")
  case True
  with assms show ?thesis by (auto simp: request_io_at_def)
next
  case False
  let ?rq = "worker_threads \<sigma> ! nat i"
  from False assms have i: "nat i < length (worker_threads \<sigma>)" and \<sigma>': "\<sigma>' = set_worker (nat i) (push_request Q x ?rq) \<sigma>"
    by (auto simp: request_io_at_def set_worker_def split: if_splits)
  have "ops_at contents pending (push_request Q x ?rq) \<subseteq># add_mset x (ops_at contents pending ?rq)"
    using push_retry_contents [of 10 x "rq_queue ?rq"] by (auto simp: ops_at_def push_request_def)
  then have "ops_held contents pending \<sigma> + ops_at contents pending (push_request Q x ?rq) \<subseteq>#
      ops_held contents pending \<sigma> + {#x#} + ops_at contents pending ?rq"
    by simp
  then have "ops_held contents pending \<sigma>' + ops_at contents pending ?rq \<subseteq>#
      ops_held contents pending \<sigma> + {#x#} + ops_at contents pending ?rq"
    by (metis \<sigma>' ops_held_set_worker [OF i])
  then show ?thesis by simp
qed

text \<open>A request may take the place of its session if this is free, and offers the free part of the buffer.\<close>

lemma request_io_new_windows:
  assumes ok: "ok H \<sigma>" and win: "win \<sigma>" and s: "s < length (sessions \<sigma>)"
    and free: "takes_slot kind \<Longrightarrow> count (pl \<sigma>) s = 0"
    and span: "\<And>off len. kind = Io_Recv off len \<Longrightarrow> (off, len) = get_remain_span (sessions \<sigma> ! s)"
    and req: "request_io_new Q P s kind \<sigma> = Inr \<sigma>'"
  shows "win \<sigma>' \<and> pl \<sigma>' \<subseteq># pl \<sigma> + (if takes_slot kind then {#s#} else {#})"
  using req
proof (cases rule: request_io_new_cases)
  case (exhausted p)
  with win show ?thesis
    by (simp add: windows_ok_def windows_fit_def places_def ops_held_def)
next
  case (acquired x p i)
  let ?opn = "\<lparr>op_object = s, op_kind = kind, op_refs = 1\<rparr>"
  let ?\<sigma>1 = "\<sigma>\<lparr>io_pool := p, io_ops := (io_ops \<sigma>)(x \<mapsto> ?opn), request_index := request_index \<sigma> + 1\<rparr>"
  have "good (io_pool \<sigma>)" using ok by (simp add: service_ok_def)
  from acquire_new [OF this acquired(1)] ok_fresh [OF ok, of x] have x: "x \<notin># ops_held contents pending \<sigma>" by simp
  have held: "ops_held contents pending \<sigma>' \<subseteq># ops_held contents pending \<sigma> + {#x#}"
    using request_io_at_held [OF acquired(2)] by (simp add: ops_held_def)
  have fr: "sessions \<sigma>' = sessions \<sigma>" "sessions_queue \<sigma>' = sessions_queue \<sigma>" "io_ops \<sigma>' = (io_ops \<sigma>)(x \<mapsto> ?opn)"
    using request_io_at_frame [OF acquired(2)] by simp_all
  have "slots (io_ops \<sigma>') (ops_held contents pending \<sigma>') \<subseteq>#
      slots (io_ops \<sigma>') (ops_held contents pending \<sigma> + {#x#})"
    using held by (rule slots_mono)
  also have "\<dots> = slots (io_ops \<sigma>) (ops_held contents pending \<sigma>) + (if takes_slot kind then {#s#} else {#})"
    unfolding slots_union fr(3) by (simp add: slots_fresh [OF x] slots_single)
  finally have sub: "pl \<sigma>' \<subseteq># pl \<sigma> + (if takes_slot kind then {#s#} else {#})"
    by (simp add: places_def fr(2))
  have "count (pl \<sigma>') k \<le> 1" for k
  proof -
    have "count (pl \<sigma>) k \<le> 1" using win unfolding windows_ok_def by blast
    then show ?thesis
      using free mset_subset_eq_count [OF sub, of k] by (cases "k = s") (auto split: if_splits)
  qed
  moreover have "windows_fit contents pending \<sigma>'"
    unfolding windows_fit_def
  proof (intro ballI allI impI)
    fix y opn off len
    assume y: "y \<in># ops_held contents pending \<sigma>'" and opn: "io_ops \<sigma>' y = Some opn" and k: "op_kind opn = Io_Recv off len"
    show "(off, len) = get_remain_span (sessions \<sigma>' ! op_object opn)"
    proof (cases "y = x")
      case True
      then show ?thesis using opn k span fr by auto
    next
      case False
      then have "y \<in># ops_held contents pending \<sigma>" using mset_subset_eqD [OF held y] by simp
      then show ?thesis using False opn k fr win by (auto simp: windows_ok_def windows_fit_def)
    qed
  qed
  ultimately show ?thesis using win sub fr by (simp add: windows_ok_def)
qed

lemma request_accept_one_windows:
  assumes ok: "ok H \<sigma>" and win: "win \<sigma>" and req: "request_accept_one Q P \<sigma> = Inr \<sigma>'"
  shows "win \<sigma>' \<and> pl \<sigma>' \<subseteq># pl \<sigma>"
proof (cases "lfq_pop Q (sessions_queue \<sigma>)")
  case None
  with win req show ?thesis by (simp add: request_accept_one_def)
next
  case (Some pr)
  obtain s q where p: "pr = (s, q)" by (cases pr)
  let ?\<sigma>1 = "\<sigma>\<lparr>sessions_queue := q\<rparr>"
  from Some p have q: "contents (sessions_queue \<sigma>) = s # contents q" by (simp add: pop_Some)
  have pl1: "pl \<sigma> = add_mset s (pl ?\<sigma>1)" by (simp add: places_def q ops_held_def)
  have "count (pl \<sigma>) k \<le> 1" for k using win unfolding windows_ok_def by blast
  then have c: "count (pl ?\<sigma>1) k \<le> 1" "count (pl ?\<sigma>1) s = 0" for k
    using pl1 by (metis Suc_leD count_add_mset, metis Suc_le_mono count_add_mset le_zero_eq One_nat_def)
  have s: "s < length (sessions ?\<sigma>1)" and ok1: "ok H ?\<sigma>1"
    using ok q by (auto simp: service_ok_def sessions_ok_def op_ok_def ops_held_def)
  have win1: "win ?\<sigma>1" using win c(1) by (simp add: windows_ok_def windows_fit_def ops_held_def)
  from req Some p have r: "request_io_new Q P s (Io_Accept (acceptor_fd \<sigma>)) ?\<sigma>1 = Inr \<sigma>'"
    by (simp add: request_accept_one_def)
  from request_io_new_windows [OF ok1 win1 s _ _ r] c(2) pl1 show ?thesis by simp
qed

end

section \<open>Completions\<close>

lemma slots_member:
  "x \<in># M \<Longrightarrow> ops x = Some opn \<Longrightarrow> takes_slot (op_kind opn) \<Longrightarrow> op_object opn \<in># slots ops M"
  by (force simp: slots_def)

text \<open>Handlers send and close through their actors; they do not start receives or accepts.\<close>

fun user_call :: "nat \<Rightarrow> service_call \<Rightarrow> bool" where
  "user_call n (Call_Request_Io s kind) \<longleftrightarrow> s < n \<and> \<not> takes_slot kind"
| "user_call n Call_Accept_One \<longleftrightarrow> False"
| "user_call n (Call_Session_Closed s) \<longleftrightarrow> False"

lemma user_call_ok: "user_call n c \<Longrightarrow> call_ok n c"
  by (cases c) simp_all

lemmas contract_call_ok = user_contract_mono [OF _ user_call_ok]

text \<open>
  What the completion of an operation does to its session and makes it ask for: nothing that takes a
  place, or, if the operation held the place of the session, the next receive for the new state.
\<close>

definition next_calls :: "nat \<Rightarrow> nat \<Rightarrow> bool \<Rightarrow> session \<Rightarrow> service_call list \<Rightarrow> bool" where
  "next_calls n s slot ss calls \<longleftrightarrow> list_all (user_call n) calls \<or>
     (slot \<and> (\<exists>rest. calls = request_receive s True ss @ rest \<and> (rest = [] \<or> rest = [Call_Accept_One])))"

lemma on_receive_failed_user_calls:
  "own_actor i ss \<Longrightarrow> i < n \<Longrightarrow> list_all (user_call n) (on_receive_failed alive ss)"
  by (auto simp: on_receive_failed_def actor_request_close_def session_request_close_def own_actor_def
      split: option.split)

lemma get_remain_span_ok: "session_ok ss \<Longrightarrow> (off, len) = get_remain_span ss \<Longrightarrow> int off = commited_size ss \<and> off + len = 4096"
  by (auto simp: get_remain_span_def session_ok_def MAX_RECEIVE_BUFFER_SIZE_def)

lemma recv_completion_windows:
  assumes run: "recv_completion handlers i True res ss u = Some (Inr (ss', u', calls))"
    and ok: "session_ok ss" and keep: "handlers_keep_header handlers" and own: "own_actor i ss" and i: "i < n"
    and span: "(off, len) = get_remain_span ss" and res: "res \<le> int len"
  shows "session_ok ss' \<and> next_calls n i True ss' calls"
proof (cases "res < 0")
  case True
  with assms on_receive_failed_user_calls show ?thesis by (auto simp: recv_completion_def next_calls_def)
next
  case False
  with run obtain ss1 where c: "commit res ss = Inr ss1"
    and r: "receive_loop handlers ss1 u = Some (Inr (ss', u'))" and calls: "calls = request_receive i True ss'"
    by (auto simp: recv_completion_def on_received_def outcome_simps split: sum.splits)
  have "session_ok ss1"
    using c ok False res get_remain_span_ok [OF ok span] by (auto simp: commit_def outcome_simps session_ok_def)
  with receive_loop_session_ok [OF r] keep calls show ?thesis by (simp add: next_calls_def)
qed

lemma handle_operation_windows:
  assumes run: "handle_operation handlers opn res ss u = Some (Inr (ss', u', calls))"
    and ok: "session_ok ss" and keep: "handlers_keep_header handlers" and own: "own_actor (op_object opn) ss"
    and i: "op_object opn < n"
    and recv: "\<And>off len. op_kind opn = Io_Recv off len \<Longrightarrow> (off, len) = get_remain_span ss \<and> res \<le> int len"
  shows "session_ok ss' \<and> next_calls n (op_object opn) (takes_slot (op_kind opn)) ss' calls \<and>
    (takes_slot (op_kind opn) \<or> ss' = ss)"
proof (cases "op_kind opn")
  case (Io_Recv off len)
  with run have "recv_completion handlers (op_object opn) True res ss u = Some (Inr (ss', u', calls))"
    by (simp add: handle_operation_def Let_def)
  from recv_completion_windows [OF this ok keep own i] recv [OF Io_Recv] Io_Recv show ?thesis by auto
qed (use run ok in \<open>auto simp: handle_operation_def Let_def send_completion_def close_completion_def
    accept_completion_def on_accepted_def next_calls_def session_ok_def split: if_splits\<close>)

context io_service
begin

lemma run_calls_append: "run_calls Q P (cs @ ds) \<sigma> = bind_outcome (run_calls Q P cs \<sigma>) (run_calls Q P ds)"
  by (induction cs arbitrary: \<sigma>) (simp_all add: bind_outcome_def split: sum.split)

lemma user_calls_windows:
  assumes "ok H \<sigma>" and "win \<sigma>" and "list_all (user_call (length (sessions \<sigma>))) cs" and "run_calls Q P cs \<sigma> = Inr \<sigma>'"
  shows "ok H \<sigma>' \<and> win \<sigma>' \<and> pl \<sigma>' \<subseteq># pl \<sigma> \<and> sessions \<sigma>' = sessions \<sigma>"
  using assms
proof (induction cs arbitrary: \<sigma>)
  case (Cons c cs)
  from Cons.prems(3) obtain s kind where c: "c = Call_Request_Io s kind" "s < length (sessions \<sigma>)" "\<not> takes_slot kind"
    by (cases c) auto
  with Cons.prems(4) obtain \<sigma>1 where r: "request_io_new Q P s kind \<sigma> = Inr \<sigma>1" and cs: "run_calls Q P cs \<sigma>1 = Inr \<sigma>'"
    by (auto simp: outcome_simps)
  have "win \<sigma>1 \<and> pl \<sigma>1 \<subseteq># pl \<sigma>"
    using request_io_new_windows [OF Cons.prems(1,2) c(2) _ _ r] c(3) by (cases kind) auto
  moreover have "ok H \<sigma>1" "sessions \<sigma>1 = sessions \<sigma>"
    using request_io_new_ok [OF Cons.prems(1) c(2) r] request_io_new_frame [OF r] by simp_all
  ultimately show ?case using Cons.IH [of \<sigma>1] Cons.prems(3) cs by (auto intro: subset_mset.order_trans)
qed simp

lemma next_calls_windows:
  assumes ok: "ok H \<sigma>" and win: "win \<sigma>" and s: "s < length (sessions \<sigma>)"
    and calls: "next_calls (length (sessions \<sigma>)) s slot (sessions \<sigma> ! s) calls"
    and free: "slot \<Longrightarrow> count (pl \<sigma>) s = 0" and run: "run_calls Q P calls \<sigma> = Inr \<sigma>'"
  shows "win \<sigma>'"
proof (cases "list_all (user_call (length (sessions \<sigma>))) calls")
  case True
  with user_calls_windows [OF ok win True run] show ?thesis by simp
next
  case False
  let ?off = "fst (get_remain_span (sessions \<sigma> ! s))" and ?len = "snd (get_remain_span (sessions \<sigma> ! s))"
  from False calls obtain rest where slot: slot and c: "calls = request_receive s True (sessions \<sigma> ! s) @ rest"
    and rest: "rest = [] \<or> rest = [Call_Accept_One]"
    by (auto simp: next_calls_def)
  from run obtain \<sigma>1 where r: "request_io_new Q P s (Io_Recv ?off ?len) \<sigma> = Inr \<sigma>1"
    and r2: "run_calls Q P rest \<sigma>1 = Inr \<sigma>'"
    by (auto simp: c run_calls_append request_receive_def split_beta outcome_simps)
  have "win \<sigma>1" using request_io_new_windows [OF ok win s _ _ r] free slot by simp
  moreover have "ok H \<sigma>1" by (rule request_io_new_ok [OF ok s r])
  ultimately show ?thesis using rest r2 request_accept_one_windows [of H \<sigma>1 \<sigma>'] by (auto simp: outcome_simps)
qed

end

text \<open>
  An operation in hand that took the place of its session gives it up, and the result of a receive is within
  its window.
\<close>

definition hand_over ::
    "('q \<Rightarrow> nat list) \<Rightarrow> ('r \<Rightarrow> nat multiset) \<Rightarrow> io_completion \<Rightarrow> ('q, 'r, 'p, 's) service \<Rightarrow> bool" where
  "hand_over contents pending c \<sigma> \<longleftrightarrow>
     (\<forall>x opn. ic_operation c = Some x \<longrightarrow> io_ops \<sigma> x = Some opn \<longrightarrow>
        (takes_slot (op_kind opn) \<longrightarrow> count (places contents pending \<sigma>) (op_object opn) = 0) \<and>
        (\<forall>off len. op_kind opn = Io_Recv off len \<longrightarrow>
           (off, len) = get_remain_span (sessions \<sigma> ! op_object opn) \<and> ic_result c \<le> int len))"

text \<open>A session is replaced that no outstanding receive belongs to, or whose free part stays the same.\<close>

lemma set_session_windows:
  assumes win: "windows_ok contents pending \<sigma>" and s: "s < length (sessions \<sigma>)" and ok: "session_ok ss"
    and same: "count (places contents pending \<sigma>) s = 0 \<or> get_remain_span ss = get_remain_span (sessions \<sigma> ! s)"
  shows "windows_ok contents pending (set_session s ss \<sigma>)"
    and "places contents pending (set_session s ss \<sigma>) = places contents pending \<sigma>"
proof -
  show pl: "places contents pending (set_session s ss \<sigma>) = places contents pending \<sigma>"
    by (simp add: places_def set_session_def ops_held_def)
  have "windows_fit contents pending (set_session s ss \<sigma>)"
    unfolding windows_fit_def
  proof (intro ballI allI impI)
    fix x opn off len
    assume "x \<in># ops_held contents pending (set_session s ss \<sigma>)"
      and opn: "io_ops (set_session s ss \<sigma>) x = Some opn" and k: "op_kind opn = Io_Recv off len"
    then have x: "x \<in># ops_held contents pending \<sigma>" and o: "io_ops \<sigma> x = Some opn"
      by (simp_all add: set_session_def ops_held_def)
    with win k have f: "(off, len) = get_remain_span (sessions \<sigma> ! op_object opn)"
      by (auto simp: windows_ok_def windows_fit_def)
    have "op_object opn \<in># places contents pending \<sigma>"
      using slots_member [of x _ "io_ops \<sigma>" opn] x o k by (simp add: places_def)
    then have "op_object opn \<noteq> s \<or> get_remain_span ss = get_remain_span (sessions \<sigma> ! s)"
      using same by (auto simp: count_eq_zero_iff)
    with f s show "(off, len) = get_remain_span (sessions (set_session s ss \<sigma>) ! op_object opn)"
      by (auto simp: set_session_def nth_list_update)
  qed
  moreover have "\<forall>ss'\<in>set (sessions (set_session s ss \<sigma>)). session_ok ss'"
    using win ok set_update_subset_insert [of "sessions \<sigma>" s ss] by (auto simp: windows_ok_def set_session_def)
  ultimately show "windows_ok contents pending (set_session s ss \<sigma>)"
    using win pl by (simp add: windows_ok_def)
qed

text \<open>The result of a receive that completes next at worker \<open>i\<close> is within its window.\<close>

definition results_fit :: "'r uring_ops \<Rightarrow> nat \<Rightarrow> ('q, 'r, 'p, 's) service \<Rightarrow> bool" where
  "results_fit U i \<sigma> \<longleftrightarrow>
     (\<forall>x res r opn off len. ur_wait U (Some 0) (rq_ring (worker_threads \<sigma> ! i)) = (Inr (x, res), r) \<longrightarrow>
        io_ops \<sigma> x = Some opn \<longrightarrow> op_kind opn = Io_Recv off len \<longrightarrow> res \<le> int len)"

lemma wait_one_result:
  assumes "wait_one U 0 rq = Inr (c, rq')" and "ic_operation c = Some x"
  shows "\<exists>r. ur_wait U (Some 0) (rq_ring rq) = (Inr (x, ic_result c), r)"
  using assms
  by (auto simp: wait_one_def completion_of_cqe_def completion_of_error_def checked_int_def fits_int_def Let_def
      split: prod.splits sum.splits if_splits)

context io_service
begin

lemma handle_completion_windows:
  assumes ok: "ok H \<sigma>" and win: "win \<sigma>" 
    and con: "user_contract user_call (length (sessions \<sigma>)) I handlers drain" and u: "I (user \<sigma>)"
    and keep: "handlers_keep_header handlers"
    and hand: "hand_over contents pending c \<sigma>" and x: "\<forall>x. ic_operation c = Some x \<longrightarrow> x \<in># H"
    and run: "handle_completion Q P handlers drain c \<sigma> = Some (Inr \<sigma>')"
  shows "win \<sigma>'"
proof (cases "ic_operation c")
  case None
  with win run show ?thesis by (simp add: handle_completion_def)
next
  case (Some x)
  with ok x obtain opn where opn: "io_ops \<sigma> x = Some opn" and s: "op_object opn < length (sessions \<sigma>)"
    by (auto simp: service_ok_def op_ok_def)
  let ?s = "op_object opn" and ?slot = "takes_slot (op_kind opn)"
  let ?ss = "sessions \<sigma> ! ?s"
  have own: "own_actor ?s ?ss" and ss: "session_ok ?ss"
    using ok win s by (auto simp: service_ok_def sessions_ok_def windows_ok_def)
  from run obtain ss' u1 calls where
    h: "handle_operation handlers opn (ic_result c) ?ss (user \<sigma>) = Some (Inr (ss', u1, calls))"
    and r: "run_calls Q P (fst (drain u1) @ calls) (set_session ?s ss' (\<sigma>\<lparr>user := snd (drain u1)\<rparr>)) = Inr \<sigma>'"
    using Some opn s by (auto simp: handle_completion_def outcome_simps Let_def split_beta)
  have recv: "(off, len) = get_remain_span ?ss \<and> ic_result c \<le> int len" if "op_kind opn = Io_Recv off len" for off len
    using hand Some opn that by (simp add: hand_over_def)
  have free: "?slot \<Longrightarrow> count (pl \<sigma>) ?s = 0" using hand Some opn by (simp add: hand_over_def)
  note h' = handle_operation_windows [OF h ss keep own s recv]
  let ?\<sigma>u = "\<sigma>\<lparr>user := snd (drain u1)\<rparr>" and ?\<sigma>1 = "set_session ?s ss' (\<sigma>\<lparr>user := snd (drain u1)\<rparr>)"
  have "win ?\<sigma>u" "pl ?\<sigma>u = pl \<sigma>"
    using windows_ok_move [OF win, of ?\<sigma>u] by (simp_all add: ops_held_def places_def)
  then have win1: "win ?\<sigma>1" and pl1: "pl ?\<sigma>1 = pl \<sigma>"
    using set_session_windows [of contents pending ?\<sigma>u ?s ss'] h' free s by auto
  have own': "own_actor ?s ss'" using handle_operation_calls [OF h own s] by simp
  then have ok1: "ok H ?\<sigma>1"
    using ok s by (auto simp: service_ok_def sessions_ok_def set_session_def ops_held_def op_ok_def nth_list_update)
  have drained: "list_all (user_call (length (sessions \<sigma>))) (fst (drain u1))"
    using handle_operation_user [OF h con own s u] con by (simp add: user_contract_def)
  from r obtain \<sigma>2 where u2: "run_calls Q P (fst (drain u1)) ?\<sigma>1 = Inr \<sigma>2" and f: "run_calls Q P calls \<sigma>2 = Inr \<sigma>'"
    by (auto simp: run_calls_append outcome_simps)
  have len: "length (sessions ?\<sigma>1) = length (sessions \<sigma>)" "sessions ?\<sigma>1 ! ?s = ss'"
    using s by (simp_all add: set_session_def)
  from user_calls_windows [OF ok1 win1 _ u2] drained len
  have 2: "ok H \<sigma>2" "win \<sigma>2" "pl \<sigma>2 \<subseteq># pl \<sigma>" "sessions \<sigma>2 = sessions ?\<sigma>1"
    by (simp_all add: pl1)
  have "count (pl \<sigma>2) ?s = 0" if ?slot
    using free [OF that] mset_subset_eq_count [OF 2(3), of ?s] by simp
  then show ?thesis
    using next_calls_windows [OF 2(1,2) _ _ _ f, of ?s ?slot] 2(4) h' s len by simp
qed

lemma wait_one_windows:
  assumes win: "win \<sigma>" and i: "i < length (worker_threads \<sigma>)"
    and wait: "wait_one U 0 (worker_threads \<sigma> ! i) = Inr (c, rq)"
  shows "win (set_worker i rq \<sigma>) \<and> pl \<sigma> = pl (set_worker i rq \<sigma>) + slots (io_ops \<sigma>) (in_hand c) \<and>
    in_hand c \<subseteq># ops_held contents pending \<sigma>"
proof -
  note at = wait_one_at [OF wait]
  have "(ops_held contents pending (set_worker i rq \<sigma>) + in_hand c) + ops_at contents pending rq =
      ops_held contents pending \<sigma> + ops_at contents pending rq"
    using ops_held_set_worker [OF i, of contents pending rq] by (simp only: at ac_simps)
  then have h: "ops_held contents pending \<sigma> = ops_held contents pending (set_worker i rq \<sigma>) + in_hand c"
    by (simp only: add_right_cancel)
  then have "pl \<sigma> = pl (set_worker i rq \<sigma>) + slots (io_ops \<sigma>) (in_hand c)"
    by (simp add: places_def set_worker_def)
  moreover have "win (set_worker i rq \<sigma>)"
    using windows_ok_move [OF win, of "set_worker i rq \<sigma>"] h by (simp add: set_worker_def)
  ultimately show ?thesis using h by simp
qed

lemma flush_worker_windows:
  assumes "ok H \<sigma>" and "win \<sigma>" and "i < length (worker_threads \<sigma>)" and "flush_worker Q U i \<sigma> = Some (Inr \<sigma>')"
  shows "win \<sigma>'"
proof -
  obtain rq where rq: "\<sigma>' = set_worker i rq \<sigma>"
    "ops_at contents pending rq = ops_at contents pending (worker_threads \<sigma> ! i)"
    using flush_worker_ok [OF assms(1,3,4)] by blast
  have "ops_held contents pending \<sigma>' = ops_held contents pending \<sigma>"
    using ops_held_set_worker [OF assms(3), of contents pending rq] rq by simp
  with windows_ok_move [OF assms(2), of \<sigma>'] rq(1) show ?thesis by (simp add: set_worker_def)
qed

lemma destroy_completion_windows:
  assumes ok: "ok (in_hand c) \<sigma>" and win: "win \<sigma>" and i: "i < length (worker_threads \<sigma>)"
    and destroy: "destroy_completion U P i c \<sigma> = Inr \<sigma>'"
  shows "win \<sigma>'"
proof -
  let ?rq = "worker_threads \<sigma> ! i"
  define \<sigma>1 where "\<sigma>1 = set_worker i (?rq\<lparr>rq_ring := completion_seen U c (rq_ring ?rq)\<rparr>) \<sigma>"
  have "ops_at contents pending (?rq\<lparr>rq_ring := completion_seen U c (rq_ring ?rq)\<rparr>) = ops_at contents pending ?rq"
    by (simp add: ops_at_def completion_seen_def)
  then have held: "ops_held contents pending \<sigma>1 = ops_held contents pending \<sigma>"
    using ops_held_set_worker [OF i, of contents pending "?rq\<lparr>rq_ring := completion_seen U c (rq_ring ?rq)\<rparr>"]
    by (simp add: \<sigma>1_def)
  then have win1: "win \<sigma>1"
    using windows_ok_move [OF win, of \<sigma>1] by (simp add: \<sigma>1_def set_worker_def)
  show ?thesis
  proof (cases "ic_operation c")
    case None
    with destroy win1 show ?thesis by (simp add: destroy_completion_def \<sigma>1_def Let_def)
  next
    case (Some x)
    with destroy have rel: "release_op P x \<sigma>1 = Inr \<sigma>'" by (simp add: destroy_completion_def \<sigma>1_def Let_def)
    have ok_x: "ok {#x#} \<sigma>" using ok Some by (simp add: in_hand_def)
    have one: "count (ops_held contents pending \<sigma> + {#x#}) x \<le> 1" and opx: "op_ok live \<sigma> x"
      using ok_x unfolding service_ok_def by (blast, simp)
    from one have x: "x \<notin># ops_held contents pending \<sigma>1" by (simp add: held not_in_iff)
    obtain k where "\<sigma>' = \<sigma>1\<lparr>io_ops := (io_ops \<sigma>1)(x := None), io_pool := op_release P k x (io_pool \<sigma>1)\<rparr>"
      using opx rel by (auto simp: op_ok_def release_op_def \<sigma>1_def set_worker_def)
    with win1 x show ?thesis
      by (auto simp: windows_ok_def windows_fit_def places_def ops_held_def slots_fresh)
  qed
qed

lemma wait_one_hands_over:
  assumes ok: "ok {#} \<sigma>" and win: "win \<sigma>" and i: "i < length (worker_threads \<sigma>)" and fit: "results_fit U i \<sigma>"
    and wait: "wait_one U 0 (worker_threads \<sigma> ! i) = Inr (c, rq)"
  shows "hand_over contents pending c (set_worker i rq \<sigma>)"
  unfolding hand_over_def
proof (intro allI impI conjI)
  fix x opn
  assume x: "ic_operation c = Some x" and "io_ops (set_worker i rq \<sigma>) x = Some opn"
  then have opn: "io_ops \<sigma> x = Some opn" by (simp add: set_worker_def)
  note w = wait_one_windows [OF win i wait]
  then have held: "x \<in># ops_held contents pending \<sigma>" using x by (simp add: in_hand_def mset_subset_eqD)
  show "count (pl (set_worker i rq \<sigma>)) (op_object opn) = 0" if "takes_slot (op_kind opn)"
  proof -
    have "count (pl \<sigma>) (op_object opn) \<le> 1" using win unfolding windows_ok_def by blast
    then show ?thesis using w x opn that by (simp add: in_hand_def slots_single)
  qed
  show "(off, len) = get_remain_span (sessions (set_worker i rq \<sigma>) ! op_object opn)"
    if "op_kind opn = Io_Recv off len" for off len
    using win held opn that by (auto simp: windows_ok_def windows_fit_def set_worker_def)
  show "ic_result c \<le> int len" if "op_kind opn = Io_Recv off len" for off len
  proof -
    from wait_one_result [OF wait x] show ?thesis using fit opn that unfolding results_fit_def by blast
  qed
qed

lemma routine_windows:
  assumes ok: "ok {#} \<sigma>" and win: "win \<sigma>" and i: "i < length (worker_threads \<sigma>)"
    and con: "user_contract user_call (length (sessions \<sigma>)) I handlers drain" and u: "I (user \<sigma>)"
    and keep: "handlers_keep_header handlers" and fit: "results_fit U i \<sigma>" and run: "routine Q U P handlers drain i \<sigma> = Some (Inr \<sigma>')"
  shows "win \<sigma>'"
proof -
  obtain c rq where w: "wait_one U 0 (worker_threads \<sigma> ! i) = Inr (c, rq)"
    using run by (auto simp: routine_def bind_loop_def split: sum.splits)
  let ?\<sigma>0 = "set_worker i rq \<sigma>"
  obtain \<sigma>1 \<sigma>2 where h: "handle_completion Q P handlers drain c ?\<sigma>0 = Some (Inr \<sigma>1)"
    and f: "flush_worker Q U i \<sigma>1 = Some (Inr \<sigma>2)" and d: "destroy_completion U P i c \<sigma>2 = Inr \<sigma>'"
    using run w by (auto simp: routine_def bind_loop_def split: option.splits sum.splits)
  have s0: "sessions ?\<sigma>0 = sessions \<sigma>" "length (worker_threads ?\<sigma>0) = length (worker_threads \<sigma>)" "user ?\<sigma>0 = user \<sigma>"
    by (simp_all add: set_worker_def)
  note ok0 = wait_one_ok [OF ok i w]
  have x: "\<forall>x. ic_operation c = Some x \<longrightarrow> x \<in># in_hand c" by (simp add: in_hand_def)
  have c0: "user_contract user_call (length (sessions ?\<sigma>0)) I handlers drain" and u0: "I (user ?\<sigma>0)"
    using con u s0 by simp_all
  note win1 = handle_completion_windows [OF ok0 conjunct1 [OF wait_one_windows [OF win i w]] c0 u0 keep
      wait_one_hands_over [OF ok win i fit w] x h]
  note ok1 = handle_completion_ok [OF ok0 x contract_call_ok [OF c0] u0 h]
  then have i1: "i < length (worker_threads \<sigma>1)" using i s0 by simp
  note f2 = flush_worker_ok [OF conjunct1 [OF ok1] i1 f]
  then have i2: "i < length (worker_threads \<sigma>2)" using i1 by (auto simp: set_worker_def)
  from destroy_completion_windows [OF conjunct1 [OF f2] flush_worker_windows [OF conjunct1 [OF ok1] win1 i1 f] i2 d]
  show ?thesis .
qed

lemma make_sessions_places:
  "mset (contents (sessions_queue (make_sessions Q n \<sigma>))) \<subseteq>#
     mset (contents (sessions_queue \<sigma>)) + mset [length (sessions \<sigma>) ..< length (sessions \<sigma>) + n]"
proof (induction n arbitrary: \<sigma>)
  case (Suc n)
  let ?k = "length (sessions \<sigma>)"
  let ?\<sigma>1 = "\<sigma>\<lparr>sessions_queue := push_ignore Q ?k (sessions_queue \<sigma>), sessions := sessions \<sigma> @ [new_session]\<rparr>"
  have "mset (contents (sessions_queue ?\<sigma>1)) \<subseteq># mset (contents (sessions_queue \<sigma>)) + {#?k#}"
    using push_ignore_contents [of ?k "sessions_queue \<sigma>"] by auto
  then have "mset (contents (sessions_queue ?\<sigma>1)) + mset [Suc ?k ..< Suc ?k + n] \<subseteq>#
      mset (contents (sessions_queue \<sigma>)) + {#?k#} + mset [Suc ?k ..< Suc ?k + n]"
    by (rule subset_mset.add_right_mono)
  also have "\<dots> = mset (contents (sessions_queue \<sigma>)) + mset [?k ..< ?k + Suc n]"
    by (simp add: upt_conv_Cons del: upt_Suc)
  finally show ?case using Suc.IH [of ?\<sigma>1] by (simp del: upt_Suc)
qed simp

lemma accept_loop_windows:
  "ok H \<sigma> \<Longrightarrow> win \<sigma> \<Longrightarrow> accept_loop Q P n \<sigma> = Inr \<sigma>' \<Longrightarrow> win \<sigma>'"
proof (induction n arbitrary: \<sigma>)
  case (Suc n)
  then obtain \<sigma>1 where r: "request_accept_one Q P \<sigma> = Inr \<sigma>1" and "accept_loop Q P n \<sigma>1 = Inr \<sigma>'"
    by (auto simp: outcome_simps)
  with Suc.IH request_accept_one_ok [OF Suc.prems(1) r] request_accept_one_windows [OF Suc.prems(1,2) r]
  show ?case by blast
qed simp

lemma initialize_windows:
  assumes fresh: "worker_threads \<sigma> = []" "sessions \<sigma> = []" "contents (sessions_queue \<sigma>) = []"
    and good: "good (io_pool \<sigma>)" and init: "initialize Q U P \<sigma> = Inr \<sigma>'"
  shows "win \<sigma>'"
proof -
  let ?n = "nat (session_count \<sigma>)"
  let ?\<sigma>1 = "make_sessions Q ?n (initialize_threads Q U \<sigma>)"
  note p = prepared_ok [OF fresh good]
  have "mset (contents (sessions_queue ?\<sigma>1)) \<subseteq># mset [0..<?n]"
    using make_sessions_places [of ?n "initialize_threads Q U \<sigma>"] fresh by (simp add: initialize_threads_def)
  then have "count (mset (contents (sessions_queue ?\<sigma>1))) s \<le> 1" for s
    using mset_subset_eq_count [of _ "mset [0..<?n]" s] distinct_count_atmost_1 [of "[0..<?n]"]
    by (metis distinct_upt le_trans le_refl zero_le_one)
  then have "count (pl ?\<sigma>1) s \<le> 1" for s by (simp add: places_def p(2) slots_def)
  moreover have "session_ok new_session" by (simp add: session_ok_def new_session_def)
  ultimately have "win ?\<sigma>1" using p(2,3) by (simp add: windows_ok_def windows_fit_def)
  from accept_loop_windows [OF p(1) this] init show ?thesis by (simp add: initialize_def)
qed

end

lemma service_run_windows:
  assumes "\<And>i. io_service Q contents U pending (P i) good live"
    and "service_run Q U P handlers drain \<sigma> \<sigma>'"
    and "service_ok contents pending good live {#} \<sigma>" and "windows_ok contents pending \<sigma>"
    and "user_contract user_call (length (sessions \<sigma>)) I handlers drain" and "I (user \<sigma>)"
    and "handlers_keep_header handlers" and "\<And>i \<sigma>'. service_run Q U P handlers drain \<sigma> \<sigma>' \<Longrightarrow> results_fit U i \<sigma>'"
  shows "windows_ok contents pending \<sigma>'"
  using assms(2-)
proof (induction rule: service_run.induct)
  case (no_step \<sigma>)
  then show ?case by blast
next
  case (worker_step \<sigma> \<sigma>1 i \<sigma>2)
  have "service_ok contents pending good live {#} \<sigma>1" "length (sessions \<sigma>1) = length (sessions \<sigma>)" "I (user \<sigma>1)"
    using service_run_ok [OF assms(1) worker_step.hyps(1) worker_step.prems(1) contract_call_ok [OF worker_step.prems(3)]
        worker_step.prems(4)]
    by blast+
  with worker_step show ?case
    by (intro io_service.routine_windows [where I = I, OF assms(1) _ _ worker_step.hyps(2) _ _ _ _ worker_step.hyps(3)]) auto
next
  case (kernel_write \<sigma> \<sigma>1 s off bs buf)
  then have win: "windows_ok contents pending \<sigma>1" by blast
  with kernel_write.hyps(2,3) have "session_ok ((sessions \<sigma>1 ! s)\<lparr>rx_buffer := buf\<rparr>)"
    using mem_write_length by (fastforce simp: windows_ok_def session_ok_def)
  from set_session_windows(1) [OF win kernel_write.hyps(2) this] show ?case by (simp add: get_remain_span_def)
qed

section \<open>What it gives\<close>

text \<open>
  In a running service a session never has two receives outstanding, and none while it waits for an accept
  or is in the pool of free sessions; the window of an outstanding receive begins where the received
  bytes end and ends with the buffer, so the kernel never writes over bytes that are not processed yet;
  and the count of received bytes stays within the buffer. (Handlers send and close only and leave the
  header of their message alone; the kernel reports no more bytes than the window has.)
\<close>

theorem receive_windows_exclusive:
  assumes "\<And>j. io_service Q contents U pending (P j) good live"
    and "worker_threads \<sigma>0 = []" and "sessions \<sigma>0 = []" and "contents (sessions_queue \<sigma>0) = []"
    and "good (io_pool \<sigma>0)" and "initialize Q U (P 0) \<sigma>0 = Inr \<sigma>1"
    and "user_contract user_call (nat (session_count \<sigma>0)) I handlers drain" and "handlers_keep_header handlers"
    and "\<And>i \<sigma>. service_run Q U P handlers drain \<sigma>1 \<sigma> \<Longrightarrow> results_fit U i \<sigma>"
    and "service_run Q U P handlers drain \<sigma>1 \<sigma>"
    and "x \<in># ops_held contents pending \<sigma>" and "io_ops \<sigma> x = Some opn" and "op_kind opn = Io_Recv off len"
    and "I (user \<sigma>0)"
  shows "int off = commited_size (sessions \<sigma> ! op_object opn) \<and> off + len = 4096 \<and>
    op_object opn \<notin> set (contents (sessions_queue \<sigma>)) \<and>
    (\<forall>y opn'. y \<in># ops_held contents pending \<sigma> \<longrightarrow> io_ops \<sigma> y = Some opn' \<longrightarrow>
       op_object opn' = op_object opn \<longrightarrow> takes_slot (op_kind opn') \<longrightarrow> y = x)"
proof -
  let ?s = "op_object opn" and ?held = "ops_held contents pending \<sigma>"
  have 1: "service_ok contents pending good live {#} \<sigma>1" "length (sessions \<sigma>1) = nat (session_count \<sigma>0)"
    using io_service.initialize_ok [OF assms(1-6)] by blast+
  have "windows_ok contents pending \<sigma>1" using io_service.initialize_windows [OF assms(1-6)] .
  then have win: "windows_ok contents pending \<sigma>"
    using service_run_windows [OF assms(1,10) 1(1) _ _ _ assms(8,9)] assms(7,14) 1(2) initialize_user [OF assms(6)]
    by simp
  have ok: "service_ok contents pending good live {#} \<sigma>"
    using service_run_ok [OF assms(1,10) 1(1) contract_call_ok] assms(7,14) 1(2) initialize_user [OF assms(6)] by simp
  then have "op_ok live \<sigma> x" using assms(11) by (simp add: service_ok_def)
  then have s: "?s < length (sessions \<sigma>)" using assms(12) by (auto simp: op_ok_def)
  with win have "session_ok (sessions \<sigma> ! ?s)" by (simp add: windows_ok_def)
  moreover have "(off, len) = get_remain_span (sessions \<sigma> ! ?s)"
    using win assms(11-13) by (auto simp: windows_ok_def windows_fit_def)
  ultimately have w: "int off = commited_size (sessions \<sigma> ! ?s)" "off + len = 4096"
    using get_remain_span_ok by blast+
  have pl: "count (places contents pending \<sigma>) ?s \<le> 1" using win unfolding windows_ok_def by blast
  have slot: "?s \<in># slots (io_ops \<sigma>) ?held"
    using slots_member [of x ?held "io_ops \<sigma>" opn] assms(11-13) by simp
  have q: "?s \<notin> set (contents (sessions_queue \<sigma>))"
  proof
    assume "?s \<in> set (contents (sessions_queue \<sigma>))"
    then have "0 < count (mset (contents (sessions_queue \<sigma>))) ?s" by (simp add: count_greater_zero_iff)
    moreover have "0 < count (slots (io_ops \<sigma>) ?held) ?s" using slot by simp
    ultimately show False using pl unfolding places_def count_union by linarith
  qed
  have "y = x" if y: "y \<in># ?held" "io_ops \<sigma> y = Some opn'" "op_object opn' = ?s" "takes_slot (op_kind opn')" for y opn'
  proof (rule ccontr)
    assume "y \<noteq> x"
    then have "{#y, x#} \<subseteq># ?held" using assms(11) y(1)
      by (simp add: insert_subset_eq_iff in_diff_count)
    from slots_mono [OF this, of "io_ops \<sigma>"] have "{#?s, ?s#} \<subseteq># slots (io_ops \<sigma>) ?held"
      using assms(12,13) y slots_union [of "io_ops \<sigma>" "{#x#}" "{#y#}"] by (simp add: slots_single)
    then have "2 \<le> count (slots (io_ops \<sigma>) ?held) ?s"
      using mset_subset_eq_count [of "{#?s, ?s#}" _ ?s] by fastforce
    with pl show False by (simp add: places_def)
  qed
  with w q show ?thesis by blast
qed

text \<open>For the witness: a ring that completes its operations in order, each with result 0.\<close>

definition zero_ring :: "nat list uring_ops" where
  "zero_ring =
     \<lparr>ur_init = (\<lambda>_. []), ur_add = (\<lambda>e x r. Some (r @ [x])), ur_submit = (\<lambda>r. r),
      ur_wait = (\<lambda>t r. case r of [] \<Rightarrow> (Inl (- 62), r) | x # r' \<Rightarrow> (Inr (x, 0), r')), ur_seen = (\<lambda>r. r)\<rparr>"

lemma zero_ring_contract: "io_ring zero_ring mset"
  by unfold_locales (auto simp: zero_ring_def split: list.splits)

lemma zero_ring_fits: "results_fit zero_ring i \<sigma>"
  by (auto simp: results_fit_def zero_ring_def split: list.splits)

type_synonym zero_demo = "(nat list, nat list, nat list io_pools, unit) service"

definition zero_service :: zero_demo where
  "zero_service = (service_new list_queue 0 demo_pools ())
     \<lparr>thread_count := 1, session_count := 1, backlog := 1, acceptor_fd := 3\<rparr>"

definition zero_started :: zero_demo where
  "zero_started = zero_service\<lparr>request_index := 1,
     worker_threads := [\<lparr>rq_queue = [4096], rq_ring = []\<rparr>],
     sessions := [new_session], sessions_queue := [], io_pool := demo_pools_after,
     io_ops := [4096 \<mapsto> \<lparr>op_object = 0, op_kind = Io_Accept 3, op_refs = 1\<rparr>]\<rparr>"

definition zero_flushed :: zero_demo where
  "zero_flushed = zero_started\<lparr>worker_threads := [\<lparr>rq_queue = [], rq_ring = [4096]\<rparr>]\<rparr>"

lemmas zero_defs = request_defs zero_service_def zero_started_def zero_ring_def

lemma zero_initialize: "initialize list_queue zero_ring demo_pool zero_service = Inr zero_started"
  by (simp add: initialize_def initialize_threads_def demo_acquire request_queue_new_def zero_defs)

lemma zero_first_routine:
  "routine list_queue zero_ring demo_pool Map.empty no_requests 0 zero_started = Some (Inr zero_flushed)"
  by (simp add: routine_defs accept_request_io_def zero_flushed_def zero_defs)

lemma zero_second_routine:
  "\<exists>\<sigma>. routine list_queue zero_ring demo_pool Map.empty no_requests 0 zero_flushed = Some (Inr \<sigma>) \<and>
     io_ops \<sigma> 8192 = Some \<lparr>op_object = 0, op_kind = Io_Recv 0 4096, op_refs = 1\<rparr> \<and>
     8192 \<in># ops_held (\<lambda>q. q) mset \<sigma>"
proof -
  obtain p where p: "op_acquire demo_pool Type_Recv demo_pools_after = (Some 8192, p)" using demo_acquire(2) by blast
  have r: "(1 :: int) smod 1 = 0" by (simp add: signed_modulo_int_def)
  show ?thesis
    by (simp add: r routine_defs recv_request_io_def zero_flushed_def p handle_operation_def
        accept_completion_def on_accepted_def request_receive_def set_session_def release_op_def
        session_fd_def ops_held_def ops_at_def get_remain_span_def new_session_def MAX_RECEIVE_BUFFER_SIZE_def zero_defs)
qed

lemma zero_contracts:
  "io_service list_queue (\<lambda>q. q) zero_ring mset demo_pool
     (io_good (\<lambda>q. q) (\<lambda>_. 64) {0, 1}) (io_live (\<lambda>q. q) (\<lambda>_. 64) {0, 1})"
  using demo_contracts zero_ring_contract by (simp add: io_service_def)

theorem receive_windows_exclusive_witness:
  "\<exists>\<sigma> opn. service_run list_queue zero_ring (\<lambda>_. demo_pool) Map.empty no_requests zero_started \<sigma> \<and>
     io_ops \<sigma> 8192 = Some opn \<and> op_kind opn = Io_Recv 0 4096 \<and>
     commited_size (sessions \<sigma> ! op_object opn) = 0 \<and> op_object opn \<notin> set (sessions_queue \<sigma>)"
proof -
  obtain \<sigma> where r: "routine list_queue zero_ring demo_pool Map.empty no_requests 0 zero_flushed = Some (Inr \<sigma>)"
    and o: "io_ops \<sigma> 8192 = Some \<lparr>op_object = 0, op_kind = Io_Recv 0 4096, op_refs = 1\<rparr>"
    and h: "8192 \<in># ops_held (\<lambda>q. q) mset \<sigma>"
    using zero_second_routine by blast
  have w: "0 < length (worker_threads zero_started)" "0 < length (worker_threads zero_flushed)"
    by (simp_all add: zero_started_def zero_flushed_def)
  have run: "service_run list_queue zero_ring (\<lambda>_. demo_pool) Map.empty no_requests zero_started \<sigma>"
    by (rule service_run.worker_step [OF service_run.worker_step [OF service_run.no_step w(1) zero_first_routine] w(2) r])
  have f: "worker_threads zero_service = []" "sessions zero_service = []" "sessions_queue zero_service = []"
    "io_good (\<lambda>q. q) (\<lambda>_. 64) {0, 1} (io_pool zero_service)" "user_contract user_call (nat (session_count zero_service)) (\<lambda>_. True) Map.empty no_requests"
    "handlers_keep_header Map.empty"
    using demo_good
    by (simp_all add: zero_service_def demo_service_def service_new_def user_contract_def no_requests_def handlers_keep_header_def)
  have k: "op_kind \<lparr>op_object = 0, op_kind = Io_Recv 0 4096, op_refs = 1\<rparr> = Io_Recv 0 4096" by simp
  from receive_windows_exclusive [where P = "\<lambda>_. demo_pool", OF zero_contracts f(1-4) zero_initialize f(5,6) zero_ring_fits run h o k TrueI]
  show ?thesis using run o by (intro exI conjI) auto
qed

end
