(* ===== verification/Braid_Text.thy ===== *)
theory Braid_Text
  imports Braid_Prelude
begin

text \<open>
  Numbers as text: the conversions of the C++ library that the log handler, the sample server and the
  test client use (\<open>std::to_string\<close>, \<open>%0wd\<close> of \<open>snprintf\<close>, \<open>strtoll\<close> and \<open>std::stoll\<close>), as the
  standard describes them, and what reading back a printed number gives.
\<close>

section \<open>Decimal numbers\<close>

definition digit :: "nat \<Rightarrow> char" where
  "digit d = char_of (48 + d)"

fun digits :: "nat \<Rightarrow> string" where
  "digits n = (if n < 10 then [digit n] else digits (n div 10) @ [digit (n mod 10)])"

declare digits.simps [simp del]

text \<open>\<open>std::to_string\<close>, and \<open>%0wd\<close> of \<open>snprintf\<close>: the zeros come after the sign.\<close>

definition int_digits :: "int \<Rightarrow> string" where
  "int_digits i = (if i < 0 then CHR ''-'' # digits (nat (- i)) else digits (nat i))"

definition format_0d :: "nat \<Rightarrow> int \<Rightarrow> string" where
  "format_0d w i =
     (if i < 0 then CHR ''-'' # replicate (w - 1 - length (digits (nat (- i)))) CHR ''0'' @ digits (nat (- i))
      else replicate (w - length (digits (nat i))) CHR ''0'' @ digits (nat i))"

definition read_digits :: "string \<Rightarrow> nat" where
  "read_digits s = foldl (\<lambda>a c. 10 * a + (of_char c - 48)) 0 s"

section \<open>Reading numbers\<close>

text \<open>
  \<open>strtoll\<close> with base 10 returns the value, whether it was out of the range of \<open>long long\<close> (then the value
  is the nearest bound), and the text behind the number; without digits that is the whole text.
\<close>

definition is_space :: "char \<Rightarrow> bool" where
  "is_space c \<longleftrightarrow> c = CHR '' '' \<or> (9 \<le> (of_char c :: nat) \<and> (of_char c :: nat) \<le> 13)"

definition is_digit :: "char \<Rightarrow> bool" where
  "is_digit c \<longleftrightarrow> 48 \<le> (of_char c :: nat) \<and> (of_char c :: nat) \<le> 57"

definition LLONG_MAX :: int where "LLONG_MAX = 2 ^ 63 - 1"
definition LLONG_MIN :: int where "LLONG_MIN = - (2 ^ 63)"

definition strtoll :: "string \<Rightarrow> int \<times> bool \<times> string" where
  "strtoll s =
     (let t = dropWhile is_space s;
          neg = (t \<noteq> [] \<and> hd t = CHR ''-'');
          u = (if t \<noteq> [] \<and> (hd t = CHR ''-'' \<or> hd t = CHR ''+'') then tl t else t);
          ds = takeWhile is_digit u;
          v = (if neg then - int (read_digits ds) else int (read_digits ds))
      in if ds = [] then (0, False, s)
         else if v < LLONG_MIN then (LLONG_MIN, True, dropWhile is_digit u)
         else if LLONG_MAX < v then (LLONG_MAX, True, dropWhile is_digit u)
         else (v, False, dropWhile is_digit u))"

text \<open>\<open>std::stoll\<close> throws (\<open>None\<close>) when there is no number or it is out of range.\<close>

definition stoll :: "string \<Rightarrow> int option" where
  "stoll s =
     (case strtoll s of (v, range_error, rest) \<Rightarrow>
        if length rest = length s \<or> range_error then None else Some v)"

section \<open>Reading back what was printed\<close>

lemma of_char_digit: "d < 10 \<Longrightarrow> of_char (digit d) = 48 + d"
  by (simp add: digit_def of_char_of)

lemma read_digits_append: "read_digits (s @ [digit d]) = 10 * read_digits s + d" if "d < 10"
  using that by (simp add: read_digits_def of_char_digit)

lemma read_digits_digits [simp]: "read_digits (digits n) = n"
proof (induction n rule: digits.induct)
  case (1 n)
  show ?case
  proof (cases "n < 10")
    case True
    then show ?thesis by (simp add: digits.simps read_digits_def of_char_digit)
  next
    case False
    then show ?thesis using 1 by (subst digits.simps) (simp add: read_digits_append)
  qed
qed

lemma read_digits_zeros [simp]: "read_digits (replicate k CHR ''0'' @ s) = read_digits s"
proof -
  have "foldl (\<lambda>a c. 10 * a + (of_char c - 48)) 0 (replicate k CHR ''0'') = (0::nat)"
    by (induction k) (simp_all add: of_char_def)
  then show ?thesis by (simp add: read_digits_def)
qed

lemma read_digits_0d: "0 \<le> i \<Longrightarrow> read_digits (format_0d w i) = nat i"
  by (simp add: format_0d_def)

lemma length_digits: "n < 10 ^ w \<Longrightarrow> 0 < w \<Longrightarrow> length (digits n) \<le> w"
proof (induction n arbitrary: w rule: digits.induct)
  case (1 n)
  show ?case
  proof (cases "n < 10")
    case True
    then show ?thesis using 1 by (simp add: digits.simps)
  next
    case False
    then obtain v where v: "w = Suc v" "0 < v" using 1 by (cases w; cases "w - 1") auto
    then have "length (digits (n div 10)) \<le> v" using 1 False by simp
    then show ?thesis using False v by (subst digits.simps) simp
  qed
qed

lemma length_0d: "0 \<le> i \<Longrightarrow> i < 10 ^ w \<Longrightarrow> 0 < w \<Longrightarrow> length (format_0d w i) = w"
  using length_digits [of "nat i" w] by (simp add: format_0d_def nat_less_iff)

lemma digits_not_empty [simp]: "digits n \<noteq> []"
  by (subst digits.simps) simp

lemma digit_is_digit [simp]: "d < 10 \<Longrightarrow> is_digit (digit d)"
  by (simp add: is_digit_def of_char_digit)

lemma digits_are_digits: "list_all is_digit (digits n)"
proof (induction n rule: digits.induct)
  case (1 n)
  then show ?case by (subst digits.simps) simp
qed

lemma is_digit_no_sign: "is_digit c \<Longrightarrow> c \<noteq> CHR ''-'' \<and> c \<noteq> CHR ''+'' \<and> \<not> is_space c"
  by (auto simp: is_digit_def is_space_def of_char_def)

lemma takeWhile_digits [simp]:
  "takeWhile is_digit (digits n @ rest) = digits n @ takeWhile is_digit rest"
  "dropWhile is_digit (digits n @ rest) = dropWhile is_digit rest"
  using digits_are_digits [of n] by (auto simp: list_all_iff)

lemma minus_not_space [simp]: "\<not> is_space CHR ''-''"
  by code_simp

definition number_ends :: "string \<Rightarrow> bool" where
  "number_ends rest \<longleftrightarrow> rest = [] \<or> \<not> is_digit (hd rest)"

lemma number_ends_takeWhile: "number_ends rest \<Longrightarrow> takeWhile is_digit rest = [] \<and> dropWhile is_digit rest = rest"
  by (cases rest) (auto simp: number_ends_def)

lemma strtoll_int_digits:
  assumes "LLONG_MIN \<le> i" and "i \<le> LLONG_MAX" and "number_ends rest"
  shows "strtoll (int_digits i @ rest) = (i, False, rest)"
proof -
  obtain c cs where d: "digits (nat \<bar>i\<bar>) = c # cs" by (cases "digits (nat \<bar>i\<bar>)") simp_all
  have c: "is_digit c" using digits_are_digits [of "nat \<bar>i\<bar>"] by (simp add: d)
  note n = number_ends_takeWhile [OF assms(3)]
  have tw: "takeWhile is_digit (c # cs @ rest) = c # cs" "dropWhile is_digit (c # cs @ rest) = rest"
    using takeWhile_digits [of "nat \<bar>i\<bar>" rest] by (simp_all only: d append_Cons append_Nil2 n)
  have r: "read_digits (c # cs) = nat \<bar>i\<bar>" using read_digits_digits [of "nat \<bar>i\<bar>"] by (simp only: d)
  note lemmas_used = is_digit_no_sign [OF c]
  show ?thesis
  proof (cases "i < 0")
    case True
    then have "nat (- i) = nat \<bar>i\<bar>" by simp
    then show ?thesis using True assms(1,2) tw r d
      by (simp add: strtoll_def int_digits_def LLONG_MAX_def Let_def)
  next
    case False
    then have "nat i = nat \<bar>i\<bar>" by simp
    then show ?thesis using False assms(1,2) tw r d lemmas_used
      by (simp add: strtoll_def int_digits_def LLONG_MIN_def Let_def)
  qed
qed

lemma stoll_int_digits:
  "LLONG_MIN \<le> i \<Longrightarrow> i \<le> LLONG_MAX \<Longrightarrow> stoll (int_digits i) = Some i"
  using strtoll_int_digits [of i "[]"] by (auto simp: stoll_def number_ends_def int_digits_def)

end
