(* ===== verification/Log_Handler.thy ===== *)
theory Log_Handler
  imports Braid_Text
begin

text \<open>
  \<open>LogHandler\<close> (\<open>util/LogHandler.h\<close>, \<open>util/src/LogHandler.cc\<close>): levels, time stamps and locations of log
  lines, and the state of the log file. Tasks are in \<open>Task_Machine\<close>; here \<open>write_log\<close> is what the requested
  task does. \<open>std::format\<close> with string arguments and \<open>std::ofstream\<close> are modelled as the standard
  describes them.
\<close>

section \<open>Levels, time and place\<close>

text \<open>\<open>LogLevel\<close> has the underlying type \<open>int\<close>; \<open>to_string\<close> has a default for values that are no level.\<close>

definition LOG_INFO :: int where "LOG_INFO = 0"
definition LOG_ERROR :: int where "LOG_ERROR = 1"
definition LOG_FATAL :: int where "LOG_FATAL = 2"

definition level_string :: "int \<Rightarrow> string" where
  "level_string level =
     (if level = LOG_INFO then ''INFO'' else if level = LOG_ERROR then ''ERROR''
      else if level = LOG_FATAL then ''FATAL'' else ''UNKNOWN'')"

text \<open>The broken-down local time is a parameter; the buffer has 64 bytes.\<close>

record tm =
  tm_year :: int
  tm_mon :: int
  tm_mday :: int
  tm_hour :: int
  tm_min :: int
  tm_sec :: int

definition capture_timestamp :: "tm \<Rightarrow> string outcome" where
  "capture_timestamp t =
     bind_outcome (checked_int (tm_year t + 1900)) (\<lambda>year.
     bind_outcome (checked_int (tm_mon t + 1)) (\<lambda>mon.
       Inr (take 63 (format_0d 4 year @ ''-'' @ format_0d 2 mon @ ''-'' @ format_0d 2 (tm_mday t) @ '' '' @
         format_0d 2 (tm_hour t) @ '':'' @ format_0d 2 (tm_min t) @ '':'' @ format_0d 2 (tm_sec t)))))"

definition find_last_of :: "string \<Rightarrow> string \<Rightarrow> nat option" where
  "find_last_of cs s = (case filter (\<lambda>i. s ! i \<in> set cs) (rev [0..<length s]) of [] \<Rightarrow> None | i # _ \<Rightarrow> Some i)"

definition separators :: string where
  "separators = [CHR ''/'', CHR 0x5C]"

definition get_filename :: "string \<Rightarrow> string" where
  "get_filename path =
     (case find_last_of separators path of None \<Rightarrow> path | Some pos \<Rightarrow> drop (pos + 1) path)"

record source_location =
  loc_file :: string
  loc_line :: nat
  loc_function :: string

definition format_location :: "source_location \<Rightarrow> string" where
  "format_location loc =
     ''['' @ get_filename (loc_file loc) @ '':'' @ digits (loc_line loc) @ '' '' @ loc_function loc @ '']''"

section \<open>LogImpl\<close>

text \<open>
  The arguments of the requested task, or \<open>None\<close> when the level is filtered out. The first overload
  formats its arguments with \<open>render\<close> (\<open>std::format\<close>), the second takes the message as it is.
\<close>

type_synonym log_line = "int \<times> string \<times> string \<times> string"

definition log_impl_format ::
    "int \<Rightarrow> int \<Rightarrow> source_location \<Rightarrow> ('a \<Rightarrow> string) \<Rightarrow> 'a \<Rightarrow> tm \<Rightarrow> log_line option outcome" where
  "log_impl_format min_lv level loc render args now =
     (if level < min_lv then Inr None
      else bind_outcome (capture_timestamp now) (\<lambda>timestamp.
        Inr (Some (level, timestamp, format_location loc, render args))))"

definition log_impl :: "int \<Rightarrow> int \<Rightarrow> source_location \<Rightarrow> string \<Rightarrow> tm \<Rightarrow> log_line option outcome" where
  "log_impl min_lv level loc message now =
     (if level < min_lv then Inr None
      else bind_outcome (capture_timestamp now) (\<lambda>timestamp.
        Inr (Some (level, timestamp, format_location loc, message))))"

section \<open>The handler\<close>

text \<open>
  \<open>file_stream_\<close> is a flag for an open file and one for a failed stream; \<open>files\<close> is the file system, as far
  as it matters. \<open>can_open\<close> and \<open>can_write\<close> (for a path and the present content) say what the operating
  system allows.
\<close>

record file_env =
  can_open :: "string \<Rightarrow> bool"
  can_write :: "string \<Rightarrow> string \<Rightarrow> bool"

record log_handler =
  min_level :: int
  file_enabled :: bool
  stream_open :: bool
  stream_failed :: bool
  file_path :: string
  out_lines :: "string list"
  err_lines :: "string list"
  files :: "string \<Rightarrow> string"

definition log_handler_new :: "(string \<Rightarrow> string) \<Rightarrow> log_handler" where
  "log_handler_new fs =
     \<lparr>min_level = LOG_INFO, file_enabled = False, stream_open = False, stream_failed = False,
      file_path = [], out_lines = [], err_lines = [], files = fs\<rparr>"

definition set_min_level :: "int \<Rightarrow> log_handler \<Rightarrow> log_handler" where
  "set_min_level level h = h\<lparr>min_level := level\<rparr>"

text \<open>Closing and opening: \<open>open\<close> clears the state of the stream when it succeeds and fails it otherwise.\<close>

definition enable_file_output :: "file_env \<Rightarrow> string \<Rightarrow> log_handler \<Rightarrow> log_handler" where
  "enable_file_output E path h =
     (let h1 = h\<lparr>file_path := path, stream_open := can_open E path,
                stream_failed := \<not> can_open E path\<rparr>
      in if stream_open h1 then h1\<lparr>file_enabled := True\<rparr>
         else h1\<lparr>err_lines := err_lines h1 @ [''[LogHandler] Failed to open log file: '' @ path],
                 file_enabled := False\<rparr>)"

definition disable_file_output :: "log_handler \<Rightarrow> log_handler" where
  "disable_file_output h = h\<lparr>file_enabled := False, stream_open := False\<rparr>"

definition log_initialize :: "file_env \<Rightarrow> string \<Rightarrow> int \<Rightarrow> log_handler \<Rightarrow> log_handler" where
  "log_initialize E path level h =
     (let h1 = set_min_level level h in if path = [] then h1 else enable_file_output E path h1)"

definition format_log :: "log_line \<Rightarrow> string" where
  "format_log = (\<lambda>(level, timestamp, location, message).
     timestamp @ '' ['' @ level_string level @ ''] '' @ location @ '' : '' @ message)"

definition newline :: string where
  "newline = [CHR 0x0A]"

definition write_to_stdout :: "string \<Rightarrow> log_handler \<Rightarrow> log_handler" where
  "write_to_stdout s h = h\<lparr>out_lines := out_lines h @ [s]\<rparr>"

definition write_to_file :: "file_env \<Rightarrow> string \<Rightarrow> log_handler \<Rightarrow> log_handler" where
  "write_to_file E s h =
     (if \<not> stream_open h \<or> stream_failed h
      then h\<lparr>file_enabled := False,
             err_lines := err_lines h @ [''[LogHandler] File stream is not valid, disabling file output'']\<rparr>
      else
        (let content = files h (file_path h);
             h1 = (if can_write E (file_path h) content
                   then h\<lparr>files := (files h)(file_path h := content @ s @ newline)\<rparr>
                   else h\<lparr>stream_failed := True\<rparr>)
         in if stream_failed h1
            then h1\<lparr>file_enabled := False,
                    err_lines := err_lines h1 @ [''[LogHandler] File write error, disabling file output'']\<rparr>
            else h1))"

definition write_log :: "file_env \<Rightarrow> log_line \<Rightarrow> log_handler \<Rightarrow> log_handler" where
  "write_log E l h =
     (let formatted = format_log l; h1 = write_to_stdout formatted h
      in if file_enabled h1 then write_to_file E formatted h1 else h1)"

section \<open>Log lines reach their destinations\<close>

fun write_logs :: "file_env \<Rightarrow> log_line list \<Rightarrow> log_handler \<Rightarrow> log_handler" where
  "write_logs E [] h = h"
| "write_logs E (l # ls) h = write_logs E ls (write_log E l h)"

definition file_lines :: "log_line list \<Rightarrow> string" where
  "file_lines ls = concat (map (\<lambda>l. format_log l @ newline) ls)"

text \<open>While file output is enabled, the stream is open and has not failed.\<close>

definition file_ok :: "log_handler \<Rightarrow> bool" where
  "file_ok h \<longleftrightarrow> (file_enabled h \<longrightarrow> stream_open h \<and> \<not> stream_failed h)"

lemma file_ok_operations:
  "file_ok (log_handler_new fs)"
  "file_ok (enable_file_output E path h)"
  "file_ok (disable_file_output h)"
  "file_ok h \<Longrightarrow> file_ok (set_min_level level h)"
  "file_ok h \<Longrightarrow> file_ok (log_initialize E path level h)"
  "file_ok h \<Longrightarrow> file_ok (write_log E l h)"
  by (auto simp: file_ok_def log_handler_new_def enable_file_output_def disable_file_output_def
      set_min_level_def log_initialize_def write_log_def write_to_stdout_def write_to_file_def Let_def)

lemma write_log_disabled:
  "\<not> file_enabled h \<Longrightarrow> write_log E l h = h\<lparr>out_lines := out_lines h @ [format_log l]\<rparr>"
  by (simp add: write_log_def write_to_stdout_def)

lemma write_logs_disabled:
  "\<not> file_enabled h \<Longrightarrow> write_logs E ls h = h\<lparr>out_lines := out_lines h @ map format_log ls\<rparr>"
  by (induction ls arbitrary: h) (simp_all add: write_log_disabled)


definition demo_env :: file_env where
  "demo_env = \<lparr>can_open = \<lambda>p. True, can_write = \<lambda>p c. c = []\<rparr>"

definition demo_lines :: "log_line list" where
  "demo_lines = [(0, ''t'', ''[a]'', ''x''), (1, ''t'', ''[b]'', ''y'')]"


section \<open>File names and time stamps\<close>

lemma find_last_of_cases:
  "(case find_last_of cs s of None \<Rightarrow> set s \<inter> set cs = {}
    | Some i \<Rightarrow> i < length s \<and> s ! i \<in> set cs \<and> (\<forall>j. i < j \<and> j < length s \<longrightarrow> s ! j \<notin> set cs))"
proof (induction s rule: rev_induct)
  case Nil
  then show ?case by (simp add: find_last_of_def)
next
  case (snoc x xs)
  have f: "filter (\<lambda>i. (xs @ [x]) ! i \<in> set cs) (rev [0..<length xs]) =
      filter (\<lambda>i. xs ! i \<in> set cs) (rev [0..<length xs])"
    by (rule filter_cong) (auto simp: nth_append)
  have "find_last_of cs (xs @ [x]) = (if x \<in> set cs then Some (length xs) else find_last_of cs xs)"
    by (simp add: find_last_of_def f)
  then show ?case using snoc.IH by (auto simp: nth_append split: option.splits)
qed

text \<open>
  \<open>get_filename\<close> cuts a path exactly behind its last separator: what it returns is the end of the path
  that has no separator, and what it cuts off is empty or ends with a separator.
\<close>

theorem get_filename_spec:
  "\<exists>dir. path = dir @ get_filename path \<and> set (get_filename path) \<inter> set separators = {} \<and>
    (dir = [] \<or> last dir \<in> set separators)"
proof (cases "find_last_of separators path")
  case None
  then show ?thesis using find_last_of_cases [of path separators] by (auto simp: get_filename_def)
next
  case (Some i)
  then have i: "i < length path" "path ! i \<in> set separators"
      "\<forall>j. i < j \<and> j < length path \<longrightarrow> path ! j \<notin> set separators"
    using find_last_of_cases [of path separators] by auto
  have "set (drop (i + 1) path) \<inter> set separators = {}"
    using i by (auto simp: in_set_conv_nth)
  moreover have "last (take (i + 1) path) = path ! i"
    using i by (simp add: take_Suc_conv_app_nth)
  ultimately show ?thesis
    using Some i by (intro exI [of _ "take (i + 1) path"]) (simp add: get_filename_def)
qed

definition field_at :: "nat \<Rightarrow> nat \<Rightarrow> string \<Rightarrow> string" where
  "field_at i n s = take n (drop i s)"

definition valid_tm :: "tm \<Rightarrow> bool" where
  "valid_tm t \<longleftrightarrow> 0 \<le> tm_year t + 1900 \<and> tm_year t + 1900 < 10000 \<and> 0 \<le> tm_mon t \<and> tm_mon t < 12 \<and>
     0 < tm_mday t \<and> tm_mday t \<le> 31 \<and> 0 \<le> tm_hour t \<and> tm_hour t < 24 \<and> 0 \<le> tm_min t \<and> tm_min t < 60 \<and>
     0 \<le> tm_sec t \<and> tm_sec t \<le> 60"

text \<open>
  The time stamp of a log line can be read back: for every broken-down time with a four-digit year it has
  19 characters, and its six fields are the year, the month counted from 1, the day, the hour, the minute and
  the second.
\<close>

theorem timestamp_fields:
  assumes "valid_tm t"
  shows "\<exists>s. capture_timestamp t = Inr s \<and> length s = 19 \<and>
    map (\<lambda>(i, n). int (read_digits (field_at i n s))) [(0, 4), (5, 2), (8, 2), (11, 2), (14, 2), (17, 2)] =
      [tm_year t + 1900, tm_mon t + 1, tm_mday t, tm_hour t, tm_min t, tm_sec t]"
proof -
  let ?y = "format_0d 4 (tm_year t + 1900)" and ?o = "format_0d 2 (tm_mon t + 1)" and ?d = "format_0d 2 (tm_mday t)"
    and ?h = "format_0d 2 (tm_hour t)" and ?m = "format_0d 2 (tm_min t)" and ?s = "format_0d 2 (tm_sec t)"
  have len: "length ?y = 4" "length ?o = 2" "length ?d = 2" "length ?h = 2" "length ?m = 2" "length ?s = 2"
    using assms by (simp_all add: valid_tm_def length_0d)
  have val: "read_digits ?y = nat (tm_year t + 1900)" "read_digits ?o = nat (tm_mon t + 1)"
    "read_digits ?d = nat (tm_mday t)" "read_digits ?h = nat (tm_hour t)" "read_digits ?m = nat (tm_min t)"
    "read_digits ?s = nat (tm_sec t)"
    using assms by (simp_all add: valid_tm_def read_digits_0d)
  have c: "capture_timestamp t =
      Inr (?y @ ''-'' @ ?o @ ''-'' @ ?d @ '' '' @ ?h @ '':'' @ ?m @ '':'' @ ?s)"
    using assms by (simp add: capture_timestamp_def checked_int_def fits_int_def valid_tm_def len)
  show ?thesis
    using assms by (simp add: c field_at_def len val valid_tm_def)
qed

definition demo_time :: tm where
  "demo_time = \<lparr>tm_year = 125, tm_mon = 11, tm_mday = 30, tm_hour = 2, tm_min = 34, tm_sec = 56\<rparr>"

lemma capture_demo_time: "capture_timestamp demo_time = Inr ''2025-12-30 02:34:56''"
  by code_simp

theorem timestamp_fields_witness:
  "\<exists>s. capture_timestamp demo_time = Inr s \<and> s = ''2025-12-30 02:34:56'' \<and> int (read_digits (field_at 5 2 s)) = 12"
proof -
  have "valid_tm demo_time" by (simp add: valid_tm_def demo_time_def)
  from timestamp_fields [OF this] obtain s where
    "capture_timestamp demo_time = Inr s" "int (read_digits (field_at 5 2 s)) = tm_mon demo_time + 1"
    by auto
  then show ?thesis by (auto simp: capture_demo_time) (simp add: demo_time_def)
qed

end
