(* ===== verification/Sample_Server.thy ===== *)
theory Sample_Server
  imports Braid_Text Stream_Framing
begin

text \<open>
  The sample server (\<open>sample-server/SampleServer.cc\<close>): the handler of message type 1 and
  \<open>timestamp_task\<close>, which answers with a text of random length in chunks. The clock, the random sizes, the
  addresses the allocator returns and the bytes that uninitialised memory holds are parameters. Local
  objects that are constant or not used any more (\<open>seq_mutex\<close>, \<open>expected_seq\<close>) are left out.
\<close>

section \<open>Bytes and text\<close>

definition text_of :: "byte list \<Rightarrow> string" where
  "text_of bs = map (\<lambda>b. char_of (unat b)) bs"

definition bytes_of :: "string \<Rightarrow> byte list" where
  "bytes_of s = map (\<lambda>c. word_of_nat (of_char c)) s"

definition le64_bytes :: "64 word \<Rightarrow> byte list" where
  "le64_bytes w = map (\<lambda>i. ucast (drop_bit (8 * i) w)) [0..<8]"

definition static_cast_int :: "nat \<Rightarrow> int" where
  "static_cast_int n = sint (word_of_nat n :: u32)"

text \<open>\<open>std::string::assign(const char*)\<close>: the characters up to the first NUL, wherever that is.\<close>

definition c_string :: "nat \<Rightarrow> byte list \<Rightarrow> string outcome" where
  "c_string off mem =
     (let bs = drop off mem in
      if 0 \<in> set bs then Inr (text_of (takeWhile (\<lambda>b. b \<noteq> 0) bs)) else Inl Out_Of_Bounds)"

definition find_char :: "char \<Rightarrow> string \<Rightarrow> nat option" where
  "find_char c s = (let n = length (takeWhile (\<lambda>d. d \<noteq> c) s) in if n < length s then Some n else None)"

section \<open>timestamp_task\<close>

definition message_seq :: "string \<Rightarrow> int" where
  "message_seq view =
     (if take 4 view = ''seq='' then
        (case find_char (CHR '';'') view of
           None \<Rightarrow> - 1
         | Some first_sep \<Rightarrow>
             (case stoll (take (first_sep - 4) (drop 4 view)) of None \<Rightarrow> - 1 | Some seq \<Rightarrow> seq))
      else - 1)"

definition sequential_ok :: bool where "sequential_ok = False"

definition reply_header :: "int \<Rightarrow> int \<Rightarrow> string \<Rightarrow> string" where
  "reply_header seq total_send_size message =
     (if sequential_ok then ''[OK] '' else ''[ERR] '') @ ''seq='' @ int_digits seq @ ''; '' @
     ''sequential='' @ (if sequential_ok then ''true'' else ''false'') @ ''; '' @
     ''size='' @ int_digits total_send_size @ ''; '' @ message"

definition kChunkSize :: int where "kChunkSize = 1024"

text \<open>
  The environment of one call: for the round at an offset, the address of the payload and the content of
  the new \<open>SendBuffer\<close>.
\<close>

record reply_env =
  payload_address :: "int \<Rightarrow> 64 word"
  buffer_memory :: "int \<Rightarrow> byte list"

definition chunk_payload :: "string \<Rightarrow> int \<Rightarrow> int \<Rightarrow> string" where
  "chunk_payload header offset chunk =
     (let payload = replicate (nat chunk) CHR ''x'' in
      if offset < static_cast_int (length header) then
        (let copy = nat (min chunk (static_cast_int (length header) - offset))
         in take copy (drop (nat offset) header) @ drop copy payload)
      else payload)"

text \<open>
  One round for each chunk; the result has the payload and the requests of each round. \<open>payload.data()\<close> is
  a \<open>char*\<close>, so overload resolution prefers the template \<open>write(const Args&...)\<close>, which needs no
  qualification conversion, to \<open>write(const char*, int)\<close>: the pointer and the size are written.
\<close>

function reply_loop ::
    "reply_env \<Rightarrow> bool \<Rightarrow> actor option \<Rightarrow> string \<Rightarrow> int \<Rightarrow> int \<Rightarrow> (string \<times> service_call list) list outcome" where
  "reply_loop E alive a header remaining offset =
     (if remaining \<le> 0 then Inr []
      else
        (let chunk = min kChunkSize remaining;
             payload = chunk_payload header offset chunk
         in bind_outcome
              (write_args [le64_bytes (payload_address E offset),
                           le32_bytes (word_of_int (static_cast_int (length payload)))]
                (send_buffer_new (buffer_memory E offset)))
              (\<lambda>send_buffer. case a of
                 None \<Rightarrow> Inl Null_Dereference
               | Some actor \<Rightarrow>
                   bind_outcome (checked_int (offset + chunk)) (\<lambda>offset'.
                     bind_outcome (reply_loop E alive a header (remaining - chunk) offset') (\<lambda>rest.
                       Inr ((payload, actor_request_send alive send_buffer actor) # rest))))))"
  by pat_completeness auto
termination
  by (relation "measure (\<lambda>(E, alive, a, header, remaining, offset). nat remaining)") (auto simp: kChunkSize_def)

declare reply_loop.simps [simp del]

definition timestamp_task ::
    "reply_env \<Rightarrow> int \<Rightarrow> bool \<Rightarrow> actor option \<Rightarrow> string \<Rightarrow> (string \<times> service_call list) list outcome" where
  "timestamp_task E total_send_size alive a message =
     reply_loop E alive a (reply_header (message_seq message) total_send_size message) total_send_size 0"

section \<open>The handler\<close>

definition wrapped_message :: "int \<Rightarrow> int \<Rightarrow> string \<Rightarrow> string" where
  "wrapped_message seq current_time message_content =
     ''seq='' @ int_digits seq @ ''; ts='' @ int_digits current_time @ ''; '' @ message_content"

text \<open>The clock, the random sizes and the memory, for the call with a given sequence number.\<close>

record server_env =
  clock :: "64 word \<Rightarrow> int"
  random_size :: "64 word \<Rightarrow> int"
  reply_memory :: "64 word \<Rightarrow> reply_env"

record server_state =
  g_seq :: "64 word"
  requests :: "service_call list"
  server_log :: "string list"

definition test_handler :: "server_env \<Rightarrow> bool \<Rightarrow> server_state handler" where
  "test_handler E alive mem n a s =
     bind_outcome (parse_message mem) (\<lambda>hdr.
       if hd_size hdr < HEADER_SIZE \<or> static_cast_int n < hd_size hdr
       then Inr (mem, s\<lparr>server_log := server_log s @ [''Failed to parse message'']\<rparr>)
       else bind_outcome (if HEADER_SIZE < hd_size hdr then c_string 8 mem else Inr []) (\<lambda>message_content.
         (let seq = g_seq s
          in bind_outcome
               (timestamp_task (reply_memory E seq) (random_size E seq) alive a
                 (wrapped_message (sint seq) (clock E seq) message_content))
               (\<lambda>rounds. Inr (mem, s\<lparr>g_seq := seq + 1, requests := requests s @ concat (map snd rounds)\<rparr>)))))"

text \<open>What \<open>main\<close> registers.\<close>

definition server_handlers :: "server_env \<Rightarrow> bool \<Rightarrow> server_state handlers" where
  "server_handlers E alive = register_handler 1 (test_handler E alive) Map.empty"

section \<open>The sequence number of a wrapped message\<close>

lemma digits_no_semicolon: "CHR '';'' \<notin> set (digits n)"
proof
  assume "CHR '';'' \<in> set (digits n)"
  then have "is_digit (CHR '';'')" using digits_are_digits [of n] by (auto simp: list_all_iff)
  then show False by code_simp
qed

lemma find_char_append: "c \<notin> set xs \<Longrightarrow> find_char c (xs @ c # ys) = Some (length xs)"
  by (simp add: find_char_def takeWhile_tail Let_def)
    (metis (mono_tags, lifting) le_add1 le_imp_less_Suc takeWhile_eq_all_conv)

lemma sequence_number_read:
  "message_seq (wrapped_message (sint (seq :: 64 word)) current_time message_content) = sint seq"
proof -
  have range: "LLONG_MIN \<le> sint seq" "sint seq \<le> LLONG_MAX"
    using sint_ge [of seq] sint_lt [of seq] by (simp_all add: LLONG_MIN_def LLONG_MAX_def)
  let ?d = "int_digits (sint seq)" and ?rest = "'' ts='' @ int_digits current_time @ ''; '' @ message_content"
  have w: "wrapped_message (sint seq) current_time message_content = (''seq='' @ ?d) @ CHR '';'' # ?rest"
    by (simp add: wrapped_message_def)
  have "CHR '';'' \<notin> set (''seq='' @ ?d)"
    using digits_no_semicolon by (auto simp: int_digits_def)
  from find_char_append [OF this, of ?rest] show ?thesis
    by (simp add: message_seq_def w stoll_int_digits [OF range])
qed

text \<open>
  The number that the handler puts into a message is the one \<open>timestamp_task\<close> reads from it, for every
  value of the 64-bit counter, whatever the time and the client's text are.
\<close>

theorem sequence_number_roundtrip:
  "message_seq (wrapped_message (sint (seq :: 64 word)) current_time message_content) = sint seq"
  by (rule sequence_number_read)

section \<open>What a reply sends\<close>

definition padded :: "string \<Rightarrow> nat \<Rightarrow> string" where
  "padded s n = take n s @ replicate (n - length s) CHR ''x''"

lemma padded_length [simp]: "length (padded s n) = n"
  by (simp add: padded_def)

lemma padded_append: "padded s (m + n) = padded s m @ padded (drop m s) n"
proof (cases "m \<le> length s")
  case True
  then have "m + n - length s = n - (length s - m)" by simp
  with True show ?thesis by (simp add: padded_def take_add)
next
  case False
  then have "m + n - length s = (m - length s) + n" by simp
  then have "replicate (m + n - length s) CHR ''x'' = replicate (m - length s) CHR ''x'' @ replicate n CHR ''x''"
    by (simp only: replicate_add)
  with False show ?thesis by (simp add: padded_def)
qed

lemma static_cast_int_small: "n < 2 ^ 31 \<Longrightarrow> static_cast_int n = int n"
  using sint_word_of_fits [of "int n"] by (simp add: static_cast_int_def fits_int_def)

lemma chunk_payload_padded:
  assumes "length header < 2 ^ 31" and "0 \<le> offset" and "0 \<le> chunk"
  shows "chunk_payload header offset chunk = padded (drop (nat offset) header) (nat chunk)"
proof -
  obtain off c where oc: "offset = int off" "chunk = int c"
    using assms(2,3) by (auto elim!: nonneg_int_cases)
  show ?thesis
  proof (cases "off < length header")
    case True
    then have "nat (min (int c) (int (length header) - int off)) = min c (length header - off)"
      by (auto simp: min_def)
    then show ?thesis
      using assms(1) True by (simp add: oc chunk_payload_def static_cast_int_small padded_def Let_def min_def)
  next
    case False
    then show ?thesis using assms(1) by (simp add: oc chunk_payload_def static_cast_int_small padded_def)
  qed
qed

lemma le64_bytes_length [simp]: "length (le64_bytes w) = 8"
  by (simp add: le64_bytes_def)

text \<open>The request a round makes: the buffer has the bytes of a pointer and of an \<open>int\<close>.\<close>

definition sends_pointer_and_size :: "nat \<Rightarrow> 64 word \<Rightarrow> nat \<Rightarrow> service_call list \<Rightarrow> bool" where
  "sends_pointer_and_size sid address n calls \<longleftrightarrow>
     (\<exists>sb. calls = [Call_Request_Io sid (Io_Send_Buffer sb)] \<and>
       get_buffer sb = le64_bytes address @ le32_bytes (word_of_nat n))"

lemma write_pointer_and_size:
  assumes "length garbage = 2048"
  shows "\<exists>sb. write_args [le64_bytes w, le32_bytes v] (send_buffer_new garbage) = Inr sb \<and>
    get_buffer sb = le64_bytes w @ le32_bytes v"
proof -
  have "args_legal [le64_bytes w, le32_bytes v]" by (simp add: args_legal_def)
  from args_sink.put_spec [OF send_buffer_new_ok(1) [OF assms] this] show ?thesis
    by (auto simp: bounded_append_def)
qed

lemma rounds_step: "0 < n \<Longrightarrow> (n + 1023) div 1024 = Suc ((n - 1024 + 1023) div (1024 :: nat))"
proof (cases "n \<le> 1024")
  case True
  assume "0 < n"
  with True have "(n + 1023) div 1024 = 1" by (intro div_nat_eqI) simp_all
  with True show ?thesis by simp
next
  case False
  then have "n + 1023 = (n - 1024 + 1023) + 1024" by simp
  then show ?thesis by (metis Suc_eq_plus1 div_add_self2 zero_neq_numeral)
qed

lemma reply_loop_spec:
  assumes "\<And>k. length (buffer_memory E k) = 2048" and "length header < 2 ^ 31"
    and "0 \<le> remaining" and "0 \<le> offset" and "offset + remaining \<le> 1000000"
  shows "\<exists>rounds. reply_loop E True (Some \<lparr>actor_session = Some sid\<rparr>) header remaining offset = Inr rounds \<and>
    length rounds = (nat remaining + 1023) div 1024 \<and>
    concat (map fst rounds) = padded (drop (nat offset) header) (nat remaining) \<and>
    (\<forall>i < length rounds. sends_pointer_and_size sid (payload_address E (offset + 1024 * int i))
      (length (fst (rounds ! i))) (snd (rounds ! i)))"
  using assms(3-)
proof (induction "nat remaining" arbitrary: remaining offset rule: less_induct)
  case less
  let ?a = "Some \<lparr>actor_session = Some sid\<rparr>"
  show ?case
  proof (cases "remaining = 0")
    case True
    then show ?thesis by (simp add: reply_loop.simps [of E True ?a header 0] padded_def)
  next
    case False
    then have pos: "0 < remaining" using less.prems by simp
    define chunk where "chunk = min kChunkSize remaining"
    have ch: "0 < chunk" "chunk \<le> 1024" "chunk \<le> remaining" "chunk < 1024 \<longrightarrow> chunk = remaining"
      using pos by (auto simp: chunk_def kChunkSize_def)
    let ?p = "chunk_payload header offset chunk"
    have p: "?p = padded (drop (nat offset) header) (nat chunk)"
      using assms(2) less.prems ch by (intro chunk_payload_padded) simp_all
    obtain sb where sb: "write_args [le64_bytes (payload_address E offset),
        le32_bytes (word_of_int (static_cast_int (length ?p)))] (send_buffer_new (buffer_memory E offset)) = Inr sb"
      "get_buffer sb = le64_bytes (payload_address E offset) @ le32_bytes (word_of_int (static_cast_int (length ?p)))"
      using write_pointer_and_size [OF assms(1)] by blast
    have sz: "word_of_int (static_cast_int (length ?p)) = (word_of_nat (length ?p) :: u32)"
      using ch by (simp add: p static_cast_int_small)
    have fi: "fits_int (offset + chunk)" using less.prems ch by (simp add: fits_int_def)
    have "nat (remaining - chunk) < nat remaining" using ch pos by simp
    from less.hyps [OF this, of "offset + chunk"] less.prems ch obtain rest where rest:
      "reply_loop E True ?a header (remaining - chunk) (offset + chunk) = Inr rest"
      "length rest = (nat (remaining - chunk) + 1023) div 1024"
      "concat (map fst rest) = padded (drop (nat (offset + chunk)) header) (nat (remaining - chunk))"
      "\<forall>i < length rest. sends_pointer_and_size sid (payload_address E (offset + chunk + 1024 * int i))
         (length (fst (rest ! i))) (snd (rest ! i))"
      by auto
    let ?first = "(?p, [Call_Request_Io sid (Io_Send_Buffer sb)])"
    have run: "reply_loop E True ?a header remaining offset = Inr (?first # rest)"
      using pos sb(1) rest(1) fi
      by (simp add: reply_loop.simps [of E True ?a header remaining] chunk_def [symmetric]
          actor_request_send_def session_request_send_def)
    have "nat (remaining - chunk) = nat remaining - 1024 \<or> chunk = remaining"
      using ch by (auto simp: nat_diff_distrib)
    then have len: "length (?first # rest) = (nat remaining + 1023) div 1024"
      using rest(2) rounds_step [of "nat remaining"] pos ch by auto
    have "nat remaining = nat chunk + nat (remaining - chunk)" "nat (offset + chunk) = nat chunk + nat offset"
      using ch less.prems by simp_all
    then have cat: "concat (map fst (?first # rest)) = padded (drop (nat offset) header) (nat remaining)"
      by (simp add: rest(3) p padded_append)
    have sends: "sends_pointer_and_size sid (payload_address E (offset + 1024 * int i))
        (length (fst ((?first # rest) ! i))) (snd ((?first # rest) ! i))" if "i < length (?first # rest)" for i
    proof (cases i)
      case 0
      then show ?thesis using sb(2) by (simp add: sends_pointer_and_size_def sz)
    next
      case (Suc j)
      then have "j < length rest" using that by simp
      moreover from this have "chunk = 1024" using rest(2) ch by (cases "chunk < 1024") auto
      ultimately show ?thesis using rest(4) Suc by (simp add: algebra_simps)
    qed
    show ?thesis using run len cat sends by blast
  qed
qed

text \<open>
  C23: A reply of \<open>n\<close> bytes is cut into ceil(n / 1024) rounds and always comes to its end; the payloads of
  the rounds together are the header text, cut or filled up with 'x' to \<open>n\<close> bytes. But what a round asks the
  session to send is not the payload: it is 12 bytes, the address of the payload and its size.
\<close>

theorem reply_sends_no_payload:
  assumes "1 \<le> n" and "n \<le> 4000" and "\<And>k. length (buffer_memory E k) = 2048"
    and "length (reply_header (message_seq message) n message) < 2 ^ 31"
  shows "\<exists>rounds. timestamp_task E n True (Some \<lparr>actor_session = Some sid\<rparr>) message = Inr rounds \<and>
    length rounds = (nat n + 1023) div 1024 \<and>
    concat (map fst rounds) =
      take (nat n) (reply_header (message_seq message) n message @ replicate (nat n) CHR ''x'') \<and>
    (\<forall>i < length rounds. sends_pointer_and_size sid (payload_address E (1024 * int i))
      (length (fst (rounds ! i))) (snd (rounds ! i)))"
  using reply_loop_spec [OF assms(3,4), of n 0 sid] assms(1,2)
  by (simp add: timestamp_task_def padded_def)

definition demo_reply_env :: reply_env where
  "demo_reply_env = \<lparr>payload_address = \<lambda>k. 4096 + word_of_int k, buffer_memory = \<lambda>k. replicate 2048 0\<rparr>"

theorem reply_sends_no_payload_witness:
  "\<exists>rounds. timestamp_task demo_reply_env 3000 True (Some \<lparr>actor_session = Some 7\<rparr>) ''seq=5; hi'' = Inr rounds \<and>
    length rounds = 3 \<and> length (concat (map fst rounds)) = 3000 \<and>
    sends_pointer_and_size 7 (4096 + 1024) (length (fst (rounds ! 1))) (snd (rounds ! 1))"
proof -
  have m: "message_seq ''seq=5; hi'' = 5" by code_simp
  have h: "length (reply_header (message_seq ''seq=5; hi'') 3000 ''seq=5; hi'') < 2 ^ 31"
    unfolding m by (simp add: reply_header_def sequential_ok_def int_digits_def digits.simps digit_def)
  from reply_sends_no_payload [OF _ _ _ h, of demo_reply_env 7] obtain rounds where r:
    "timestamp_task demo_reply_env 3000 True (Some \<lparr>actor_session = Some 7\<rparr>) ''seq=5; hi'' = Inr rounds"
    "length rounds = 3"
    "concat (map fst rounds) = padded (reply_header (message_seq ''seq=5; hi'') 3000 ''seq=5; hi'') 3000"
    "\<forall>i < length rounds. sends_pointer_and_size 7 (payload_address demo_reply_env (1024 * int i))
      (length (fst (rounds ! i))) (snd (rounds ! i))"
    by (auto simp: padded_def demo_reply_env_def)
  have "sends_pointer_and_size 7 (payload_address demo_reply_env (1024 * int 1)) (length (fst (rounds ! 1))) (snd (rounds ! 1))"
    using r(2) r(4) [rule_format, of 1] by simp
  moreover have "length (concat (map fst rounds)) = 3000" by (simp only: r(3) padded_length)
  ultimately show ?thesis
    using r(1,2) by (intro exI [of _ rounds]) (simp add: demo_reply_env_def)
qed

section \<open>The handler in the receive path\<close>

definition server_env_ok :: "server_env \<Rightarrow> bool" where
  "server_env_ok E \<longleftrightarrow>
     (\<forall>k. 1 \<le> random_size E k \<and> random_size E k \<le> 4000 \<and> LLONG_MIN \<le> clock E k \<and> clock E k \<le> LLONG_MAX \<and>
        (\<forall>off. length (buffer_memory (reply_memory E k) off) = 2048))"

lemma length_int_digits: "\<bar>i\<bar> < 10 ^ w \<Longrightarrow> 0 < w \<Longrightarrow> length (int_digits i) \<le> Suc w"
  using length_digits [of "nat \<bar>i\<bar>" w] by (auto simp: int_digits_def nat_less_iff)

lemma length_long_digits:
  assumes "LLONG_MIN \<le> i" and "i \<le> LLONG_MAX"
  shows "length (int_digits i) \<le> 20"
  using length_int_digits [of i 19] assms by (simp add: LLONG_MIN_def LLONG_MAX_def)

lemma sint64_range: "LLONG_MIN \<le> sint (w :: 64 word)" "sint (w :: 64 word) \<le> LLONG_MAX"
  using sint_ge [of w] sint_lt [of w] by (simp_all add: LLONG_MIN_def LLONG_MAX_def)

lemma reply_header_short:
  assumes "LLONG_MIN \<le> t" and "t \<le> LLONG_MAX" and "1 \<le> k" and "k \<le> 4000" and "length content \<le> 4096"
  shows "length (reply_header (sint (w :: 64 word)) k (wrapped_message (sint w) t content)) < 2 ^ 31"
proof -
  have "length (int_digits k) \<le> 20" using assms by (intro length_long_digits) (simp_all add: LLONG_MIN_def LLONG_MAX_def)
  then show ?thesis
    using length_long_digits [OF assms(1,2)] length_long_digits [OF sint64_range, of w] assms(5)
    by (simp add: reply_header_def wrapped_message_def sequential_ok_def)
qed

lemma test_handler_reads:
  assumes "parse_message mem = Inr hdr" and "HEADER_SIZE \<le> hd_size hdr" and "hd_size hdr = int n" and "n < 2 ^ 31"
  shows "test_handler E alive mem n a s =
    bind_outcome (if HEADER_SIZE < hd_size hdr then c_string 8 mem else Inr []) (\<lambda>message_content.
      bind_outcome
        (timestamp_task (reply_memory E (g_seq s)) (random_size E (g_seq s)) alive a
          (wrapped_message (sint (g_seq s)) (clock E (g_seq s)) message_content))
        (\<lambda>rounds. Inr (mem, s\<lparr>g_seq := g_seq s + 1, requests := requests s @ concat (map snd rounds)\<rparr>)))"
  using assms by (simp add: test_handler_def static_cast_int_small Let_def)

lemma c_string_length: "c_string off mem = Inr content \<Longrightarrow> length content \<le> length mem"
  by (auto simp: c_string_def text_of_def Let_def split: if_splits)
    (metis diff_le_self dual_order.trans length_drop length_takeWhile_le)

lemma test_handler_replies:
  assumes "server_env_ok E" and "parse_message mem = Inr hdr" and "HEADER_SIZE \<le> hd_size hdr"
    and "hd_size hdr = int n" and "n \<le> 4096" and "length mem \<le> 4096" and "0 \<in> set (drop 8 mem)"
  shows "\<exists>calls. test_handler E True mem n (Some \<lparr>actor_session = Some sid\<rparr>) s =
    Inr (mem, s\<lparr>g_seq := g_seq s + 1, requests := requests s @ calls\<rparr>)"
proof -
  let ?w = "g_seq s"
  obtain content where c: "(if HEADER_SIZE < hd_size hdr then c_string 8 mem else Inr []) = Inr content"
    and len: "length content \<le> 4096"
  proof (cases "HEADER_SIZE < hd_size hdr")
    case True
    obtain content where "c_string 8 mem = Inr content" using assms(7) by (auto simp: c_string_def)
    then show ?thesis using that [of content] True assms(6) c_string_length by force
  qed (use that [of "[]"] in simp)
  let ?m = "wrapped_message (sint ?w) (clock E ?w) content"
  have "length (reply_header (message_seq ?m) (random_size E ?w) ?m) < 2 ^ 31"
    unfolding sequence_number_read
    using assms(1) len by (intro reply_header_short) (simp_all add: server_env_ok_def)
  moreover have "length (buffer_memory (reply_memory E ?w) off) = 2048" "0 \<le> random_size E ?w"
      "0 + random_size E ?w \<le> 1000000" for off
    using assms(1) unfolding server_env_ok_def by (smt (verit))+
  ultimately
  obtain rounds where
    "timestamp_task (reply_memory E ?w) (random_size E ?w) True (Some \<lparr>actor_session = Some sid\<rparr>) ?m = Inr rounds"
    using reply_loop_spec [of "reply_memory E ?w"] unfolding timestamp_task_def by (meson order_refl)
  then show ?thesis
    using test_handler_reads [OF assms(2-4), of E True "Some \<lparr>actor_session = Some sid\<rparr>" s] assms(5) c by auto
qed

text \<open>
  The receive loop meets two messages that fill the buffer. What the second one leaves behind it when it
  moves to the front are its own last bytes.
\<close>

lemma encode_message_length [simp]: "length (encode_message t p) = 8 + length p"
  by (simp add: encode_message_def)

lemma parse_encoded:
  assumes "length p < 2 ^ 30"
  shows "parse_message (encode_message t p @ rest) = Inr \<lparr>hd_size = 8 + int (length p), hd_type = t\<rparr>"
  using parse_encode [of "\<lparr>hd_size = 8 + int (length p), hd_type = t\<rparr>" "p @ rest"] assms
  by (simp add: encode_message_def fits_int_def)

lemma size_field_has_zero:
  assumes "length p < 4096"
  shows "0 \<in> set (encode_message t p)"
proof -
  let ?w = "word_of_int (8 + int (length p)) :: u32"
  have "?w = word_of_nat (8 + length p)" by simp
  then have u: "unat ?w = 8 + length p" using assms by (simp only: unat_of_nat) simp
  have "unat (drop_bit 24 ?w) = 0"
    by (simp only: unsigned_drop_bit_eq u) (use assms in \<open>simp add: drop_bit_eq_div take_bit_eq_mod\<close>)
  then have "drop_bit 24 ?w = 0" by (simp only: unat_eq_0)
  then show ?thesis by (simp add: encode_message_def encode_header_def le32_bytes_def)
qed

lemma server_dispatch:
  "dispatch (server_handlers E alive) (sint (1 :: u32)) mem n a s =
     bind_outcome (test_handler E alive mem n a s) (\<lambda>(mem', s'). Inr (True, mem', s'))"
  by (simp add: dispatch_def server_handlers_def register_handler_def)

text \<open>One turn of the receive loop with the handlers of the server, on a message at the start of the buffer.\<close>

lemma server_receive_step:
  assumes "rx_buffer ss = encode_message 1 p @ rest" and "commited_size ss = int c"
    and "8 + length p \<le> c" and "c \<le> 4096"
  shows "receive_loop (server_handlers E alive) ss s =
    (case test_handler E alive (rx_buffer ss) (8 + length p) (main_actor ss) s of
       Inl e \<Rightarrow> Some (Inl e)
     | Inr (mem, s') \<Rightarrow>
         (case parse_message mem of
            Inl e \<Rightarrow> Some (Inl e)
          | Inr header' \<Rightarrow>
              (case process_completed (hd_size header') (ss\<lparr>rx_buffer := mem\<rparr>) of
                 Inl e \<Rightarrow> Some (Inl e)
               | Inr ss' \<Rightarrow> receive_loop (server_handlers E alive) ss' s')))"
proof -
  have p: "parse_message (rx_buffer ss) = Inr \<lparr>hd_size = 8 + int (length p), hd_type = 1\<rparr>"
    unfolding assms(1) using assms by (intro parse_encoded) simp
  have n: "nat (8 + int (length p)) = 8 + length p" by simp
  show ?thesis
    using assms(2-4) server_dispatch [of E alive "rx_buffer ss" "8 + length p" "main_actor ss" s]
    by (simp add: receive_loop.simps [of _ ss s] p n HEADER_SIZE_def get_received_span_def
        split: sum.split)
qed

text \<open>
  C12: Ordinary traffic makes the handler read past the receive buffer. If two messages of type 1 fill the
  4096 bytes exactly, the second is at least as long as the first one and 8 bytes, and its payload has no
  zero byte, the completion of this receive ends in undefined behaviour: after the first message is done,
  no byte behind the second message's header is a NUL.
\<close>

theorem full_buffer_overruns:
  assumes "server_env_ok E" and "length p + length q + 16 = 4096" and "length p + 8 \<le> length q"
    and "0 \<notin> set q"
  shows "recv_chunk (server_handlers E True) self alive
    (encode_message 1 p @ encode_message 1 q) (accepted_session sid) s = Some (Inl Out_Of_Bounds)"
proof -
  let ?m1 = "encode_message 1 p" and ?m2 = "encode_message 1 q" and ?a = "Some \<lparr>actor_session = Some sid\<rparr>"
  let ?H = "server_handlers E True"
  let ?ss = "(accepted_session sid)\<lparr>rx_buffer := ?m1 @ ?m2, commited_size := 4096\<rparr>"
  have len: "length (?m1 @ ?m2) = 4096" using assms(2) by simp
  have start: "recv_chunk ?H self alive (?m1 @ ?m2) (accepted_session sid) s = on_received ?H self alive ?ss s"
    using len by (simp add: recv_chunk_def recv_completion_def commit_def accepted_session_eq new_session_def get_remain_span_def
        mem_write_def fits_int_def)
  have "0 \<in> set (drop 8 (?m1 @ ?m2))"
    using size_field_has_zero [of q 1] assms(2) by (simp add: drop_append)
  then obtain calls where first: "test_handler E True (?m1 @ ?m2) (8 + length p) ?a s =
      Inr (?m1 @ ?m2, s\<lparr>g_seq := g_seq s + 1, requests := requests s @ calls\<rparr>)"
    using test_handler_replies [OF assms(1) parse_encoded [of p 1 ?m2], of "8 + length p" sid s] assms(2)
    by (auto simp: HEADER_SIZE_def)
  let ?s1 = "s\<lparr>g_seq := g_seq s + 1, requests := requests s @ calls\<rparr>"
  let ?buf = "?m2 @ drop (8 + length q) (?m1 @ ?m2)"
  let ?ss1 = "(accepted_session sid)\<lparr>rx_buffer := ?buf, commited_size := int (8 + length q)\<rparr>"
  have moved: "process_completed (8 + int (length p)) (?ss\<lparr>rx_buffer := ?m1 @ ?m2\<rparr>) = Inr ?ss1"
  proof -
    have rest: "4096 - (8 + int (length p)) = int (8 + length q)" using assms(2) by simp
    have mv: "mem_move 0 (8 + length p) (8 + length q) (?m1 @ ?m2) = Inr ?buf"
      using assms(2) by (subst mem_move_down) simp_all
    have n: "nat (8 + int (length p)) = 8 + length p" by simp
    have "fits_int (int (8 + length q))" using assms(2) by (intro fits_int_of_nat) simp
    then show ?thesis using mv by (simp add: process_completed_def rest n del: of_nat_add)
  qed
  have tail: "drop (8 + length q) (?m1 @ ?m2) = drop (length q - (8 + length p)) q"
  proof -
    have "8 + length q - length ?m1 = 8 + (length q - (8 + length p))" using assms(3) by simp
    then have "drop (8 + length q) (?m1 @ ?m2) = drop (8 + (length q - (8 + length p))) ?m2"
      using assms(3) by (simp add: drop_append)
    then show ?thesis by (simp add: encode_message_def drop_append)
  qed
  have run1: "receive_loop ?H ?ss s = receive_loop ?H ?ss1 ?s1"
    using server_receive_step [of ?ss p ?m2 4096 E True s] first moved parse_encoded [of p 1 ?m2] assms(2)
    by simp
  have "0 \<notin> set (drop 8 ?buf)"
  proof -
    have "drop 8 ?buf = q @ drop (length q - (8 + length p)) q"
      unfolding tail by (simp add: encode_message_def)
    then show ?thesis using assms(4) by (auto dest: in_set_dropD simp del: drop_append)
  qed
  then have "test_handler E True ?buf (8 + length q) ?a ?s1 = Inl Out_Of_Bounds"
    using test_handler_reads [OF parse_encoded [of q 1 "drop (8 + length q) (?m1 @ ?m2)"], of "8 + length q"] assms(2,3)
    by (cases q) (simp_all add: HEADER_SIZE_def c_string_def)
  then have "receive_loop ?H ?ss1 ?s1 = Some (Inl Out_Of_Bounds)"
    using server_receive_step [of ?ss1 q "drop (8 + length q) (?m1 @ ?m2)" "8 + length q" E True ?s1] assms(2)
    by simp
  then show ?thesis by (simp add: start on_received_def run1)
qed

definition demo_server_env :: server_env where
  "demo_server_env = \<lparr>clock = \<lambda>k. 1767000000000, random_size = \<lambda>k. 1500, reply_memory = \<lambda>k. demo_reply_env\<rparr>"

lemma demo_server_env_ok: "server_env_ok demo_server_env"
  by (simp add: server_env_ok_def demo_server_env_def demo_reply_env_def LLONG_MIN_def LLONG_MAX_def)

theorem full_buffer_overruns_witness:
  "recv_chunk (server_handlers demo_server_env True) 0 True
    (encode_message 1 (replicate 92 97) @ encode_message 1 (replicate 3988 98)) (accepted_session 0)
    \<lparr>g_seq = 0, requests = [], server_log = []\<rparr> = Some (Inl Out_Of_Bounds)"
  by (rule full_buffer_overruns) (simp_all add: demo_server_env_ok)

end
