(* ===== verification/Test_Client.thy ===== *)
theory Test_Client
  imports Sample_Server
begin

text \<open>
  The test client (\<open>test-client/TestClient.cc\<close>): its command line, connecting, sending messages on all
  sockets in rounds, and the reception code behind the endless sending loop. A system call is the list of
  the kernel's answers to the successive calls, each a return value and an \<open>errno\<close>; a list that is used up
  before the code returns is the value \<open>None\<close>. The random sizes are parameters, console output is left out.
\<close>

section \<open>Sending all of a buffer\<close>

type_synonym answer = "int \<times> int"

definition EINTR :: int where "EINTR = 4"
definition EAGAIN :: int where "EAGAIN = 11"

text \<open>\<open>p\<close> is an offset, \<open>remaining\<close> a \<open>size_t\<close>. The second result is what the kernel has taken.\<close>

fun send_loop :: "answer list \<Rightarrow> byte list \<Rightarrow> nat \<Rightarrow> nat \<Rightarrow> (bool \<times> byte list \<times> answer list) option" where
  "send_loop [] data p remaining = (if 0 < remaining then None else Some (True, [], []))"
| "send_loop ((sent, errno) # answers) data p remaining =
     (if 0 < remaining then
        (if 0 < sent then
           map_option (\<lambda>(ok, taken, rest). (ok, take (nat sent) (drop p data) @ taken, rest))
             (send_loop answers data (p + nat sent) (size_t (remaining + 2 ^ 64 - nat sent)))
         else if sent = 0 then Some (False, [], answers)
         else if errno = EINTR then send_loop answers data p remaining
         else Some (False, [], answers))
      else Some (True, [], (sent, errno) # answers))"

definition write_all :: "answer list \<Rightarrow> byte list \<Rightarrow> (bool \<times> byte list \<times> answer list) option" where
  "write_all answers data = send_loop answers data 0 (length data)"

section \<open>The command line and the connections\<close>

definition parse_socket_count :: "string option \<Rightarrow> int option" where
  "parse_socket_count arg =
     (case arg of
        None \<Rightarrow> Some 10000
      | Some s \<Rightarrow> (case strtoll s of (parsed, range_error, rest) \<Rightarrow>
          if rest \<noteq> [] \<or> parsed \<le> 0 then None else Some parsed))"

text \<open>For each attempt the descriptor that \<open>socket\<close> returns and the result of \<open>connect\<close>.\<close>

fun connect_sockets :: "nat \<Rightarrow> (int \<times> int) list \<Rightarrow> int list \<Rightarrow> int list option" where
  "connect_sockets 0 attempts sockets = Some sockets"
| "connect_sockets (Suc n) [] sockets = None"
| "connect_sockets (Suc n) ((sock_fd, result) # attempts) sockets =
     (if sock_fd < 0 then Some sockets
      else if result < 0 then Some sockets
      else connect_sockets n attempts (sockets @ [sock_fd]))"

section \<open>A round of messages\<close>

definition vector_resize :: "nat \<Rightarrow> byte list \<Rightarrow> byte list" where
  "vector_resize n out = take n out @ replicate (n - length out) 0"

definition client_prefix :: "nat \<Rightarrow> nat \<Rightarrow> int \<Rightarrow> byte list" where
  "client_prefix i msg_seq payload_size =
     bytes_of (''client='' @ digits i @ ''; msg='' @ digits msg_seq @ ''; payload='' @
       int_digits payload_size @ ''; '')"

text \<open>The buffer \<open>out\<close> is kept from one message to the next.\<close>

definition client_message :: "nat \<Rightarrow> nat \<Rightarrow> int \<Rightarrow> byte list \<Rightarrow> byte list outcome" where
  "client_message i msg_seq payload_size out =
     bind_outcome (checked_int (HEADER_SIZE + payload_size)) (\<lambda>hdr_size.
     bind_outcome (mem_write 0 (encode_header \<lparr>hd_size = hdr_size, hd_type = 1\<rparr>)
       (vector_resize (nat hdr_size) out)) (\<lambda>out1.
     bind_outcome (mem_write 8 (replicate (nat payload_size) (97 + word_of_nat (i mod 26))) out1) (\<lambda>out2.
       (let prefix = client_prefix i msg_seq payload_size;
            prefix_copy = min (length prefix) (nat payload_size)
        in mem_write 8 (take prefix_copy prefix) out2))))"

text \<open>
  One round over the sockets, from index \<open>i\<close>: a socket whose send fails is replaced by -1. The result has
  the sockets and, for each, the descriptor that was used and what the kernel has taken.
\<close>

fun client_round ::
    "(nat \<Rightarrow> int) \<Rightarrow> (nat \<Rightarrow> answer list) \<Rightarrow> nat \<Rightarrow> int list \<Rightarrow> byte list
       \<Rightarrow> (int list \<times> (int \<times> byte list) list) outcome option" where
  "client_round sizes answers i [] out = Some (Inr ([], []))"
| "client_round sizes answers i (fd # fds) out =
     (case client_message i i (sizes i) out of
        Inl e \<Rightarrow> Some (Inl e)
      | Inr out' \<Rightarrow>
          (case write_all (answers i) out' of
             None \<Rightarrow> None
           | Some (ok, taken, rest) \<Rightarrow>
               map_option (\<lambda>r. bind_outcome r (\<lambda>(fds', log).
                   Inr ((if ok then fd else - 1) # fds', (fd, taken) # log)))
                 (client_round sizes answers (Suc i) fds out')))"

section \<open>Receiving\<close>

definition erase_closed :: "int list \<Rightarrow> int list" where
  "erase_closed sockets = filter (\<lambda>fd. fd \<noteq> - 1) sockets"

text \<open>
  Reading a socket until it would block: whether it was closed, and the two counters (\<open>uint64_t\<close>).
\<close>

fun drain_socket :: "answer list \<Rightarrow> 64 word \<Rightarrow> 64 word \<Rightarrow> (bool \<times> 64 word \<times> 64 word) option" where
  "drain_socket [] total_bytes total_reads = None"
| "drain_socket ((r, errno) # answers) total_bytes total_reads =
     (if 0 < r then drain_socket answers (total_bytes + word_of_int r) (total_reads + 1)
      else if r = 0 then Some (True, total_bytes, total_reads)
      else if errno = EINTR then drain_socket answers total_bytes total_reads
      else if errno = EAGAIN then Some (False, total_bytes, total_reads)
      else Some (True, total_bytes, total_reads))"

record epoll_flags =
  epollin :: bool
  epollerr :: bool
  epollhup :: bool
  epollrdhup :: bool

definition handle_event ::
    "epoll_flags \<Rightarrow> answer list \<Rightarrow> 64 word \<Rightarrow> 64 word \<Rightarrow> (bool \<times> 64 word \<times> 64 word) option" where
  "handle_event ev answers total_bytes total_reads =
     (if epollerr ev \<or> epollhup ev \<or> epollrdhup ev then Some (True, total_bytes, total_reads)
      else if \<not> epollin ev then Some (False, total_bytes, total_reads)
      else drain_socket answers total_bytes total_reads)"

section \<open>write_all: lemmas\<close>

text \<open>The kernel takes at most what it is offered.\<close>

fun answers_fit :: "answer list \<Rightarrow> nat \<Rightarrow> bool" where
  "answers_fit [] n = True"
| "answers_fit ((sent, errno) # answers) n \<longleftrightarrow>
     n = 0 \<or> (sent \<le> int n \<and> answers_fit answers (n - nat sent))"

lemma size_t_minus: "k \<le> n \<Longrightarrow> n < 2 ^ 64 \<Longrightarrow> size_t (n + 2 ^ 64 - k) = n - k"
proof -
  assume k: "k \<le> n" and n: "n < 2 ^ 64"
  from k have "n + 2 ^ 64 - k = (n - k) + 2 ^ 64" by simp
  then have "size_t (n + 2 ^ 64 - k) = size_t (n - k)" by (simp only: size_t_def mod_add_self2)
  also have "\<dots> = n - k" using le_less_trans [OF diff_le_self n] by (rule size_t_small)
  finally show ?thesis .
qed

lemma send_loop_spec:
  assumes "p + remaining = length data" and "length data < 2 ^ 64" and "answers_fit answers remaining"
    and "send_loop answers data p remaining = Some (ok, taken, rest)"
  shows "\<exists>unsent. drop p data = taken @ unsent \<and> (ok \<longleftrightarrow> unsent = [])"
  using assms
proof (induction answers data p remaining arbitrary: ok taken rest rule: send_loop.induct)
  case (1 data p remaining)
  then show ?case by (auto split: if_splits)
next
  case (2 sent errno answers data p remaining)
  show ?case
  proof (cases "0 < remaining \<and> 0 < sent")
    case True
    then have k: "nat sent \<le> remaining" using "2.prems"(3) by auto
    have sz: "size_t (remaining + 2 ^ 64 - nat sent) = remaining - nat sent"
      using k "2.prems"(1,2) by (intro size_t_minus) simp_all
    obtain taken' where t: "send_loop answers data (p + nat sent) (remaining - nat sent) = Some (ok, taken', rest)"
      "taken = take (nat sent) (drop p data) @ taken'"
      using "2.prems"(4) True sz by auto
    have "\<exists>unsent. drop (p + nat sent) data = taken' @ unsent \<and> (ok \<longleftrightarrow> unsent = [])"
      using "2.IH"(1) True "2.prems"(1-3) t(1) k sz by auto
    then obtain unsent where u: "drop (p + nat sent) data = taken' @ unsent" "ok \<longleftrightarrow> unsent = []" by blast
    have "drop p data = take (nat sent) (drop p data) @ drop (p + nat sent) data"
      by (metis add.commute append_take_drop_id drop_drop)
    then show ?thesis using u t(2) by (metis append.assoc)
  next
    case False
    then show ?thesis
      using "2.IH"(2) "2.prems" by (auto split: if_splits)
  qed
qed

lemma write_all_spec:
  assumes "length data < 2 ^ 64" and "answers_fit answers (length data)"
    and "write_all answers data = Some (ok, taken, rest)"
  shows "\<exists>unsent. data = taken @ unsent \<and> (ok \<longleftrightarrow> unsent = [])"
  using send_loop_spec [of 0 "length data" data answers] assms by (auto simp: write_all_def)

definition interrupted :: "answer \<Rightarrow> bool" where
  "interrupted a \<longleftrightarrow> fst a < 0 \<and> snd a = EINTR"

lemma send_loop_returns:
  assumes "remaining < 2 ^ 64" and "answers_fit answers remaining"
    and "remaining \<le> length (filter (\<lambda>a. \<not> interrupted a) answers)"
  shows "\<exists>ok taken rest. send_loop answers data p remaining = Some (ok, taken, rest) \<and>
    ((\<forall>a \<in> set answers. 0 < fst a \<or> interrupted a) \<longrightarrow> ok)"
  using assms
proof (induction answers data p remaining rule: send_loop.induct)
  case (1 data p remaining)
  then show ?case by auto
next
  case (2 sent errno answers data p remaining)
  show ?case
  proof (cases "0 < remaining \<and> 0 < sent")
    case True
    then have k: "nat sent \<le> remaining" using "2.prems"(2) by auto
    have sz: "size_t (remaining + 2 ^ 64 - nat sent) = remaining - nat sent"
      using k "2.prems"(1) by (rule size_t_minus)
    have "\<exists>ok taken rest. send_loop answers data (p + nat sent) (remaining - nat sent) = Some (ok, taken, rest) \<and>
      ((\<forall>a \<in> set answers. 0 < fst a \<or> interrupted a) \<longrightarrow> ok)"
      using "2.IH"(1) True "2.prems" sz by (auto simp: interrupted_def)
    then show ?thesis using True sz by auto
  next
    case False
    then show ?thesis
      using "2.IH"(2) "2.prems" by (auto simp: interrupted_def split: if_splits)
  qed
qed

text \<open>
  C24: \<open>write_all\<close> returns: once the kernel has given as many answers other than \<open>EINTR\<close> as there are bytes to
  send, it has come back, and what the kernel has taken is a prefix of the data, the whole of it exactly
  when the result is true. If the kernel takes something each time it is not interrupted, it is true.
\<close>

theorem write_all_returns:
  assumes "length data < 2 ^ 64" and "answers_fit answers (length data)"
    and "length data \<le> length (filter (\<lambda>a. \<not> interrupted a) answers)"
  shows "\<exists>ok taken rest. write_all answers data = Some (ok, taken, rest) \<and>
    (\<exists>unsent. data = taken @ unsent \<and> (ok \<longleftrightarrow> unsent = [])) \<and>
    ((\<forall>a \<in> set answers. 0 < fst a \<or> interrupted a) \<longrightarrow> ok)"
proof -
  obtain ok taken rest where "write_all answers data = Some (ok, taken, rest)"
    "(\<forall>a \<in> set answers. 0 < fst a \<or> interrupted a) \<longrightarrow> ok"
    using send_loop_returns [OF assms, of data 0] by (auto simp: write_all_def)
  with write_all_spec [OF assms(1,2)] show ?thesis by blast
qed

theorem write_all_returns_witness:
  "\<exists>taken rest. write_all [(2, 0), (- 1, EINTR), (1, 0), (5, 0)] [10, 20, 30] = Some (True, taken, rest) \<and>
    taken = [10, 20, 30]"
  using write_all_returns [of "[10, 20, 30]" "[(2, 0), (- 1, EINTR), (1, 0), (5, 0)]"]
  by (auto simp: interrupted_def)

section \<open>The client's messages\<close>

definition client_payload :: "nat \<Rightarrow> int \<Rightarrow> byte list" where
  "client_payload i payload_size =
     (let prefix = client_prefix i i payload_size; n = nat payload_size
      in take n prefix @ replicate (n - length prefix) (97 + word_of_nat (i mod 26)))"

lemma client_payload_length [simp]: "length (client_payload i n) = nat n"
  by (simp add: client_payload_def Let_def)

lemma mem_write_whole:
  "length xs + length ys = length mem \<Longrightarrow>
    bind_outcome (mem_write 0 xs mem) (mem_write (length xs) ys) = Inr (xs @ ys)"
  by (simp add: mem_write_def)

lemma client_message_spec:
  assumes "0 \<le> n" and "n \<le> 4000"
  shows "client_message i i n out = Inr (encode_message 1 (client_payload i n))"
proof -
  let ?h = "encode_header \<lparr>hd_size = 8 + n, hd_type = 1\<rparr>" and ?out = "vector_resize (nat (8 + n)) out"
    and ?fill = "replicate (nat n) (97 + word_of_nat (i mod 26)) :: byte list"
    and ?prefix = "client_prefix i i n"
  have len: "length ?out = 8 + nat n" using assms(1) by (simp add: vector_resize_def nat_add_distrib)
  have fi: "fits_int (8 + n)" using assms by (simp add: fits_int_def)
  have out1: "mem_write 0 ?h ?out = Inr (?h @ drop 8 ?out)" using len by (simp add: mem_write_def)
  have out2: "mem_write 8 ?fill (?h @ drop 8 ?out) = Inr (?h @ ?fill)"
    using len by (simp add: mem_write_def)
  have out3: "mem_write 8 (take (min (length ?prefix) (nat n)) ?prefix) (?h @ ?fill) =
      Inr (?h @ client_payload i n)"
    by (simp add: mem_write_def client_payload_def Let_def min_def)
  show ?thesis using fi out1 out2 out3 assms(1)
    by (simp add: client_message_def HEADER_SIZE_def encode_message_def Let_def)
qed

text \<open>What was sent on the socket with index \<open>i\<close> in one round, when \<open>write_all\<close> succeeded.\<close>

definition sent_in_round :: "nat \<Rightarrow> int \<times> byte list \<times> answer list \<Rightarrow> byte list \<Rightarrow> bool" where
  "sent_in_round i = (\<lambda>(n, out, answers) taken. 1 \<le> n \<and> n \<le> 4000 \<and> answers_fit answers (8 + nat n) \<and>
     (\<exists>bs rest. client_message i i n out = Inr bs \<and> write_all answers bs = Some (True, taken, rest)))"

lemma sent_in_round_bytes:
  assumes "sent_in_round i (n, out, answers) taken"
  shows "taken = encode_message 1 (client_payload i n)"
proof -
  from assms obtain rest where *: "1 \<le> n" "n \<le> 4000" "answers_fit answers (8 + nat n)"
    "write_all answers (encode_message 1 (client_payload i n)) = Some (True, taken, rest)"
    using client_message_spec [of n i out] by (auto simp: sent_in_round_def)
  have "length (encode_message 1 (client_payload i n)) < 2 ^ 64"
    using * by simp
  from write_all_spec [OF this _ *(4)] *(3) show ?thesis by simp
qed

text \<open>
  From the client to the handlers: the messages that the client sends on one socket in successive rounds
  reach the handlers of an accepted session of the server once each and in order, with its actor, however the kernels on both
  sides cut the stream (the client's kernel with partial and interrupted sends, the server's with
  chunks that fit the space offered), and nothing is left in the receive buffer.
\<close>

theorem client_messages_delivered:
  assumes "handlers_respect_span handlers f" and "list_all2 (sent_in_round i) rounds takens"
    and "concat bss = concat takens" and "chunks_fit [] bss"
  shows "\<exists>ss'. recv_chunks handlers self alive bss (accepted_session sid) s =
      Some (Inr (ss', foldl (\<lambda>s (n, out, answers). f (Some \<lparr>actor_session = Some sid\<rparr>) 1 (encode_message 1 (client_payload i n)) s) s rounds)) \<and>
    received ss' = []"
proof -
  let ?a = "Some \<lparr>actor_session = Some sid\<rparr>"
  let ?ms = "map (\<lambda>(n, out, answers). (1 :: u32, client_payload i n)) rounds"
  have "takens = map (\<lambda>(t, p). encode_message t p) ?ms \<and> list_all (\<lambda>(t, p). length p < 2 ^ 30) ?ms"
    using assms(2)
  proof (induction rule: list_all2_induct)
    case (Cons r rs t ts)
    obtain n out answers where r: "r = (n, out, answers)" by (cases r)
    show ?case
      using Cons sent_in_round_bytes [of i n out answers t] by (auto simp: r sent_in_round_def)
  qed simp
  then have ms: "concat bss = concat (map (\<lambda>(t, p). encode_message t p) ?ms) @ []"
    and short: "list_all (\<lambda>(t, p). length p < 2 ^ 30) ?ms"
    using assms(3) by simp_all
  have "frame_length [] = None" by (simp add: frame_length_def)
  then have fr: "parse_frames (concat bss) = (map (\<lambda>(t, p). encode_message t p) ?ms, [])"
    using frames_encode [OF short, of "[]"] by (simp only: ms parse_frames_None) simp
  have "run_frames (f ?a) (map (\<lambda>(t, p). encode_message t p) ?ms) s =
      foldl (\<lambda>s (n, out, answers). f ?a 1 (encode_message 1 (client_payload i n)) s) s rounds"
    by (induction rounds arbitrary: s) (auto simp: run_frames_def frame_type_encode)
  with recv_chunks_spec [OF assms(1), of "accepted_session sid" bss self alive s] assms(4) fr show ?thesis
    by auto
qed

definition demo_message :: "byte list" where
  "demo_message = [11, 0, 0, 0, 1, 0, 0, 0, 99, 108, 105]"

definition demo_rounds :: "(int \<times> byte list \<times> answer list) list" where
  "demo_rounds = [(3, [], [(11, 0)]), (3, demo_message, [(4, 0), (- 1, EINTR), (7, 0)])]"

lemma demo_payload: "client_payload 0 3 = [99, 108, 105]"
  by (simp add: client_payload_def client_prefix_def bytes_of_def Let_def)

lemma demo_encoded: "encode_message 1 (client_payload 0 3) = demo_message"
  by (simp add: demo_payload encode_message_def encode_header_def le32_bytes_def demo_message_def)

lemma demo_rounds_sent: "list_all2 (sent_in_round 0) demo_rounds [demo_message, demo_message]"
proof -
  have "client_message 0 0 3 out = Inr demo_message" for out
    using client_message_spec [of 3 0 out] by (simp add: demo_encoded)
  moreover have "write_all [(11, 0)] demo_message = Some (True, demo_message, [])"
    "write_all [(4, 0), (- 1, EINTR), (7, 0)] demo_message = Some (True, demo_message, [])"
    by (simp_all add: write_all_def demo_message_def size_t_def)
  ultimately show ?thesis by (simp add: demo_rounds_def sent_in_round_def)
qed

theorem client_messages_delivered_witness:
  "\<exists>ss'. recv_chunks log_handlers 0 True [demo_message @ take 5 demo_message, drop 5 demo_message] (accepted_session 0) [] =
      Some (Inr (ss', foldl (\<lambda>s (n, out, answers). log_effect (Some \<lparr>actor_session = Some 0\<rparr>) 1 (encode_message 1 (client_payload 0 n)) s) []
        demo_rounds)) \<and>
    received ss' = []"
proof -
  have "frame_length [] = None" by (simp add: frame_length_def)
  then have "leftover (demo_message @ take 5 demo_message) = take 5 demo_message" "leftover demo_message = []"
    using frames_encode [of "[(1, client_payload 0 3)]" "take 5 demo_message"]
      frames_encode [of "[(1, client_payload 0 3)]" "[]"]
    by (simp_all add: demo_encoded leftover_short demo_message_def parse_frames_None)
  then have "chunks_fit [] [demo_message @ take 5 demo_message, drop 5 demo_message]"
    by (simp add: demo_message_def)
  then show ?thesis
    by (intro client_messages_delivered [OF log_handlers_respect demo_rounds_sent]) simp_all
qed

section \<open>The counters of the receiver\<close>

text \<open>Between the calls of \<open>close\<close> the counters are the bytes and the reads the kernel has reported.\<close>

lemma drain_socket_counts:
  "drain_socket answers b n = Some (closed, b', n') \<Longrightarrow>
     \<exists>k. b' = b + (\<Sum>(r, e) \<leftarrow> take k answers. if 0 < r then word_of_int r else 0) \<and>
       n' = n + word_of_nat (length (filter (\<lambda>(r, e). 0 < r) (take k answers))) \<and> k < length answers"
proof (induction answers b n rule: drain_socket.induct)
  case (2 r errno answers b n)
  show ?case
  proof (cases "0 < r \<or> (r \<noteq> 0 \<and> errno = EINTR)")
    case True
    then obtain k where "b' = (if 0 < r then b + word_of_int r else b) +
        (\<Sum>(r, e) \<leftarrow> take k answers. if 0 < r then word_of_int r else 0)"
      "n' = (if 0 < r then n + 1 else n) + word_of_nat (length (filter (\<lambda>(r, e). 0 < r) (take k answers)))"
      "k < length answers"
      using 2 by (auto split: if_splits)
    then show ?thesis by (intro exI [of _ "Suc k"]) (auto simp: ac_simps)
  next
    case False
    then show ?thesis using 2 by (intro exI [of _ 0]) (auto split: if_splits)
  qed
qed simp

end
