(* ===== verification/Client_Reception.thy ===== *)
theory Client_Reception
  imports Test_Client
begin

text \<open>
  The second half of \<open>main\<close> in \<open>test-client/TestClient.cc\<close>: the sockets are made non-blocking and registered with
  an epoll instance, then received from for ever. (The code stands behind the endless sending loop, so no run of the
  program as it is reaches it.) What the code does to descriptors is a list of calls; the kernel's answers
  are parameters.
\<close>

section \<open>Registration\<close>

definition O_NONBLOCK :: u32 where "O_NONBLOCK = 2048"

text \<open>The answers to the two calls of \<open>fcntl\<close>: the flags, and what the second call returns for its argument.\<close>

definition set_nonblocking :: "u32 \<Rightarrow> (u32 \<Rightarrow> u32) \<Rightarrow> bool" where
  "set_nonblocking flags setfl =
     (if sint flags < 0 then False
      else if sint (setfl (or flags O_NONBLOCK)) < 0 then False
      else True)"

datatype client_call = Epoll_Add int bool | Epoll_Del int | Close_Fd int

text \<open>For each socket: the answers of \<open>fcntl\<close> and the result of \<open>epoll_ctl\<close>.\<close>

fun register_sockets ::
    "(int \<Rightarrow> u32) \<Rightarrow> (int \<Rightarrow> u32 \<Rightarrow> u32) \<Rightarrow> (int \<Rightarrow> int) \<Rightarrow> int list \<Rightarrow> client_call list" where
  "register_sockets getfl setfl add [] = []"
| "register_sockets getfl setfl add (fd # fds) =
     (if \<not> set_nonblocking (getfl fd) (setfl fd) then [Close_Fd fd]
      else if add fd < 0 then [Epoll_Add fd False, Close_Fd fd]
      else [Epoll_Add fd True]) @ register_sockets getfl setfl add fds"

section \<open>The receiving loop\<close>

text \<open>The events of one \<open>epoll_wait\<close>: the descriptor, its flags and the answers of \<open>recv\<close> on it.\<close>

type_synonym epoll_answer = "int + (int \<times> epoll_flags \<times> answer list) list"

fun process_events ::
    "(int \<times> epoll_flags \<times> answer list) list \<Rightarrow> 64 word \<Rightarrow> 64 word
       \<Rightarrow> (client_call list \<times> 64 word \<times> 64 word) option" where
  "process_events [] total_bytes total_reads = Some ([], total_bytes, total_reads)"
| "process_events ((fd, ev, answers) # events) total_bytes total_reads =
     (case handle_event ev answers total_bytes total_reads of
        None \<Rightarrow> None
      | Some (closed, bytes', reads') \<Rightarrow>
          map_option (\<lambda>(calls, r). ((if closed then [Epoll_Del fd, Close_Fd fd] else []) @ calls, r))
            (process_events events bytes' reads'))"

text \<open>
  The loop over \<open>epoll_wait\<close>; the first result says whether it was left. The report once a second is output only.
\<close>

fun epoll_loop ::
    "epoll_answer list \<Rightarrow> 64 word \<Rightarrow> 64 word \<Rightarrow> (bool \<times> client_call list \<times> 64 word \<times> 64 word) option" where
  "epoll_loop [] total_bytes total_reads = Some (False, [], total_bytes, total_reads)"
| "epoll_loop (Inl errno # waits) total_bytes total_reads =
     (if errno = EINTR then epoll_loop waits total_bytes total_reads
      else Some (True, [], total_bytes, total_reads))"
| "epoll_loop (Inr events # waits) total_bytes total_reads =
     (case process_events events total_bytes total_reads of
        None \<Rightarrow> None
      | Some (calls, bytes', reads') \<Rightarrow>
          map_option (\<lambda>(left, calls', r). (left, calls @ calls', r)) (epoll_loop waits bytes' reads'))"

text \<open>
  From \<open>epoll_create1\<close> to the end of \<open>main\<close>: the exit code once the loop is left, the calls and the counters.
\<close>

definition client_receive ::
    "int \<Rightarrow> (int \<Rightarrow> u32) \<Rightarrow> (int \<Rightarrow> u32 \<Rightarrow> u32) \<Rightarrow> (int \<Rightarrow> int) \<Rightarrow> epoll_answer list \<Rightarrow> int list
       \<Rightarrow> (int option \<times> client_call list \<times> 64 word \<times> 64 word) option" where
  "client_receive epfd getfl setfl add waits sockets =
     (let fds = erase_closed sockets
      in if epfd < 0 then Some (Some 1, [], 0, 0)
         else map_option (\<lambda>(left, calls, r).
                (if left then Some 0 else None,
                 register_sockets getfl setfl add fds @ calls @ (if left then [Close_Fd epfd] else []), r))
                (epoll_loop waits 0 0))"

section \<open>Descriptors\<close>

text \<open>
  The descriptors an epoll instance watches after some calls: added ones, until they are removed or closed.
  The kernel reports a descriptor once per wait, and only one it watches.
\<close>

fun watched :: "client_call list \<Rightarrow> int set \<Rightarrow> int set" where
  "watched [] W = W"
| "watched (Epoll_Add fd ok # calls) W = watched calls (if ok then insert fd W else W)"
| "watched (Epoll_Del fd # calls) W = watched calls (W - {fd})"
| "watched (Close_Fd fd # calls) W = watched calls (W - {fd})"

fun epoll_ok :: "int set \<Rightarrow> epoll_answer list \<Rightarrow> bool" where
  "epoll_ok W [] \<longleftrightarrow> True"
| "epoll_ok W (Inl errno # waits) \<longleftrightarrow> epoll_ok W waits"
| "epoll_ok W (Inr events # waits) \<longleftrightarrow>
     distinct (map fst events) \<and> set (map fst events) \<subseteq> W \<and>
     (case process_events events 0 0 of
        None \<Rightarrow> True
      | Some (calls, r) \<Rightarrow> epoll_ok (watched calls W) waits)"

fun closed_fds :: "client_call list \<Rightarrow> int list" where
  "closed_fds [] = []"
| "closed_fds (Close_Fd fd # calls) = fd # closed_fds calls"
| "closed_fds (_ # calls) = closed_fds calls"

lemma closed_fds_append [simp]: "closed_fds (cs @ ds) = closed_fds cs @ closed_fds ds"
  by (induction cs rule: closed_fds.induct) simp_all

lemma watched_append [simp]: "watched (cs @ ds) W = watched ds (watched cs W)"
  by (induction cs W rule: watched.induct) simp_all

lemma same_first:
  "map_option fst x = map_option fst y \<Longrightarrow> x = Some (c, r) \<Longrightarrow> \<exists>r'. y = Some (c, r')"
  by (cases y) auto

lemma drain_socket_closed:
  "map_option fst (drain_socket answers b n) = map_option fst (drain_socket answers b' n')"
proof (induction answers arbitrary: b n b' n')
  case (Cons a answers)
  obtain r errno where a: "a = (r, errno)" by (cases a)
  show ?case unfolding a by (auto intro: Cons.IH)
qed simp

lemma handle_event_closed:
  "map_option fst (handle_event ev answers b n) = map_option fst (handle_event ev answers b' n')"
  by (auto simp: handle_event_def intro: drain_socket_closed)

text \<open>The calls do not depend on the counters.\<close>

lemma process_events_calls:
  "map_option fst (process_events events b n) = map_option fst (process_events events b' n')"
proof (induction events arbitrary: b n b' n')
  case (Cons e events)
  obtain fd ev answers where e: "e = (fd, ev, answers)" by (cases e)
  note c = handle_event_closed [of ev answers b n b' n']
  show ?case
  proof (cases "handle_event ev answers b n")
    case None
    with c have "handle_event ev answers b' n' = None" by simp
    with None show ?thesis by (simp add: e)
  next
    case (Some r)
    obtain closed b1 n1 where r: "handle_event ev answers b n = Some (closed, b1, n1)" using Some by (cases r) auto
    from same_first [OF c r] obtain b2 n2 where r2: "handle_event ev answers b' n' = Some (closed, b2, n2)" by auto
    show ?thesis
    proof (cases "process_events events b1 n1")
      case None
      with Cons.IH [of b1 n1 b2 n2] have "process_events events b2 n2 = None" by simp
      with None show ?thesis by (simp add: e r r2)
    next
      case (Some q)
      obtain cs q' where q: "process_events events b1 n1 = Some (cs, q')" using Some by (cases q) auto
      from same_first [OF Cons.IH q, of b2 n2] obtain q2 where "process_events events b2 n2 = Some (cs, q2)" by blast
      with q show ?thesis by (simp add: e r r2)
    qed
  qed
qed simp

lemma process_events_closed:
  "process_events events b n = Some (calls, r) \<Longrightarrow>
     \<exists>P. closed_fds calls = filter P (map fst events) \<and> watched calls W = W - set (closed_fds calls)"
  if "distinct (map fst events)"
  using that
proof (induction events b n arbitrary: calls r W rule: process_events.induct)
  case (2 fd ev answers events b n)
  then obtain closed b1 n1 calls1 where c: "handle_event ev answers b n = Some (closed, b1, n1)"
    "process_events events b1 n1 = Some (calls1, r)"
    "calls = (if closed then [Epoll_Del fd, Close_Fd fd] else []) @ calls1"
    by (auto split: option.splits)
  let ?W = "if closed then W - {fd} else W"
  obtain P where P: "closed_fds calls1 = filter P (map fst events)"
    "watched calls1 ?W = ?W - set (closed_fds calls1)"
    using "2.IH" [OF c(1) _ _ c(2)] "2.prems" by fastforce
  have "filter P (map fst events) = filter (\<lambda>x. if x = fd then closed else P x) (map fst events)"
    using "2.prems"(2) by (intro filter_cong) auto
  then show ?case
    using P c(3) by (intro exI [of _ "\<lambda>x. if x = fd then closed else P x"]) auto
qed auto

lemma epoll_loop_closed:
  "epoll_loop waits b n = Some (left, calls, r) \<Longrightarrow> epoll_ok W waits \<Longrightarrow>
     distinct (closed_fds calls) \<and> set (closed_fds calls) \<subseteq> W"
proof (induction waits b n arbitrary: left calls r W rule: epoll_loop.induct)
  case (3 events waits b n)
  then obtain calls1 b1 n1 calls2 where c: "process_events events b n = Some (calls1, b1, n1)"
    "epoll_loop waits b1 n1 = Some (left, calls2, r)" "calls = calls1 @ calls2"
    by (auto split: option.splits)
  have d: "distinct (map fst events)" "set (map fst events) \<subseteq> W" using "3.prems"(2) by simp_all
  obtain r0 where "process_events events 0 0 = Some (calls1, r0)"
    using same_first [OF process_events_calls c(1)] by blast
  then have "epoll_ok (watched calls1 W) waits" using "3.prems"(2) by simp
  note IH = "3.IH" [OF c(1) refl refl c(2) this]
  obtain P where "closed_fds calls1 = filter P (map fst events)" "watched calls1 W = W - set (closed_fds calls1)"
    using process_events_closed [OF d(1) c(1), of W] by blast
  with IH d show ?case using c(3) by auto
qed (auto split: if_splits)

lemma register_closed:
  "distinct fds \<Longrightarrow> distinct (closed_fds (register_sockets getfl setfl add fds)) \<and>
     set (closed_fds (register_sockets getfl setfl add fds)) \<union>
       watched (register_sockets getfl setfl add fds) W \<subseteq> set fds \<union> W \<and>
     set (closed_fds (register_sockets getfl setfl add fds)) \<inter>
       watched (register_sockets getfl setfl add fds) W = {}"
  if "set fds \<inter> W = {}"
  using that
proof (induction fds arbitrary: W)
  case (Cons fd fds)
  then show ?case
    using Cons.IH [of W] Cons.IH [of "insert fd W"] by (auto simp: Diff_triv)
qed simp

lemma epoll_loop_goes_on:
  "epoll_loop waits b n = Some (left, calls, r) \<Longrightarrow> \<not> left"
  if "\<forall>e. Inl e \<in> set waits \<longrightarrow> e = EINTR"
  using that
  by (induction waits b n arbitrary: left calls r rule: epoll_loop.induct)
    (force split: option.splits if_splits)+

text \<open>
  C40: The receiving half of the client, if it ran, closes every descriptor at most once, and only its own: what
  registration has closed is never received from, and what an event has closed is never closed again. It
  ends only when a wait fails for another reason than a signal. (The sockets are distinct, and the kernel
  reports what the epoll instance watches.)
\<close>

theorem client_closes_once:
  assumes "distinct (erase_closed sockets)" and "epfd \<notin> set sockets"
    and "epoll_ok (watched (register_sockets getfl setfl add (erase_closed sockets)) {}) waits"
    and "client_receive epfd getfl setfl add waits sockets = Some (code, calls, r)"
  shows "distinct (closed_fds calls) \<and> set (closed_fds calls) \<subseteq> insert epfd (set sockets - {- 1}) \<and>
    ((\<forall>e. Inl e \<in> set waits \<longrightarrow> e = EINTR) \<and> 0 \<le> epfd \<longrightarrow> code = None)"
proof (cases "epfd < 0")
  case True
  with assms(4) show ?thesis by (simp add: client_receive_def Let_def)
next
  case False
  let ?reg = "register_sockets getfl setfl add (erase_closed sockets)"
  from assms(4) False obtain left calls' where c: "epoll_loop waits 0 0 = Some (left, calls', r)"
    and code: "code = (if left then Some 0 else None)"
    and calls: "calls = ?reg @ calls' @ (if left then [Close_Fd epfd] else [])"
    by (auto simp: client_receive_def Let_def)
  have fds: "set (erase_closed sockets) = set sockets - {- 1}" by (auto simp: erase_closed_def)
  note reg = register_closed [of "erase_closed sockets" "{}" getfl setfl add]
  note rec = epoll_loop_closed [OF c assms(3)]
  have "distinct (closed_fds calls) \<and> set (closed_fds calls) \<subseteq> insert epfd (set sockets - {- 1})"
    using reg rec assms(1,2) unfolding calls fds [symmetric] by (auto simp: fds)
  moreover have "\<not> left" if "\<forall>e. Inl e \<in> set waits \<longrightarrow> e = EINTR"
    by (rule epoll_loop_goes_on [OF that c])
  ultimately show ?thesis using code by auto
qed

theorem client_closes_once_witness:
  "\<exists>code calls r. client_receive 9 (\<lambda>_. 2) (\<lambda>_ x. 0) (\<lambda>fd. if fd = 6 then - 1 else 0)
      [Inr [(5, \<lparr>epollin = True, epollerr = False, epollhup = False, epollrdhup = False\<rparr>, [(100, 0), (0, 0)])],
       Inl EINTR] [5, - 1, 6, 7] = Some (code, calls, r) \<and>
    closed_fds calls = [6, 5] \<and> distinct (closed_fds calls) \<and> code = None"
proof -
  let ?add = "\<lambda>fd :: int. if fd = 6 then - 1 else (0 :: int)"
  let ?waits = "[Inr [(5, \<lparr>epollin = True, epollerr = False, epollhup = False, epollrdhup = False\<rparr>, [(100, 0), (0, 0)])],
       Inl EINTR] :: epoll_answer list"
  have reg: "register_sockets (\<lambda>_. 2) (\<lambda>_ x. 0) ?add [5, 6, 7] =
      [Epoll_Add 5 True, Epoll_Add 6 False, Close_Fd 6, Epoll_Add 7 True]"
    by (simp add: set_nonblocking_def)
  have run: "client_receive 9 (\<lambda>_. 2) (\<lambda>_ x. 0) ?add ?waits [5, - 1, 6, 7] =
      Some (None, [Epoll_Add 5 True, Epoll_Add 6 False, Close_Fd 6, Epoll_Add 7 True, Epoll_Del 5, Close_Fd 5], 100, 1)"
    using reg by (simp add: client_receive_def erase_closed_def handle_event_def EINTR_def Let_def)
  have "epoll_ok (watched (register_sockets (\<lambda>_. 2) (\<lambda>_ x. 0) ?add (erase_closed [5, - 1, 6, 7])) {}) ?waits"
    using reg by (simp add: erase_closed_def handle_event_def split: option.split)
  from client_closes_once [OF _ _ this run] show ?thesis
    using run by (simp add: erase_closed_def EINTR_def)
qed

end
