(* ===== verification/Running_Server.thy ===== *)
theory Running_Server
  imports Sample_Server Receive_Windows
begin

text \<open>
  The sample server as it runs: the handlers of \<open>Sample_Server\<close> in the service of \<open>Service_Loop\<close>. The first
  section follows what a running service sends, for any user code; the second shows that the code of the sample
  server keeps the contract of the service.
\<close>

section \<open>What a running service sends\<close>

text \<open>\<open>S s sb\<close>: the buffer \<open>sb\<close> may be sent on session \<open>s\<close>.\<close>

definition send_only :: "(nat \<Rightarrow> send_buffer \<Rightarrow> bool) \<Rightarrow> nat \<Rightarrow> io_kind \<Rightarrow> bool" where
  "send_only S s kind \<longleftrightarrow> (\<forall>sb. kind = Io_Send_Buffer sb \<longrightarrow> S s sb)"

fun send_call :: "(nat \<Rightarrow> send_buffer \<Rightarrow> bool) \<Rightarrow> service_call \<Rightarrow> bool" where
  "send_call S (Call_Request_Io s kind) \<longleftrightarrow> send_only S s kind"
| "send_call S Call_Accept_One \<longleftrightarrow> True"
| "send_call S (Call_Session_Closed s) \<longleftrightarrow> True"

definition sends_ok :: "(nat \<Rightarrow> send_buffer \<Rightarrow> bool) \<Rightarrow> ('q, 'r, 'p, 's) service \<Rightarrow> bool" where
  "sends_ok S \<sigma> \<longleftrightarrow> (\<forall>x opn. io_ops \<sigma> x = Some opn \<longrightarrow> send_only S (op_object opn) (op_kind opn))"

lemma sends_ok_frame: "sends_ok S \<sigma> \<Longrightarrow> io_ops \<sigma>' = io_ops \<sigma> \<Longrightarrow> sends_ok S \<sigma>'"
  by (simp add: sends_ok_def)

lemma send_only_simps [simp]:
  "send_only S s (Io_Recv off len)" "send_only S s (Io_Accept fd)" "send_only S s Io_Close"
  by (simp_all add: send_only_def)

lemma request_io_new_sends:
  assumes "sends_ok S \<sigma>" and "send_only S s kind" and "request_io_new Q P s kind \<sigma> = Inr \<sigma>'"
  shows "sends_ok S \<sigma>'"
  using assms(3)
proof (cases rule: request_io_new_cases)
  case (exhausted p)
  with assms(1) show ?thesis by (simp add: sends_ok_def)
next
  case (acquired x p i)
  from request_io_at_frame(4) [OF acquired(2)] assms(1,2) show ?thesis by (auto simp: sends_ok_def)
qed

lemma request_accept_one_sends:
  "sends_ok S \<sigma> \<Longrightarrow> request_accept_one Q P \<sigma> = Inr \<sigma>' \<Longrightarrow> sends_ok S \<sigma>'"
  by (auto simp: request_accept_one_def split: option.splits prod.splits
      elim!: request_io_new_sends [rotated 2] intro: sends_ok_frame)

lemma run_calls_sends:
  "sends_ok S \<sigma> \<Longrightarrow> list_all (send_call S) cs \<Longrightarrow> run_calls Q P cs \<sigma> = Inr \<sigma>' \<Longrightarrow> sends_ok S \<sigma>'"
proof (induction cs arbitrary: \<sigma>)
  case (Cons c cs)
  then obtain \<sigma>1 where c: "run_call Q P c \<sigma> = Inr \<sigma>1" and cs: "run_calls Q P cs \<sigma>1 = Inr \<sigma>'"
    by (auto simp: outcome_simps)
  have "sends_ok S \<sigma>1"
  proof (cases c)
    case (Call_Request_Io s kind)
    with Cons.prems c request_io_new_sends show ?thesis by fastforce
  next
    case Call_Accept_One
    with Cons.prems c request_accept_one_sends show ?thesis by fastforce
  next
    case (Call_Session_Closed s)
    have "sends_ok S (\<sigma>\<lparr>sessions_queue := push_ignore Q s (sessions_queue \<sigma>)\<rparr>)"
      using Cons.prems(1) by (rule sends_ok_frame) simp
    with c Call_Session_Closed request_accept_one_sends show ?thesis by (simp add: on_session_closed_def)
  qed
  with Cons.IH [of \<sigma>1] Cons.prems cs show ?case by simp
qed simp

lemma on_receive_failed_sends: "list_all (send_call S) (on_receive_failed alive ss)"
  by (auto simp: on_receive_failed_def actor_request_close_def session_request_close_def split: option.split)

lemma handle_operation_sends:
  assumes "handle_operation handlers opn res ss u = Some (Inr (ss', u', calls))"
  shows "list_all (send_call S) calls"
  using assms on_receive_failed_sends
  by (auto simp: handle_operation_def Let_def recv_completion_def on_received_def request_receive_def outcome_simps
      send_completion_def close_completion_def accept_completion_def on_accepted_def get_remain_span_def
      split: io_kind.splits if_splits sum.splits)

context io_service
begin

lemma handle_completion_sends:
  assumes ok: "ok H \<sigma>" and x: "\<forall>x. ic_operation c = Some x \<longrightarrow> x \<in># H" and sends: "sends_ok S \<sigma>"
    and con: "user_contract (\<lambda>n c. send_call S c) (length (sessions \<sigma>)) I handlers drain" and u: "I (user \<sigma>)"
    and run: "handle_completion Q P handlers drain c \<sigma> = Some (Inr \<sigma>')"
  shows "sends_ok S \<sigma>'"
proof (cases "ic_operation c")
  case None
  with sends run show ?thesis by (simp add: handle_completion_def)
next
  case (Some x)
  with ok x obtain opn where opn: "io_ops \<sigma> x = Some opn" and s: "op_object opn < length (sessions \<sigma>)"
    by (auto simp: service_ok_def op_ok_def)
  let ?s = "op_object opn"
  have own: "own_actor ?s (sessions \<sigma> ! ?s)" using ok s by (simp add: service_ok_def sessions_ok_def)
  from run obtain ss' u1 calls where
    h: "handle_operation handlers opn (ic_result c) (sessions \<sigma> ! ?s) (user \<sigma>) = Some (Inr (ss', u1, calls))"
    and r: "run_calls Q P (fst (drain u1) @ calls) (set_session ?s ss' (\<sigma>\<lparr>user := snd (drain u1)\<rparr>)) = Inr \<sigma>'"
    using Some opn s by (auto simp: handle_completion_def outcome_simps Let_def split_beta)
  have "list_all (send_call S) (fst (drain u1))"
    using handle_operation_user [OF h con own s u] con by (simp add: user_contract_def)
  moreover have "sends_ok S (set_session ?s ss' (\<sigma>\<lparr>user := snd (drain u1)\<rparr>))"
    using sends by (rule sends_ok_frame) (simp add: set_session_def)
  ultimately show ?thesis using run_calls_sends [OF _ _ r] handle_operation_sends [OF h, of S] by simp
qed

lemma destroy_completion_sends:
  assumes "sends_ok S \<sigma>" and "destroy_completion U P i c \<sigma> = Inr \<sigma>'"
  shows "sends_ok S \<sigma>'"
  using assms
  by (auto simp: destroy_completion_def release_op_def set_worker_def sends_ok_def outcome_simps Let_def
      split: option.splits if_splits)

lemma routine_sends:
  assumes ok: "ok {#} \<sigma>" and i: "i < length (worker_threads \<sigma>)" and sends: "sends_ok S \<sigma>"
    and con: "user_contract (\<lambda>n c. send_call S c) (length (sessions \<sigma>)) I handlers drain" and u: "I (user \<sigma>)"
    and run: "routine Q U P handlers drain i \<sigma> = Some (Inr \<sigma>')"
  shows "sends_ok S \<sigma>'"
proof -
  obtain c rq where w: "wait_one U 0 (worker_threads \<sigma> ! i) = Inr (c, rq)"
    using run by (auto simp: routine_def bind_loop_def split: sum.splits)
  let ?\<sigma>0 = "set_worker i rq \<sigma>"
  obtain \<sigma>1 \<sigma>2 where h: "handle_completion Q P handlers drain c ?\<sigma>0 = Some (Inr \<sigma>1)"
    and f: "flush_worker Q U i \<sigma>1 = Some (Inr \<sigma>2)" and d: "destroy_completion U P i c \<sigma>2 = Inr \<sigma>'"
    using run w by (auto simp: routine_def bind_loop_def split: option.splits sum.splits)
  have s0: "sessions ?\<sigma>0 = sessions \<sigma>" "user ?\<sigma>0 = user \<sigma>" by (simp_all add: set_worker_def)
  have x: "\<forall>x. ic_operation c = Some x \<longrightarrow> x \<in># in_hand c" by (simp add: in_hand_def)
  have "sends_ok S ?\<sigma>0" using sends by (rule sends_ok_frame) (simp add: set_worker_def)
  from handle_completion_sends [OF wait_one_ok [OF ok i w] x this _ _ h] con u s0 have "sends_ok S \<sigma>1" by simp
  then have "sends_ok S \<sigma>2"
    using f by (auto simp: flush_worker_def outcome_simps set_worker_def intro: sends_ok_frame)
  from destroy_completion_sends [OF this d] show ?thesis .
qed

end

lemma initialize_sends:
  assumes "io_ops \<sigma> = Map.empty" and "initialize Q U P \<sigma> = Inr \<sigma>'"
  shows "sends_ok S \<sigma>'"
proof -
  have "sends_ok S \<sigma>1 \<Longrightarrow> accept_loop Q P n \<sigma>1 = Inr \<sigma>2 \<Longrightarrow> sends_ok S \<sigma>2" for n \<sigma>1 \<sigma>2
  proof (induction n arbitrary: \<sigma>1)
    case (Suc n)
    then show ?case by (auto simp: outcome_simps dest: request_accept_one_sends)
  qed simp
  moreover have "sends_ok S (make_sessions Q n (initialize_threads Q U \<sigma>))" for n
    using assms(1) by (simp add: sends_ok_def initialize_threads_def)
  ultimately show ?thesis using assms(2) unfolding initialize_def by blast
qed

lemma send_call_user: "user_contract C n I handlers drain \<Longrightarrow> (\<And>c. C n c \<Longrightarrow> send_call S c) \<Longrightarrow>
    user_contract (\<lambda>n c. send_call S c) n I handlers drain"
  using user_contract_mono [of C n I handlers drain "\<lambda>n c. send_call S c"] by blast

lemma service_run_sends:
  assumes "\<And>i. io_service Q contents U pending (P i) good live"
    and "service_run Q U P handlers drain \<sigma> \<sigma>'"
    and "service_ok contents pending good live {#} \<sigma>" and "sends_ok S \<sigma>"
    and "user_contract C (length (sessions \<sigma>)) I handlers drain" and "I (user \<sigma>)"
    and "\<And>c. C (length (sessions \<sigma>)) c \<Longrightarrow> call_ok (length (sessions \<sigma>)) c \<and> send_call S c"
  shows "sends_ok S \<sigma>'"
  using assms(2-)
proof (induction rule: service_run.induct)
  case (no_step \<sigma>)
  then show ?case by blast
next
  case (worker_step \<sigma> \<sigma>1 i \<sigma>2)
  have con: "user_contract call_ok (length (sessions \<sigma>)) I handlers drain"
    using user_contract_mono [OF worker_step.prems(3)] worker_step.prems(5) by blast
  have s1: "service_ok contents pending good live {#} \<sigma>1" "length (sessions \<sigma>1) = length (sessions \<sigma>)" "I (user \<sigma>1)"
    using service_run_ok [OF assms(1) worker_step.hyps(1) worker_step.prems(1) con worker_step.prems(4)] by blast+
  have "user_contract (\<lambda>n c. send_call S c) (length (sessions \<sigma>1)) I handlers drain"
    using send_call_user [OF worker_step.prems(3)] worker_step.prems(5) s1(2) by simp
  from io_service.routine_sends [OF assms(1) s1(1) worker_step.hyps(2) worker_step.IH [OF worker_step.prems] this s1(3)
      worker_step.hyps(3)]
  show ?case .
next
  case (kernel_write \<sigma> \<sigma>1 s off bs buf)
  then have "sends_ok S \<sigma>1" by blast
  then show ?case by (rule sends_ok_frame) (simp add: set_session_def)
qed

section \<open>The code of the sample server keeps the contract\<close>

text \<open>The requests that the handlers have made since they were last taken out.\<close>

definition drain_requests :: "server_state \<Rightarrow> service_call list \<times> server_state" where
  "drain_requests s = (requests s, s\<lparr>requests := []\<rparr>)"

definition server_start :: server_state where
  "server_start = \<lparr>g_seq = 0, requests = [], server_log = []\<rparr>"

text \<open>What a reply puts into a buffer: the address of a payload and a size.\<close>

definition is_reply :: "server_env \<Rightarrow> send_buffer \<Rightarrow> bool" where
  "is_reply E sb \<longleftrightarrow>
     (\<exists>k off v. get_buffer sb = le64_bytes (payload_address (reply_memory E k) off) @ le32_bytes v)"

fun server_call :: "server_env \<Rightarrow> nat \<Rightarrow> service_call \<Rightarrow> bool" where
  "server_call E n (Call_Request_Io s (Io_Send_Buffer sb)) \<longleftrightarrow> s < n \<and> is_reply E sb"
| "server_call E n c \<longleftrightarrow> False"

definition server_inv :: "server_env \<Rightarrow> nat \<Rightarrow> server_state \<Rightarrow> bool" where
  "server_inv E n u \<longleftrightarrow> list_all (server_call E n) (requests u)"

lemma server_call_user: "server_call E n c \<Longrightarrow> user_call n c"
  by (cases "(E, n, c)" rule: server_call.cases) simp_all

lemma server_call_sends: "server_call E n c \<Longrightarrow> send_call (\<lambda>s sb. s < n \<and> is_reply E sb) c"
  by (cases "(E, n, c)" rule: server_call.cases) (simp_all add: send_only_def)

lemma reply_loop_calls:
  assumes "\<And>off. length (buffer_memory (reply_memory E k) off) = 2048"
  shows "actor_in n a \<Longrightarrow> reply_loop (reply_memory E k) alive a header remaining offset = Inr rounds \<Longrightarrow>
    list_all (server_call E n) (concat (map snd rounds))"
proof (induction "reply_memory E k" alive a header remaining offset arbitrary: rounds rule: reply_loop.induct)
  case (1 alive a header remaining offset)
  show ?case
  proof (cases "remaining \<le> 0")
    case True
    with 1 show ?thesis by (simp add: reply_loop.simps [of "reply_memory E k" alive a header remaining])
  next
    case False
    let ?chunk = "min kChunkSize remaining"
    let ?payload = "chunk_payload header offset ?chunk"
    let ?args = "[le64_bytes (payload_address (reply_memory E k) offset),
      le32_bytes (word_of_int (static_cast_int (length ?payload)))]"
    obtain sb where sb: "write_args ?args (send_buffer_new (buffer_memory (reply_memory E k) offset)) = Inr sb"
      "get_buffer sb = concat ?args"
      using write_pointer_and_size [OF assms(1)] by simp blast
    from 1(3) False sb obtain b offset' rest where b: "a = Some b" and o: "checked_int (offset + ?chunk) = Inr offset'"
      and rest: "reply_loop (reply_memory E k) alive a header (remaining - ?chunk) offset' = Inr rest"
      and rounds: "rounds = (?payload, actor_request_send alive sb b) # rest"
      by (auto simp: reply_loop.simps [of "reply_memory E k" alive a header remaining] Let_def outcome_simps
          split: option.splits)
    have "is_reply E sb" using sb(2) by (auto simp: is_reply_def)
    moreover have "s < n" if "actor_session b = Some s" for s
      using 1(2) b that unfolding actor_in_def by blast
    ultimately have "list_all (server_call E n) (actor_request_send alive sb b)"
      by (auto simp: actor_request_send_def session_request_send_def split: option.split)
    moreover have "list_all (server_call E n) (concat (map snd rest))"
      using 1 False sb b o rest by blast
    ultimately show ?thesis by (simp add: rounds)
  qed
qed

lemma server_contract:
  assumes "server_env_ok E"
  shows "user_contract (server_call E) n (server_inv E n) (server_handlers E True) drain_requests"
proof -
  have "server_inv E n u'" if h: "test_handler E True mem k a u = Inr (mem', u')" and a: "actor_in n a"
    and u: "server_inv E n u" for mem k a u mem' u'
  proof -
    have "length (buffer_memory (reply_memory E j) off) = 2048" for j off
      using assms by (simp add: server_env_ok_def)
    from reply_loop_calls [OF this] a h u show ?thesis
      by (auto simp: test_handler_def timestamp_task_def server_inv_def Let_def outcome_simps split: if_splits)
  qed
  then show ?thesis
    by (auto simp: user_contract_def server_handlers_def register_handler_def drain_requests_def server_inv_def
        split: if_splits)
qed

section \<open>The running server\<close>

text \<open>A service that the builder has made, with the sample server's handlers, before \<open>initialize\<close>.\<close>

definition server_service :: "('q \<Rightarrow> nat list) \<Rightarrow> ('p \<Rightarrow> bool) \<Rightarrow> ('q, 'r, 'p, server_state) service \<Rightarrow> bool" where
  "server_service contents good \<sigma> \<longleftrightarrow>
     worker_threads \<sigma> = [] \<and> sessions \<sigma> = [] \<and> contents (sessions_queue \<sigma>) = [] \<and> io_ops \<sigma> = Map.empty \<and>
     good (io_pool \<sigma>) \<and> user \<sigma> = server_start"

text \<open>
  C4: No byte of a reply's text leaves the running sample server: whatever its clients send, in every state that
  its workers and the kernel can bring it into, a send operation belongs to one of its sessions and holds 12
  bytes, the address of a payload and a size, and these are the bytes it gives to the kernel.
\<close>

theorem running_server_sends_pointers:
  assumes "\<And>j. io_service Q contents U pending (P j) good live" and "server_service contents good \<sigma>0"
    and "server_env_ok E" and "initialize Q U (P 0) \<sigma>0 = Inr \<sigma>1"
    and "service_run Q U P (server_handlers E True) drain_requests \<sigma>1 \<sigma>"
    and "io_ops \<sigma> x = Some opn" and "op_kind opn = Io_Send_Buffer sb"
  shows "op_object opn < nat (session_count \<sigma>0) \<and>
    (\<exists>k off v. get_buffer sb = le64_bytes (payload_address (reply_memory E k) off) @ le32_bytes v) \<and>
    op_request_io U fd_of (io_ops \<sigma>) x r =
      add_sqe U (Prep_Send (op_object opn) (fd_of (op_object opn)) (get_buffer sb)) x r"
proof -
  let ?n = "nat (session_count \<sigma>0)" and ?S = "\<lambda>s sb. s < nat (session_count \<sigma>0) \<and> is_reply E sb"
  have f: "worker_threads \<sigma>0 = []" "sessions \<sigma>0 = []" "contents (sessions_queue \<sigma>0) = []" "good (io_pool \<sigma>0)"
    "io_ops \<sigma>0 = Map.empty" "user \<sigma>0 = server_start"
    using assms(2) by (simp_all add: server_service_def)
  have 1: "service_ok contents pending good live {#} \<sigma>1" "length (sessions \<sigma>1) = ?n"
    using io_service.initialize_ok [OF assms(1) f(1-4) assms(4)] by blast+
  have "sends_ok ?S \<sigma>1" by (rule initialize_sends [OF f(5) assms(4)])
  moreover have "server_inv E ?n (user \<sigma>1)"
    using initialize_user [OF assms(4)] by (simp add: f(6) server_inv_def server_start_def)
  ultimately have "sends_ok ?S \<sigma>"
    using service_run_sends [OF assms(1,5) 1(1), of ?S "server_call E" "server_inv E ?n"] 1(2)
      server_contract [OF assms(3), of ?n] server_call_sends server_call_user user_call_ok
    by metis
  then have "?S (op_object opn) sb" using assms(6,7) by (simp add: sends_ok_def send_only_def)
  then show ?thesis by (simp add: is_reply_def op_request_io_def assms(6,7) send_request_io_def)
qed

text \<open>
  For the witness: one worker, one session, a ring that completes the accept with descriptor 5 and a receive of
  8 bytes, a message without payload, and replies of one byte.
\<close>

definition tiny_env :: server_env where
  "tiny_env = \<lparr>clock = \<lambda>k. 0, random_size = \<lambda>k. 1, reply_memory = \<lambda>k. demo_reply_env\<rparr>"

lemma tiny_env_ok: "server_env_ok tiny_env"
  by (simp add: server_env_ok_def tiny_env_def demo_reply_env_def LLONG_MIN_def LLONG_MAX_def)

definition hello_buffer :: "byte list" where
  "hello_buffer = encode_message 1 [] @ replicate 4088 0"

definition hello_session :: session where
  "hello_session = (accepted_session 0)\<lparr>socket_fd := 5\<rparr>"

lemma receive_loop_short: "commited_size ss < HEADER_SIZE \<Longrightarrow> receive_loop handlers ss s = Some (Inr (ss, s))"
  by (simp add: receive_loop.simps [of handlers ss s])

lemma hello_handled:
  "\<exists>sb. recv_completion (server_handlers tiny_env True) 0 True 8 (hello_session\<lparr>rx_buffer := hello_buffer\<rparr>) server_start =
    Some (Inr (hello_session\<lparr>rx_buffer := hello_buffer\<rparr>,
      server_start\<lparr>g_seq := 1, requests := [Call_Request_Io 0 (Io_Send_Buffer sb)]\<rparr>,
      [Call_Request_Io 0 (Io_Recv 0 4096)]))"
proof -
  let ?a = "Some \<lparr>actor_session = Some 0\<rparr>" and ?H = "server_handlers tiny_env True"
  let ?ss = "hello_session\<lparr>rx_buffer := hello_buffer, commited_size := 8\<rparr>"
  let ?m = "wrapped_message 0 0 []"
  have p: "parse_message hello_buffer = Inr \<lparr>hd_size = 8, hd_type = 1\<rparr>"
    using parse_encoded [of "[]" 1] by (simp add: hello_buffer_def)
  have "length (reply_header (message_seq ?m) 1 ?m) < 2 ^ 31"
    using reply_header_short [of 0 1 "[]" 0] sequence_number_read [of 0 0 "[]"] by (simp add: LLONG_MIN_def LLONG_MAX_def)
  then obtain rounds where rounds: "timestamp_task demo_reply_env 1 True ?a ?m = Inr rounds" "length rounds = 1"
    "sends_pointer_and_size 0 (payload_address demo_reply_env 0) (length (fst (rounds ! 0))) (snd (rounds ! 0))"
    using reply_loop_spec [of demo_reply_env "reply_header (message_seq ?m) 1 ?m" 1 0 0]
    by (auto simp: demo_reply_env_def timestamp_task_def)
  then obtain sb payload where sb: "rounds = [(payload, [Call_Request_Io 0 (Io_Send_Buffer sb)])]"
    by (cases rounds) (auto simp: sends_pointer_and_size_def)
  have h: "test_handler tiny_env True hello_buffer 8 ?a server_start =
      Inr (hello_buffer, server_start\<lparr>g_seq := 1, requests := [Call_Request_Io 0 (Io_Send_Buffer sb)]\<rparr>)"
    using test_handler_reads [OF p, of 8 tiny_env True ?a server_start] rounds(1)
    by (simp add: HEADER_SIZE_def server_start_def tiny_env_def sb)
  have done1: "process_completed 8 ?ss = Inr (hello_session\<lparr>rx_buffer := hello_buffer\<rparr>)"
    by (simp add: process_completed_def fits_int_def hello_session_def accepted_session_eq new_session_def)
  have "receive_loop ?H ?ss server_start = Some (Inr (hello_session\<lparr>rx_buffer := hello_buffer\<rparr>,
      server_start\<lparr>g_seq := 1, requests := [Call_Request_Io 0 (Io_Send_Buffer sb)]\<rparr>))"
    using server_receive_step [of ?ss "[]" "replicate 4088 0" 8 tiny_env True server_start] h p done1
    by (simp add: hello_buffer_def [symmetric] hello_session_def receive_loop_short accepted_session_eq new_session_def
        HEADER_SIZE_def)
  then show ?thesis
    by (auto simp: recv_completion_def on_received_def commit_def fits_int_def request_receive_def get_remain_span_def
        MAX_RECEIVE_BUFFER_SIZE_def hello_session_def accepted_session_eq new_session_def)
qed

definition hello_ring :: "(nat list \<times> int list) uring_ops" where
  "hello_ring = scripted_ring [5, 8]"

type_synonym hello = "(nat list, nat list \<times> int list, nat \<times> (nat \<Rightarrow> io_type option), server_state) service"

definition hello_service :: hello where
  "hello_service = (service_new list_queue 0 (0, Map.empty) server_start)
     \<lparr>thread_count := 1, session_count := 1, backlog := 1, acceptor_fd := 3\<rparr>"

definition hello_started :: hello where
  "hello_started = hello_service\<lparr>request_index := 1,
     worker_threads := [\<lparr>rq_queue = [0], rq_ring = ([], [5, 8])\<rparr>],
     sessions := [new_session], sessions_queue := [], io_pool := (1, [0 \<mapsto> Type_Accept]),
     io_ops := [0 \<mapsto> \<lparr>op_object = 0, op_kind = Io_Accept 3, op_refs = 1\<rparr>]\<rparr>"

definition hello_flushed :: hello where
  "hello_flushed = hello_started\<lparr>worker_threads := [\<lparr>rq_queue = [], rq_ring = ([0], [5, 8])\<rparr>]\<rparr>"

definition hello_receiving :: hello where
  "hello_receiving = hello_started\<lparr>request_index := 2,
     worker_threads := [\<lparr>rq_queue = [], rq_ring = ([1], [8])\<rparr>],
     sessions := [hello_session], io_pool := (2, [1 \<mapsto> Type_Recv]),
     io_ops := [1 \<mapsto> \<lparr>op_object = 0, op_kind = Io_Recv 0 4096, op_refs = 1\<rparr>]\<rparr>"

definition hello_written :: hello where
  "hello_written = set_session 0 (hello_session\<lparr>rx_buffer := hello_buffer\<rparr>) hello_receiving"

lemmas hello_defs = hello_service_def hello_started_def hello_ring_def counting_pool_def drain_requests_def
  server_start_def

lemma hello_initialize: "initialize list_queue hello_ring counting_pool hello_service = Inr hello_started"
  by (simp add: initialize_def initialize_threads_def request_queue_new_def hello_defs request_defs)

lemma hello_first_routine:
  "routine list_queue hello_ring counting_pool H drain_requests 0 hello_started = Some (Inr hello_flushed)"
  by (simp add: routine_defs accept_request_io_def hello_flushed_def hello_defs request_defs)

lemma hello_second_routine:
  "routine list_queue hello_ring counting_pool H drain_requests 0 hello_flushed = Some (Inr hello_receiving)"
  by (simp add: signed_modulo_int_def routine_defs recv_request_io_def hello_flushed_def hello_receiving_def hello_session_def
      accepted_session_eq handle_operation_def accept_completion_def on_accepted_def request_receive_def set_session_def
      release_op_def session_fd_def get_remain_span_def new_session_def MAX_RECEIVE_BUFFER_SIZE_def hello_defs request_defs)

lemma hello_third_routine:
  "\<exists>\<sigma> sb. routine list_queue hello_ring counting_pool (server_handlers tiny_env True) drain_requests 0 hello_written =
     Some (Inr \<sigma>) \<and> io_ops \<sigma> 2 = Some \<lparr>op_object = 0, op_kind = Io_Send_Buffer sb, op_refs = 1\<rparr>"
proof -
  obtain sb where sb: "recv_completion (server_handlers tiny_env True) 0 True 8 (hello_session\<lparr>rx_buffer := hello_buffer\<rparr>)
      server_start = Some (Inr (hello_session\<lparr>rx_buffer := hello_buffer\<rparr>,
      server_start\<lparr>g_seq := 1, requests := [Call_Request_Io 0 (Io_Send_Buffer sb)]\<rparr>,
      [Call_Request_Io 0 (Io_Recv 0 4096)]))"
    using hello_handled by blast
  have r: "(2 :: int) smod 1 = 0" "(3 :: int) smod 1 = 0" "(2 :: int) sdiv 1 = 2" "(3 :: int) sdiv 1 = 3"
    by (simp_all add: signed_modulo_int_def signed_divide_int_def)
  have "routine list_queue hello_ring counting_pool (server_handlers tiny_env True) drain_requests 0 hello_written =
    Some (Inr (hello_written\<lparr>request_index := 4, user := server_start\<lparr>g_seq := 1\<rparr>,
      worker_threads := [\<lparr>rq_queue = [], rq_ring = ([2, 3], [])\<rparr>], io_pool := (4, [2 \<mapsto> Type_Send_Buffer, 3 \<mapsto> Type_Recv]),
      io_ops := [2 \<mapsto> \<lparr>op_object = 0, op_kind = Io_Send_Buffer sb, op_refs = 1\<rparr>,
        3 \<mapsto> \<lparr>op_object = 0, op_kind = Io_Recv 0 4096, op_refs = 1\<rparr>]\<rparr>))"
    using sb
    by (simp add: routine_defs recv_request_io_def send_request_io_def hello_written_def hello_receiving_def
        handle_operation_def set_session_def release_op_def session_fd_def r hello_defs request_defs fun_upd_twist)
  then show ?thesis by (intro exI conjI) auto
qed

lemma hello_run:
  "\<exists>\<sigma> sb. service_run list_queue hello_ring (\<lambda>_. counting_pool) (server_handlers tiny_env True) drain_requests
     hello_started \<sigma> \<and> io_ops \<sigma> 2 = Some \<lparr>op_object = 0, op_kind = Io_Send_Buffer sb, op_refs = 1\<rparr>"
proof -
  obtain \<sigma> sb where third: "routine list_queue hello_ring counting_pool (server_handlers tiny_env True) drain_requests 0
      hello_written = Some (Inr \<sigma>)"
    and s: "io_ops \<sigma> 2 = Some \<lparr>op_object = 0, op_kind = Io_Send_Buffer sb, op_refs = 1\<rparr>"
    using hello_third_routine by blast
  have w: "0 < length (worker_threads hello_started)" "0 < length (worker_threads hello_flushed)"
    "0 < length (worker_threads hello_written)" "0 < length (sessions hello_receiving)"
    by (simp_all add: hello_started_def hello_flushed_def hello_written_def hello_receiving_def set_session_def)
  have wr: "mem_write 0 (encode_message 1 []) (rx_buffer (sessions hello_receiving ! 0)) = Inr hello_buffer"
    by (simp add: hello_receiving_def hello_session_def accepted_session_eq new_session_def hello_buffer_def
        mem_write_def)
  have session: "sessions hello_receiving ! 0 = hello_session" by (simp add: hello_receiving_def)
  note run = service_run.worker_step [OF service_run.worker_step [OF service_run.no_step w(1) hello_first_routine]
      w(2) hello_second_routine]
  from service_run.kernel_write [OF run w(4) wr]
  have "service_run list_queue hello_ring (\<lambda>_. counting_pool) (server_handlers tiny_env True) drain_requests
      hello_started hello_written"
    by (simp add: hello_written_def session)
  from service_run.worker_step [OF this w(3) third] s show ?thesis by blast
qed

theorem running_server_sends_pointers_witness:
  "\<exists>\<sigma> sb k off v. service_run list_queue hello_ring (\<lambda>_. counting_pool) (server_handlers tiny_env True) drain_requests
      hello_started \<sigma> \<and>
    io_ops \<sigma> 2 = Some \<lparr>op_object = 0, op_kind = Io_Send_Buffer sb, op_refs = 1\<rparr> \<and>
    get_buffer sb = le64_bytes (payload_address (reply_memory tiny_env k) off) @ le32_bytes v"
proof -
  have c: "io_service list_queue (\<lambda>q. q) hello_ring (\<lambda>r. mset (fst r)) counting_pool
      (\<lambda>(n, L). \<forall>x. n \<le> x \<longrightarrow> L x = None) snd"
    unfolding hello_ring_def
    by (intro io_service.intro lq.lockfree_queue_axioms scripted.io_ring_axioms counting.operation_pool_axioms)
  have s: "server_service (\<lambda>q. q) (\<lambda>(n, L). \<forall>x. n \<le> x \<longrightarrow> L x = None) hello_service"
    by (simp add: server_service_def hello_service_def service_new_def)
  obtain \<sigma> sb where run: "service_run list_queue hello_ring (\<lambda>_. counting_pool) (server_handlers tiny_env True)
      drain_requests hello_started \<sigma>"
    and x: "io_ops \<sigma> 2 = Some \<lparr>op_object = 0, op_kind = Io_Send_Buffer sb, op_refs = 1\<rparr>"
    using hello_run by blast
  from running_server_sends_pointers [where P = "\<lambda>_. counting_pool", OF c s tiny_env_ok hello_initialize run x] run x
  show ?thesis by auto
qed

end
