(* ===== verification/Service_Machine.thy ===== *)
theory Service_Machine
  imports Receive_Windows
begin

text \<open>
  The service with workers that interleave. In \<open>Service_Loop\<close> a call of \<open>WorkerThread::routine\<close> is one step;
  here a step is the code up to its next access to something workers share: one operation on a queue, on the pool,
  on \<open>request_index_\<close> or on a reference counter, or the completion handler of one operation with what it
  does to its session. That the latter may be one step follows from the result: no two workers handle
  receives of one session at a time. The two models agree on routines that are not disturbed.
\<close>

section \<open>Steps\<close>

text \<open>
  What is left of the calls a completion makes. \<open>M_Index\<close> is \<open>request_index_++\<close> for an operation, \<open>M_Push x i n\<close>
  an attempt to push it to worker \<open>i\<close> with \<open>n\<close> retries left.
\<close>

datatype micro =
    M_New nat io_kind
  | M_Index nat
  | M_Push nat int nat
  | M_Accept_One
  | M_Closed nat

datatype stage =
    W_Wait
  | W_Handle io_completion
  | W_Calls io_completion "micro list"
  | W_Flush io_completion
  | W_Pop io_completion
  | W_Request io_completion nat
  | W_Seen io_completion
  | W_Release nat

fun call_micro :: "service_call \<Rightarrow> micro" where
  "call_micro (Call_Request_Io s kind) = M_New s kind"
| "call_micro Call_Accept_One = M_Accept_One"
| "call_micro (Call_Session_Closed s) = M_Closed s"

text \<open>The steps of \<open>request_io<T>\<close>, the two \<open>request_io\<close>, \<open>request_accept_one\<close> and \<open>on_session_closed\<close>, each with what is left to do.\<close>

definition new_step ::
    "'p op_pool \<Rightarrow> nat \<Rightarrow> io_kind \<Rightarrow> ('q, 'r, 'p, 's) service \<Rightarrow> (micro list \<times> ('q, 'r, 'p, 's) service) outcome" where
  "new_step P s kind \<sigma> =
     (case op_acquire P (io_type_of kind) (io_pool \<sigma>) of
        (None, p) \<Rightarrow> Inr ([], \<sigma>\<lparr>io_pool := p\<rparr>)
      | (Some x, p) \<Rightarrow>
          Inr ([M_Index x],
               \<sigma>\<lparr>io_pool := p,
                 io_ops := (io_ops \<sigma>)(x \<mapsto> \<lparr>op_object = s, op_kind = kind, op_refs = add_ref 0\<rparr>)\<rparr>))"

definition index_step ::
    "nat \<Rightarrow> ('q, 'r, 'p, 's) service \<Rightarrow> (micro list \<times> ('q, 'r, 'p, 's) service) outcome" where
  "index_step x \<sigma> =
     (let index = sint (request_index \<sigma>)
      in if thread_count \<sigma> = 0 then Inl Division_By_Zero
         else if \<not> fits_int (index sdiv thread_count \<sigma>) then Inl Signed_Overflow
         else Inr ([M_Push x (index smod thread_count \<sigma>) 10], \<sigma>\<lparr>request_index := request_index \<sigma> + 1\<rparr>))"

definition push_step ::
    "'q lfq_ops \<Rightarrow> nat \<Rightarrow> int \<Rightarrow> nat \<Rightarrow> ('q, 'r, 'p, 's) service
       \<Rightarrow> (micro list \<times> ('q, 'r, 'p, 's) service) outcome" where
  "push_step Q x i n \<sigma> =
     (if i < 0 \<or> thread_count \<sigma> \<le> i then Inr ([], \<sigma>)
      else if length (worker_threads \<sigma>) \<le> nat i then Inl Out_Of_Bounds
      else (let rq = worker_threads \<sigma> ! nat i
            in case lfq_push Q x (rq_queue rq) of
                 Some q \<Rightarrow> Inr ([], set_worker (nat i) (rq\<lparr>rq_queue := q\<rparr>) \<sigma>)
               | None \<Rightarrow> Inr (if n = 0 then [] else [M_Push x i (n - 1)], \<sigma>)))"

definition accept_step ::
    "'q lfq_ops \<Rightarrow> ('q, 'r, 'p, 's) service \<Rightarrow> (micro list \<times> ('q, 'r, 'p, 's) service) outcome" where
  "accept_step Q \<sigma> =
     (case lfq_pop Q (sessions_queue \<sigma>) of
        None \<Rightarrow> Inr ([], \<sigma>)
      | Some (s, q) \<Rightarrow> Inr ([M_New s (Io_Accept (acceptor_fd \<sigma>))], \<sigma>\<lparr>sessions_queue := q\<rparr>))"

definition closed_step ::
    "'q lfq_ops \<Rightarrow> nat \<Rightarrow> ('q, 'r, 'p, 's) service \<Rightarrow> (micro list \<times> ('q, 'r, 'p, 's) service) outcome" where
  "closed_step Q s \<sigma> = Inr ([M_Accept_One], \<sigma>\<lparr>sessions_queue := push_ignore Q s (sessions_queue \<sigma>)\<rparr>)"

fun micro_step ::
    "'q lfq_ops \<Rightarrow> 'p op_pool \<Rightarrow> micro \<Rightarrow> ('q, 'r, 'p, 's) service
       \<Rightarrow> (micro list \<times> ('q, 'r, 'p, 's) service) outcome" where
  "micro_step Q P (M_New s kind) \<sigma> = new_step P s kind \<sigma>"
| "micro_step Q P (M_Index x) \<sigma> = index_step x \<sigma>"
| "micro_step Q P (M_Push x i n) \<sigma> = push_step Q x i n \<sigma>"
| "micro_step Q P M_Accept_One \<sigma> = accept_step Q \<sigma>"
| "micro_step Q P (M_Closed s) \<sigma> = closed_step Q s \<sigma>"

declare new_step_def [simp] index_step_def [simp] push_step_def [simp] accept_step_def [simp] closed_step_def [simp]

text \<open>\<open>handle_completion\<close> up to the first call of the session.\<close>

definition begin_completion ::
    "'s handlers \<Rightarrow> ('s \<Rightarrow> service_call list \<times> 's) \<Rightarrow> io_completion \<Rightarrow> ('q, 'r, 'p, 's) service
       \<Rightarrow> (stage \<times> ('q, 'r, 'p, 's) service) outcome option" where
  "begin_completion handlers drain c \<sigma> =
     (case ic_operation c of
        None \<Rightarrow> Some (Inr (W_Flush c, \<sigma>))
      | Some x \<Rightarrow>
          (case io_ops \<sigma> x of
             None \<Rightarrow> Some (Inl Use_After_Free)
           | Some opn \<Rightarrow>
               if length (sessions \<sigma>) \<le> op_object opn then Some (Inl Use_After_Free)
               else map_option (\<lambda>res. bind_outcome res (\<lambda>(ss', u, calls).
                      let (user_calls, u') = drain u
                      in Inr (W_Calls c (map call_micro (user_calls @ calls)),
                              set_session (op_object opn) ss' (\<sigma>\<lparr>user := u'\<rparr>))))
                    (handle_operation handlers opn (ic_result c) (sessions \<sigma> ! op_object opn) (user \<sigma>))))"

text \<open>A round of the flush: a pop, and \<open>request_io\<close> of what it got.\<close>

definition flush_pop ::
    "'q lfq_ops \<Rightarrow> 'r uring_ops \<Rightarrow> nat \<Rightarrow> io_completion \<Rightarrow> ('q, 'r, 'p, 's) service
       \<Rightarrow> stage \<times> ('q, 'r, 'p, 's) service" where
  "flush_pop Q U i c \<sigma> =
     (let rq = worker_threads \<sigma> ! i
      in case lfq_pop Q (rq_queue rq) of
           None \<Rightarrow> (W_Seen c, set_worker i (submit U rq) \<sigma>)
         | Some (x, q) \<Rightarrow> (W_Request c x, set_worker i (rq\<lparr>rq_queue := q\<rparr>) \<sigma>))"

definition flush_request ::
    "'r uring_ops \<Rightarrow> nat \<Rightarrow> nat \<Rightarrow> ('q, 'r, 'p, 's) service \<Rightarrow> ('q, 'r, 'p, 's) service outcome" where
  "flush_request U i x \<sigma> =
     (let rq = worker_threads \<sigma> ! i
      in bind_outcome (op_request_io U (session_fd \<sigma>) (io_ops \<sigma>) x (rq_ring rq)) (\<lambda>r.
           Inr (set_worker i (rq\<lparr>rq_ring := r\<rparr>) \<sigma>)))"

fun worker_step ::
    "'q lfq_ops \<Rightarrow> 'r uring_ops \<Rightarrow> 'p op_pool \<Rightarrow> 's handlers \<Rightarrow> ('s \<Rightarrow> service_call list \<times> 's) \<Rightarrow> nat
       \<Rightarrow> stage \<Rightarrow> ('q, 'r, 'p, 's) service \<Rightarrow> (stage \<times> ('q, 'r, 'p, 's) service) outcome option" where
  "worker_step Q U P handlers drain i W_Wait \<sigma> =
     Some (bind_outcome (wait_one U 0 (worker_threads \<sigma> ! i)) (\<lambda>(c, rq). Inr (W_Handle c, set_worker i rq \<sigma>)))"
| "worker_step Q U P handlers drain i (W_Handle c) \<sigma> = begin_completion handlers drain c \<sigma>"
| "worker_step Q U P handlers drain i (W_Calls c []) \<sigma> = Some (Inr (W_Flush c, \<sigma>))"
| "worker_step Q U P handlers drain i (W_Calls c (m # ms)) \<sigma> =
     Some (bind_outcome (micro_step Q P m \<sigma>) (\<lambda>(ms', \<sigma>'). Inr (W_Calls c (ms' @ ms), \<sigma>')))"
| "worker_step Q U P handlers drain i (W_Flush c) \<sigma> =
     Some (Inr (if lfq_empty Q (rq_queue (worker_threads \<sigma> ! i)) then W_Seen c else W_Pop c, \<sigma>))"
| "worker_step Q U P handlers drain i (W_Pop c) \<sigma> = Some (Inr (flush_pop Q U i c \<sigma>))"
| "worker_step Q U P handlers drain i (W_Request c x) \<sigma> =
     Some (bind_outcome (flush_request U i x \<sigma>) (\<lambda>\<sigma>'. Inr (W_Pop c, \<sigma>')))"
| "worker_step Q U P handlers drain i (W_Seen c) \<sigma> =
     (let rq = worker_threads \<sigma> ! i
      in Some (Inr (case ic_operation c of None \<Rightarrow> W_Wait | Some x \<Rightarrow> W_Release x,
                    set_worker i (rq\<lparr>rq_ring := completion_seen U c (rq_ring rq)\<rparr>) \<sigma>)))"
| "worker_step Q U P handlers drain i (W_Release x) \<sigma> =
     Some (bind_outcome (release_op P x \<sigma>) (\<lambda>\<sigma>'. Inr (W_Wait, \<sigma>')))"

section \<open>A routine that is not disturbed\<close>

partial_function (option) finish_routine ::
    "(stage \<Rightarrow> 'a \<Rightarrow> (stage \<times> 'a) outcome option) \<Rightarrow> stage \<Rightarrow> 'a \<Rightarrow> 'a outcome option" where
  "finish_routine step st \<sigma> =
     (case step st \<sigma> of
        None \<Rightarrow> None
      | Some (Inl e) \<Rightarrow> Some (Inl e)
      | Some (Inr (st', \<sigma>')) \<Rightarrow> if st' = W_Wait then Some (Inr \<sigma>') else finish_routine step st' \<sigma>')"

lemma finish_next:
  "step st \<sigma> = Some (Inr (st', \<sigma>')) \<Longrightarrow> st' \<noteq> W_Wait \<Longrightarrow> finish_routine step st \<sigma> = finish_routine step st' \<sigma>'"
  by (simp add: finish_routine.simps [of step st])

lemma finish_fault: "step st \<sigma> = Some (Inl e) \<Longrightarrow> finish_routine step st \<sigma> = Some (Inl e)"
  by (simp add: finish_routine.simps [of step st])

lemma bind_loop_simps [simp]:
  "bind_loop None f = None" "bind_loop (Some (Inl e)) f = Some (Inl e)" "bind_loop (Some (Inr x)) f = f x"
  by (simp_all add: bind_loop_def)

text \<open>A step of a call, with what is left of it: the calls that follow come after it.\<close>

definition push_left :: "'q lfq_ops \<Rightarrow> nat \<Rightarrow> nat \<Rightarrow> int \<Rightarrow> ('q, 'r, 'p, 's) service \<Rightarrow> ('q, 'r, 'p, 's) service outcome" where
  "push_left Q n x i \<sigma> =
     (if i < 0 \<or> thread_count \<sigma> \<le> i then Inr \<sigma>
      else if length (worker_threads \<sigma>) \<le> nat i then Inl Out_Of_Bounds
      else (let rq = worker_threads \<sigma> ! nat i
            in Inr (set_worker (nat i) (rq\<lparr>rq_queue := push_retry Q n x (rq_queue rq)\<rparr>) \<sigma>)))"

lemma finish_push:
  "finish_routine (worker_step Q U P handlers drain i) (W_Calls c (M_Push x j n # ms)) \<sigma> =
     bind_loop (Some (push_left Q n x j \<sigma>)) (finish_routine (worker_step Q U P handlers drain i) (W_Calls c ms))"
proof (induction n)
  case 0
  show ?case
    by (cases "j < 0 \<or> thread_count \<sigma> \<le> j"; cases "length (worker_threads \<sigma>) \<le> nat j")
      (auto simp: finish_routine.simps [of "worker_step Q U P handlers drain i" "W_Calls c (M_Push x j 0 # ms)"] push_left_def
        set_worker_def Let_def split: option.split)
next
  case (Suc n)
  show ?case
  proof (cases "j < 0 \<or> thread_count \<sigma> \<le> j \<or> length (worker_threads \<sigma>) \<le> nat j \<or>
      lfq_push Q x (rq_queue (worker_threads \<sigma> ! nat j)) \<noteq> None")
    case True
    then show ?thesis
      by (auto simp: finish_routine.simps [of "worker_step Q U P handlers drain i" "W_Calls c (M_Push x j (Suc n) # ms)"]
          push_left_def Let_def split: option.split)
  next
    case False
    then have "finish_routine (worker_step Q U P handlers drain i) (W_Calls c (M_Push x j (Suc n) # ms)) \<sigma> =
        finish_routine (worker_step Q U P handlers drain i) (W_Calls c (M_Push x j n # ms)) \<sigma>"
      by (intro finish_next) (auto simp: Let_def)
    with Suc False show ?thesis by (simp add: push_left_def Let_def)
  qed
qed

lemma finish_index:
  "finish_routine (worker_step Q U P handlers drain i) (W_Calls c (M_Index x # ms)) \<sigma> =
     bind_loop (Some (request_io Q x \<sigma>)) (finish_routine (worker_step Q U P handlers drain i) (W_Calls c ms))"
  by (simp add: finish_routine.simps [of "worker_step Q U P handlers drain i" "W_Calls c (M_Index x # ms)"] finish_push
      push_left_def request_io_def request_io_at_def push_request_def set_worker_def Let_def)

lemma finish_new:
  "finish_routine (worker_step Q U P handlers drain i) (W_Calls c (M_New s kind # ms)) \<sigma> =
     bind_loop (Some (request_io_new Q P s kind \<sigma>)) (finish_routine (worker_step Q U P handlers drain i) (W_Calls c ms))"
  by (simp add: finish_routine.simps [of "worker_step Q U P handlers drain i" "W_Calls c (M_New s kind # ms)"] finish_index
      request_io_new_def split: option.split prod.split)

lemma finish_accept_one:
  "finish_routine (worker_step Q U P handlers drain i) (W_Calls c (M_Accept_One # ms)) \<sigma> =
     bind_loop (Some (request_accept_one Q P \<sigma>)) (finish_routine (worker_step Q U P handlers drain i) (W_Calls c ms))"
  by (simp add: finish_routine.simps [of "worker_step Q U P handlers drain i" "W_Calls c (M_Accept_One # ms)"] finish_new
      request_accept_one_def split: option.split prod.split)

lemma finish_call:
  "finish_routine (worker_step Q U P handlers drain i) (W_Calls c (call_micro d # ms)) \<sigma> =
     bind_loop (Some (run_call Q P d \<sigma>)) (finish_routine (worker_step Q U P handlers drain i) (W_Calls c ms))"
proof (cases d)
  case (Call_Session_Closed s)
  then show ?thesis
    by (simp add: finish_routine.simps [of "worker_step Q U P handlers drain i" "W_Calls c (M_Closed s # ms)"] finish_accept_one
        on_session_closed_def)
qed (simp_all add: finish_new finish_accept_one)

lemma finish_calls:
  "finish_routine (worker_step Q U P handlers drain i) (W_Calls c (map call_micro ds @ ms)) \<sigma> =
     bind_loop (Some (run_calls Q P ds \<sigma>)) (finish_routine (worker_step Q U P handlers drain i) (W_Calls c ms))"
proof (induction ds arbitrary: \<sigma>)
  case (Cons d ds)
  then show ?case by (cases "run_call Q P d \<sigma>") (simp_all add: finish_call)
qed simp

lemma finish_seen:
  "finish_routine (worker_step Q U P handlers drain i) (W_Seen c) \<sigma> = Some (destroy_completion U P i c \<sigma>)"
proof (cases "ic_operation c")
  case (Some x)
  let ?rq = "worker_threads \<sigma> ! i"
  have "finish_routine (worker_step Q U P handlers drain i) (W_Release x) \<sigma>1 = Some (release_op P x \<sigma>1)" for \<sigma>1
    by (cases "release_op P x \<sigma>1") (simp_all add: finish_routine.simps [of "worker_step Q U P handlers drain i" "W_Release x"])
  with Some show ?thesis
    by (simp add: finish_routine.simps [of "worker_step Q U P handlers drain i" "W_Seen c"] destroy_completion_def Let_def)
qed (simp add: finish_routine.simps [of "worker_step Q U P handlers drain i" "W_Seen c"] destroy_completion_def Let_def)

lemma submit_eq: "submit U \<lparr>rq_queue = rq_queue rq, rq_ring = rq_ring rq\<rparr> = submit U rq"
  by (simp add: submit_def)

context lockfree_queue
begin

lemma finish_pop:
  "i < length (worker_threads \<sigma>) \<Longrightarrow>
   finish_routine (worker_step Q U P handlers drain i) (W_Pop c) \<sigma> =
     bind_loop (map_option (\<lambda>res. bind_outcome res (\<lambda>(q, r). Inr (set_worker i (submit U \<lparr>rq_queue = q, rq_ring = r\<rparr>) \<sigma>)))
       (flush_loop Q (op_request_io U (session_fd \<sigma>) (io_ops \<sigma>)) (rq_queue (worker_threads \<sigma> ! i))
          (rq_ring (worker_threads \<sigma> ! i))))
       (finish_routine (worker_step Q U P handlers drain i) (W_Seen c))"
proof (induction "contents (rq_queue (worker_threads \<sigma> ! i))" arbitrary: \<sigma>)
  case Nil
  then have pop: "lfq_pop Q (rq_queue (worker_threads \<sigma> ! i)) = None" by (simp add: pop_None_iff)
  show ?case
    by (simp add: finish_routine.simps [of "worker_step Q U P handlers drain i" "W_Pop c"] flush_pop_def Let_def pop submit_eq
        flush_loop.simps [of Q _ "rq_queue (worker_threads \<sigma> ! i)"])
next
  case (Cons x xs)
  let ?rq = "worker_threads \<sigma> ! i"
  let ?req = "op_request_io U (session_fd \<sigma>) (io_ops \<sigma>)"
  from Cons.hyps(2) [symmetric] obtain q where q: "lfq_pop Q (rq_queue ?rq) = Some (x, q)" "contents q = xs"
    by (rule pop_nonempty)
  define \<sigma>1 where "\<sigma>1 = set_worker i (?rq\<lparr>rq_queue := q\<rparr>) \<sigma>"
  have 1: "finish_routine (worker_step Q U P handlers drain i) (W_Pop c) \<sigma> =
      finish_routine (worker_step Q U P handlers drain i) (W_Request c x) \<sigma>1"
    by (rule finish_next) (simp_all add: flush_pop_def q \<sigma>1_def)
  have fd: "session_fd \<sigma>1 = session_fd \<sigma>" and ops: "io_ops \<sigma>1 = io_ops \<sigma>"
    and w1: "worker_threads \<sigma>1 ! i = ?rq\<lparr>rq_queue := q\<rparr>"
    using Cons.prems by (simp_all add: \<sigma>1_def set_worker_def session_fd_def fun_eq_iff)
  show ?case
  proof (cases "?req x (rq_ring ?rq)")
    case (Inl e)
    then show ?thesis
      by (simp add: 1 finish_fault flush_request_def fd ops w1 flush_loop.simps [of Q ?req "rq_queue ?rq"] q)
  next
    case (Inr r)
    define \<sigma>2 where "\<sigma>2 = set_worker i (?rq\<lparr>rq_queue := q, rq_ring := r\<rparr>) \<sigma>"
    have "set_worker i (?rq\<lparr>rq_queue := q, rq_ring := r\<rparr>) \<sigma>1 = \<sigma>2" by (simp add: \<sigma>1_def \<sigma>2_def set_worker_def)
    then have fr: "flush_request U i x \<sigma>1 = Inr \<sigma>2" by (simp add: flush_request_def fd ops w1 Inr)
    have step: "finish_routine (worker_step Q U P handlers drain i) (W_Request c x) \<sigma>1 =
        finish_routine (worker_step Q U P handlers drain i) (W_Pop c) \<sigma>2"
      by (rule finish_next) (simp_all add: fr)
    have \<sigma>2: "worker_threads \<sigma>2 ! i = ?rq\<lparr>rq_queue := q, rq_ring := r\<rparr>" "session_fd \<sigma>2 = session_fd \<sigma>"
        "io_ops \<sigma>2 = io_ops \<sigma>" "i < length (worker_threads \<sigma>2)" "\<And>rq. set_worker i rq \<sigma>2 = set_worker i rq \<sigma>"
      using Cons.prems by (simp_all add: \<sigma>2_def set_worker_def session_fd_def fun_eq_iff)
    have "finish_routine (worker_step Q U P handlers drain i) (W_Pop c) \<sigma>2 =
        bind_loop (map_option (\<lambda>res. bind_outcome res (\<lambda>(q, r). Inr (set_worker i (submit U \<lparr>rq_queue = q, rq_ring = r\<rparr>) \<sigma>)))
          (flush_loop Q ?req q r)) (finish_routine (worker_step Q U P handlers drain i) (W_Seen c))"
      using Cons.hyps(1) [of \<sigma>2] q(2) \<sigma>2 by simp
    then show ?thesis
      by (simp add: 1 step flush_loop.simps [of Q ?req "rq_queue ?rq"] q Inr)
  qed
qed

lemma finish_flush:
  assumes "i < length (worker_threads \<sigma>)"
  shows "finish_routine (worker_step Q U P handlers drain i) (W_Flush c) \<sigma> =
    bind_loop (flush_worker Q U i \<sigma>) (\<lambda>\<sigma>'. Some (destroy_completion U P i c \<sigma>'))"
proof (cases "lfq_empty Q (rq_queue (worker_threads \<sigma> ! i))")
  case True
  then show ?thesis
    by (simp add: finish_routine.simps [of "worker_step Q U P handlers drain i" "W_Flush c"] finish_seen flush_worker_def
        flush_requests_def set_worker_def)
next
  case False
  have "map_option (\<lambda>res. bind_outcome res (\<lambda>rq. Inr (set_worker i rq \<sigma>)))
      (map_option (\<lambda>res. bind_outcome res (\<lambda>(q, r). Inr (submit U \<lparr>rq_queue = q, rq_ring = r\<rparr>))) m) =
    map_option (\<lambda>res. bind_outcome res (\<lambda>(q, r). Inr (set_worker i (submit U \<lparr>rq_queue = q, rq_ring = r\<rparr>) \<sigma>))) m" for m
    by (cases m) (auto simp: bind_outcome_def split: sum.split)
  with False assms show ?thesis
    by (simp add: finish_routine.simps [of "worker_step Q U P handlers drain i" "W_Flush c"] finish_pop finish_seen [abs_def]
        flush_worker_def flush_requests_def)
qed

lemma finish_handle:
  assumes "i < length (worker_threads \<sigma>)"
  shows "finish_routine (worker_step Q U P handlers drain i) (W_Handle c) \<sigma> =
    bind_loop (handle_completion Q P handlers drain c \<sigma>) (finish_routine (worker_step Q U P handlers drain i) (W_Flush c))"
proof -
  have calls: "finish_routine (worker_step Q U P handlers drain i) (W_Calls c (map call_micro ds)) \<sigma>1 =
      bind_loop (Some (run_calls Q P ds \<sigma>1)) (finish_routine (worker_step Q U P handlers drain i) (W_Flush c))" for ds \<sigma>1
  proof -
    have "finish_routine (worker_step Q U P handlers drain i) (W_Calls c []) \<sigma>2 = finish_routine (worker_step Q U P handlers drain i) (W_Flush c) \<sigma>2"
      for \<sigma>2 by (rule finish_next) simp_all
    then show ?thesis
      using finish_calls [of Q U P handlers drain i c ds "[]" \<sigma>1] by (cases "run_calls Q P ds \<sigma>1") simp_all
  qed
  show ?thesis
  proof (cases "ic_operation c")
    case None
    then show ?thesis
      by (simp add: finish_routine.simps [of "worker_step Q U P handlers drain i" "W_Handle c"] begin_completion_def handle_completion_def)
  next
    case (Some x)
    show ?thesis
    proof (cases "\<exists>opn. io_ops \<sigma> x = Some opn \<and> op_object opn < length (sessions \<sigma>)")
      case False
      with Some show ?thesis
        by (auto simp: finish_routine.simps [of "worker_step Q U P handlers drain i" "W_Handle c"] begin_completion_def
            handle_completion_def not_less split: option.split)
    next
      case True
      then obtain opn where opn: "io_ops \<sigma> x = Some opn" "op_object opn < length (sessions \<sigma>)" by blast
      let ?h = "handle_operation handlers opn (ic_result c) (sessions \<sigma> ! op_object opn) (user \<sigma>)"
      consider "?h = None" | e where "?h = Some (Inl e)" | ss' u ds where "?h = Some (Inr (ss', u, ds))"
        by (cases ?h) (auto intro: that, metis obj_sumE prod_cases3)
      then show ?thesis
      proof cases
        case 3
        obtain uc u' where "drain u = (uc, u')" by fastforce
        with 3 Some opn show ?thesis
          by (simp add: finish_routine.simps [of "worker_step Q U P handlers drain i" "W_Handle c"] begin_completion_def
            handle_completion_def calls del: map_append)
      qed (use Some opn in \<open>simp_all add: finish_routine.simps [of "worker_step Q U P handlers drain i" "W_Handle c"]
            begin_completion_def handle_completion_def\<close>)
    qed
  qed
qed

end

lemma run_calls_workers: "run_calls Q P cs \<sigma> = Inr \<sigma>' \<Longrightarrow> length (worker_threads \<sigma>') = length (worker_threads \<sigma>)"
proof (induction cs arbitrary: \<sigma>)
  case (Cons d cs)
  have accept: "length (worker_threads \<sigma>2) = length (worker_threads \<sigma>1)" if "request_accept_one Q P \<sigma>1 = Inr \<sigma>2" for \<sigma>1 \<sigma>2
    using that by (auto simp: request_accept_one_def split: option.splits dest!: request_io_new_frame)
  from Cons obtain \<sigma>1 where "run_call Q P d \<sigma> = Inr \<sigma>1" "length (worker_threads \<sigma>') = length (worker_threads \<sigma>1)"
    by (auto simp: outcome_simps)
  then show ?case by (cases d) (auto simp: on_session_closed_def dest: request_io_new_frame accept)
qed simp

lemma handle_completion_workers:
  "handle_completion Q P handlers drain c \<sigma> = Some (Inr \<sigma>') \<Longrightarrow> length (worker_threads \<sigma>') = length (worker_threads \<sigma>)"
  by (auto simp: handle_completion_def set_session_def outcome_simps Let_def split_beta split: option.splits if_splits
      dest!: run_calls_workers)

context lockfree_queue
begin

lemma routine_undisturbed:
  assumes "i < length (worker_threads \<sigma>)"
  shows "finish_routine (worker_step Q U P handlers drain i) W_Wait \<sigma> = routine Q U P handlers drain i \<sigma>"
proof (cases "wait_one U 0 (worker_threads \<sigma> ! i)")
  case (Inl e)
  then show ?thesis by (simp add: finish_fault routine_def)
next
  case (Inr p)
  obtain c rq where p: "p = (c, rq)" by (cases p)
  let ?\<sigma>0 = "set_worker i rq \<sigma>" and ?h = "handle_completion Q P handlers drain c (set_worker i rq \<sigma>)"
  have i: "i < length (worker_threads ?\<sigma>0)" using assms by (simp add: set_worker_def)
  have "finish_routine (worker_step Q U P handlers drain i) W_Wait \<sigma> = finish_routine (worker_step Q U P handlers drain i) (W_Handle c) ?\<sigma>0"
    by (rule finish_next) (simp_all add: Inr p)
  also have "\<dots> = bind_loop ?h (finish_routine (worker_step Q U P handlers drain i) (W_Flush c))" by (rule finish_handle [OF i])
  also have "\<dots> = bind_loop ?h (\<lambda>\<sigma>1. bind_loop (flush_worker Q U i \<sigma>1) (\<lambda>\<sigma>2. Some (destroy_completion U P i c \<sigma>2)))"
  proof -
    have "finish_routine (worker_step Q U P handlers drain i) (W_Flush c) \<sigma>1 =
        bind_loop (flush_worker Q U i \<sigma>1) (\<lambda>\<sigma>2. Some (destroy_completion U P i c \<sigma>2))" if "?h = Some (Inr \<sigma>1)" for \<sigma>1
      by (rule finish_flush) (simp add: handle_completion_workers [OF that] assms set_worker_def)
    then show ?thesis by (auto simp: bind_loop_def split: option.split sum.split)
  qed
  finally show ?thesis by (simp add: routine_def Inr p)
qed

end

section \<open>Workers that interleave\<close>

text \<open>
  The state: the service, and for each worker where it is in its routine. A step is a step of one worker, or
  a write of the kernel as in \<open>service_run\<close>.
\<close>

type_synonym ('q, 'r, 'p, 's) machine = "('q, 'r, 'p, 's) service \<times> stage list"

inductive machine_run ::
    "'q lfq_ops \<Rightarrow> 'r uring_ops \<Rightarrow> (nat \<Rightarrow> 'p op_pool) \<Rightarrow> 's handlers \<Rightarrow> ('s \<Rightarrow> service_call list \<times> 's)
       \<Rightarrow> ('q, 'r, 'p, 's) machine \<Rightarrow> ('q, 'r, 'p, 's) machine \<Rightarrow> bool"
  for Q U P handlers drain where
  no_move: "machine_run Q U P handlers drain m m"
| worker_moves: "machine_run Q U P handlers drain m (\<sigma>, sts) \<Longrightarrow> i < length sts \<Longrightarrow>
     worker_step Q U (P i) handlers drain i (sts ! i) \<sigma> = Some (Inr (st, \<sigma>')) \<Longrightarrow>
     machine_run Q U P handlers drain m (\<sigma>', sts[i := st])"
| kernel_writes: "machine_run Q U P handlers drain m (\<sigma>, sts) \<Longrightarrow> s < length (sessions \<sigma>) \<Longrightarrow>
     mem_write off bs (rx_buffer (sessions \<sigma> ! s)) = Inr buf \<Longrightarrow>
     machine_run Q U P handlers drain m (set_session s ((sessions \<sigma> ! s)\<lparr>rx_buffer := buf\<rparr>) \<sigma>, sts)"

definition all_waiting :: "('q, 'r, 'p, 's) service \<Rightarrow> stage list" where
  "all_waiting \<sigma> = replicate (length (worker_threads \<sigma>)) W_Wait"

lemma finish_moves:
  assumes "finish_routine step st \<sigma> = Some r"
  shows "step = worker_step Q U (P i) handlers drain i \<longrightarrow> i < length sts \<longrightarrow>
    machine_run Q U P handlers drain m (\<sigma>, sts[i := st]) \<longrightarrow>
    (\<forall>\<sigma>'. r = Inr \<sigma>' \<longrightarrow> machine_run Q U P handlers drain m (\<sigma>', sts[i := W_Wait]))"
proof (rule finish_routine.raw_induct [where P = "\<lambda>step st \<sigma> r. step = worker_step Q U (P i) handlers drain i \<longrightarrow>
    i < length sts \<longrightarrow> machine_run Q U P handlers drain m (\<sigma>, sts[i := st]) \<longrightarrow>
    (\<forall>\<sigma>'. r = Inr \<sigma>' \<longrightarrow> machine_run Q U P handlers drain m (\<sigma>', sts[i := W_Wait]))", OF _ assms], goal_cases)
  case (1 finish step st \<sigma> r)
  show ?case
  proof (intro impI allI)
    fix \<sigma>'
    assume step: "step = worker_step Q U (P i) handlers drain i" and i: "i < length sts"
      and run: "machine_run Q U P handlers drain m (\<sigma>, sts[i := st])" and r: "r = Inr \<sigma>'"
    from 1(2) r obtain st1 \<sigma>1 where s1: "step st \<sigma> = Some (Inr (st1, \<sigma>1))"
      and next_step: "(if st1 = W_Wait then Some (Inr \<sigma>1) else finish step st1 \<sigma>1) = Some (Inr \<sigma>')"
      by (auto split: option.splits sum.splits)
    have "machine_run Q U P handlers drain m (\<sigma>1, sts[i := st1])"
      using worker_moves [OF run, of i st1 \<sigma>1] s1 step i by simp
    with next_step 1(1) [of step st1 \<sigma>1 r] step i r show "machine_run Q U P handlers drain m (\<sigma>', sts[i := W_Wait])"
      by (cases "st1 = W_Wait") auto
  qed
qed

lemma routine_workers:
  "routine Q U P handlers drain i \<sigma> = Some (Inr \<sigma>') \<Longrightarrow> length (worker_threads \<sigma>') = length (worker_threads \<sigma>)"
proof -
  have destroy: "length (worker_threads \<sigma>2) = length (worker_threads \<sigma>1)"
    if "destroy_completion U P i c \<sigma>1 = Inr \<sigma>2" for c \<sigma>1 \<sigma>2
    using that by (auto simp: destroy_completion_def release_op_def set_worker_def Let_def outcome_simps split: option.splits)
  assume "routine Q U P handlers drain i \<sigma> = Some (Inr \<sigma>')"
  then obtain c rq \<sigma>1 \<sigma>2 where h: "handle_completion Q P handlers drain c (set_worker i rq \<sigma>) = Some (Inr \<sigma>1)"
    and f: "flush_worker Q U i \<sigma>1 = Some (Inr \<sigma>2)" and d: "destroy_completion U P i c \<sigma>2 = Inr \<sigma>'"
    by (auto simp: routine_def bind_loop_def split: option.splits sum.splits)
  from f have "length (worker_threads \<sigma>2) = length (worker_threads \<sigma>1)"
    by (auto simp: flush_worker_def set_worker_def outcome_simps)
  with handle_completion_workers [OF h] destroy [OF d] show ?thesis by (simp add: set_worker_def)
qed

lemma service_run_workers:
  "service_run Q U P handlers drain \<sigma> \<sigma>' \<Longrightarrow> length (worker_threads \<sigma>') = length (worker_threads \<sigma>)"
  by (induction rule: service_run.induct) (simp_all add: routine_workers set_session_def)

text \<open>Every run in which routines take turns is a run of the workers that interleave.\<close>

lemma service_run_machine:
  assumes "lockfree_queue Q contents" and "service_run Q U P handlers drain \<sigma> \<sigma>'"
    and "machine_run Q U P handlers drain m (\<sigma>, all_waiting \<sigma>)"
  shows "machine_run Q U P handlers drain m (\<sigma>', all_waiting \<sigma>)"
  using assms(2,3)
proof (induction rule: service_run.induct)
  case (worker_step \<sigma> \<sigma>1 i \<sigma>2)
  then have run: "machine_run Q U P handlers drain m (\<sigma>1, all_waiting \<sigma>)" by blast
  have "length (worker_threads \<sigma>1) = length (worker_threads \<sigma>)"
    by (rule service_run_workers [OF worker_step.hyps(1)])
  then have i: "i < length (all_waiting \<sigma>)" and w: "all_waiting \<sigma> ! i = W_Wait"
    using worker_step.hyps(2) by (simp_all add: all_waiting_def)
  have "finish_routine (worker_step Q U (P i) handlers drain i) W_Wait \<sigma>1 = Some (Inr \<sigma>2)"
    using lockfree_queue.routine_undisturbed [OF assms(1) worker_step.hyps(2)] worker_step.hyps(3) by simp
  from finish_moves [OF this, of Q U P i handlers drain "all_waiting \<sigma>" m] run i w
  show ?case by (metis list_update_id)
next
  case (kernel_write \<sigma> \<sigma>1 s off bs buf)
  then show ?case by (intro kernel_writes) auto
qed simp

end
