(* ===== verification/Service_Interleaving.thy ===== *)
theory Service_Interleaving
  imports Service_Machine
begin

text \<open>
  The invariants of \<open>Service_Invariants\<close> and \<open>Receive_Windows\<close> for workers that interleave: where each operation is
  and who owns it at every point between two accesses of shared data, and that no two workers handle
  receives of one session.
\<close>

section \<open>What a worker has in its hands\<close>

fun micro_hand :: "micro \<Rightarrow> nat multiset" where
  "micro_hand (M_New s kind) = {#}"
| "micro_hand (M_Index x) = {#x#}"
| "micro_hand (M_Push x i n) = {#x#}"
| "micro_hand M_Accept_One = {#}"
| "micro_hand (M_Closed s) = {#}"

fun new_ops :: "stage \<Rightarrow> nat multiset" where
  "new_ops (W_Calls c ms) = sum_list (map micro_hand ms)"
| "new_ops (W_Request c x) = {#x#}"
| "new_ops st = {#}"

fun old_ops :: "stage \<Rightarrow> nat multiset" where
  "old_ops W_Wait = {#}"
| "old_ops (W_Handle c) = in_hand c"
| "old_ops (W_Calls c ms) = in_hand c"
| "old_ops (W_Flush c) = in_hand c"
| "old_ops (W_Pop c) = in_hand c"
| "old_ops (W_Request c x) = in_hand c"
| "old_ops (W_Seen c) = in_hand c"
| "old_ops (W_Release x) = {#x#}"

definition hand :: "stage \<Rightarrow> nat multiset" where
  "hand st = old_ops st + new_ops st"

definition hands :: "stage list \<Rightarrow> nat multiset" where
  "hands sts = sum_list (map hand sts)"

text \<open>The other workers.\<close>

definition others :: "nat \<Rightarrow> 'a list \<Rightarrow> 'a list" where
  "others i xs = take i xs @ drop (Suc i) xs"

lemma sum_list_others:
  fixes f :: "'a \<Rightarrow> 'b multiset"
  assumes "i < length xs"
  shows "sum_list (map f xs) = sum_list (map f (others i xs)) + f (xs ! i)"
    and "sum_list (map f (xs[i := y])) = sum_list (map f (others i xs)) + f y"
proof -
  have "xs = take i xs @ xs ! i # drop (Suc i) xs" using assms by (rule id_take_nth_drop)
  then have "sum_list (map f xs) = sum_list (map f (take i xs @ xs ! i # drop (Suc i) xs))" by simp
  then show "sum_list (map f xs) = sum_list (map f (others i xs)) + f (xs ! i)" by (simp add: others_def ac_simps)
  show "sum_list (map f (xs[i := y])) = sum_list (map f (others i xs)) + f y"
    using assms by (simp add: others_def upd_conv_take_nth_drop ac_simps)
qed

lemma others_set: "set (others i xs) \<subseteq> set xs"
  by (auto simp: others_def dest: in_set_takeD in_set_dropD)

lemma sum_list_member: "st \<in> set sts \<Longrightarrow> f st \<subseteq># sum_list (map f sts)"
  for f :: "'a \<Rightarrow> 'b multiset"
  by (induction sts) (auto intro: subset_mset.order_trans)

section \<open>The life of operations\<close>

fun micro_ok :: "nat \<Rightarrow> micro \<Rightarrow> bool" where
  "micro_ok n (M_New s kind) \<longleftrightarrow> s < n"
| "micro_ok n (M_Closed s) \<longleftrightarrow> False"
| "micro_ok n m \<longleftrightarrow> True"

fun stage_ok :: "nat \<Rightarrow> stage \<Rightarrow> bool" where
  "stage_ok n (W_Calls c ms) \<longleftrightarrow> list_all (micro_ok n) ms"
| "stage_ok n st \<longleftrightarrow> True"

lemma call_micro_ok: "call_ok n d \<Longrightarrow> micro_ok n (call_micro d)"
  by (cases d) simp_all

lemma call_micro_hand [simp]: "micro_hand (call_micro d) = {#}"
  by (cases d) simp_all

lemma calls_hand [simp]: "sum_list (map micro_hand (map call_micro ds)) = {#}"
  by (induction ds) simp_all

lemma calls_ok: "list_all (call_ok n) ds \<Longrightarrow> list_all (micro_ok n) (map call_micro ds)"
  by (induction ds) (simp_all add: call_micro_ok)

text \<open>What a step leaves as it is.\<close>

definition same_size :: "('q, 'r, 'p, 's) service \<Rightarrow> ('q, 'r, 'p, 's) service \<Rightarrow> bool" where
  "same_size \<sigma> \<sigma>' \<longleftrightarrow> length (sessions \<sigma>') = length (sessions \<sigma>) \<and>
     length (worker_threads \<sigma>') = length (worker_threads \<sigma>) \<and> thread_count \<sigma>' = thread_count \<sigma>"

lemma same_size_set_worker [simp]: "same_size \<sigma> (set_worker i rq \<sigma>)"
  by (simp add: same_size_def set_worker_def)

lemma set_worker_fields [simp]:
  "sessions (set_worker i rq \<sigma>) = sessions \<sigma>" "sessions_queue (set_worker i rq \<sigma>) = sessions_queue \<sigma>"
  "io_ops (set_worker i rq \<sigma>) = io_ops \<sigma>" "io_pool (set_worker i rq \<sigma>) = io_pool \<sigma>"
  "user (set_worker i rq \<sigma>) = user \<sigma>"
  by (simp_all add: set_worker_def)

context io_service
begin

lemma ok_queue_rest:
  assumes "ok H \<sigma>" and "contents (sessions_queue \<sigma>) = s # contents q"
  shows "s < length (sessions \<sigma>)" and "ok H (\<sigma>\<lparr>sessions_queue := q\<rparr>)"
  using assms by (auto simp: service_ok_def sessions_ok_def op_ok_def ops_held_def)

lemma micro_step_ok:
  assumes ok: "ok (H + micro_hand m) \<sigma>" and m: "micro_ok (length (sessions \<sigma>)) m"
    and step: "micro_step Q P m \<sigma> = Inr (ms, \<sigma>')"
  shows "ok (H + sum_list (map micro_hand ms)) \<sigma>' \<and> list_all (micro_ok (length (sessions \<sigma>'))) ms \<and>
    same_size \<sigma> \<sigma>' \<and> user \<sigma>' = user \<sigma> \<and> sessions \<sigma>' = sessions \<sigma>"
proof (cases m)
  case (M_New s kind)
  obtain r p where acq: "op_acquire P (io_type_of kind) (io_pool \<sigma>) = (r, p)" by fastforce
  have ok': "ok H \<sigma>" and s: "s < length (sessions \<sigma>)" using ok m M_New by simp_all
  show ?thesis
  proof (cases r)
    case None
    with step M_New acq acquire_none_ok [OF ok'] show ?thesis by (auto simp: same_size_def)
  next
    case (Some x)
    have "ok (add_mset x H) (\<sigma>\<lparr>io_pool := p,
        io_ops := (io_ops \<sigma>)(x \<mapsto> \<lparr>op_object = s, op_kind = kind, op_refs = 1\<rparr>), request_index := request_index \<sigma>\<rparr>)"
      by (rule acquire_ok(2) [OF ok' s]) (simp add: acq Some)
    with step M_New acq Some show ?thesis by (auto simp: same_size_def add_ref_def)
  qed
next
  case (M_Index x)
  with step obtain j where "ms = [M_Push x j 10]" "\<sigma>' = \<sigma>\<lparr>request_index := request_index \<sigma> + 1\<rparr>"
    by (auto simp: Let_def split: if_splits)
  with ok M_Index show ?thesis
    by (auto simp: same_size_def service_ok_def sessions_ok_def op_ok_def ops_held_def)
next
  case (M_Push x j n)
  show ?thesis
  proof (cases "j < 0 \<or> thread_count \<sigma> \<le> j \<or> lfq_push Q x (rq_queue (worker_threads \<sigma> ! nat j)) = None")
    case True
    with step M_Push ok service_ok_mono [of contents pending good live H "{#x#}" \<sigma>] show ?thesis
      by (auto simp: same_size_def Let_def split: if_splits)
  next
    case False
    let ?rq = "worker_threads \<sigma> ! nat j"
    from False obtain q where push: "lfq_push Q x (rq_queue ?rq) = Some q" by auto
    with step M_Push False have j: "nat j < length (worker_threads \<sigma>)" and ms: "ms = []"
      and \<sigma>': "\<sigma>' = set_worker (nat j) (?rq\<lparr>rq_queue := q\<rparr>) \<sigma>"
      by (auto simp: Let_def split: if_splits)
    have "ok H \<sigma>'" unfolding \<sigma>'
      by (rule ok_set_worker [OF ok j]) (simp add: ops_at_def push_contents [OF push] M_Push)
    with ms \<sigma>' show ?thesis by simp
  qed
next
  case M_Accept_One
  show ?thesis
  proof (cases "lfq_pop Q (sessions_queue \<sigma>)")
    case None
    with step M_Accept_One ok show ?thesis by (simp add: same_size_def)
  next
    case (Some pr)
    obtain s q where pr: "pr = (s, q)" by (cases pr)
    with Some have "contents (sessions_queue \<sigma>) = s # contents q" by (simp add: pop_Some)
    from ok_queue_rest [OF ok this] step M_Accept_One Some pr show ?thesis by (auto simp: same_size_def)
  qed
qed (use m in simp)

lemma begin_completion_ok:
  assumes ok: "ok (H + in_hand c) \<sigma>" and con: "user_contract call_ok (length (sessions \<sigma>)) I handlers drain"
    and u: "I (user \<sigma>)" and step: "begin_completion handlers drain c \<sigma> = Some (Inr (st, \<sigma>'))"
  shows "ok (H + hand st) \<sigma>' \<and> stage_ok (length (sessions \<sigma>')) st \<and> same_size \<sigma> \<sigma>' \<and> I (user \<sigma>')"
proof (cases "ic_operation c")
  case None
  with assms show ?thesis by (auto simp: begin_completion_def hand_def same_size_def)
next
  case (Some x)
  with ok obtain opn where opn: "io_ops \<sigma> x = Some opn" and s: "op_object opn < length (sessions \<sigma>)"
    by (auto simp: service_ok_def op_ok_def in_hand_def)
  let ?s = "op_object opn"
  from ok s have own: "own_actor ?s (sessions \<sigma> ! ?s)" by (simp add: service_ok_def sessions_ok_def)
  from step obtain ss' u1 ds where
    h: "handle_operation handlers opn (ic_result c) (sessions \<sigma> ! ?s) (user \<sigma>) = Some (Inr (ss', u1, ds))"
    and st: "st = W_Calls c (map call_micro (fst (drain u1) @ ds))"
    and \<sigma>': "\<sigma>' = set_session ?s ss' (\<sigma>\<lparr>user := snd (drain u1)\<rparr>)"
    using Some opn s by (auto simp: begin_completion_def outcome_simps Let_def split_beta)
  have "list_all (call_ok (length (sessions \<sigma>))) (fst (drain u1))" and u1: "I (snd (drain u1))"
    using handle_operation_user [OF h con own s u] con by (auto simp: user_contract_def)
  with handle_operation_calls [OF h own s] have ds: "list_all (call_ok (length (sessions \<sigma>))) (fst (drain u1) @ ds)"
    and own': "own_actor ?s ss'" by simp_all
  have "ok (H + in_hand c) \<sigma>'"
    using ok own' s
    by (auto simp: \<sigma>' service_ok_def sessions_ok_def set_session_def ops_held_def op_ok_def nth_list_update)
  moreover have "hand st = in_hand c" by (simp only: st hand_def old_ops.simps new_ops.simps calls_hand add_0_right)
  moreover have "length (sessions \<sigma>') = length (sessions \<sigma>)" "user \<sigma>' = snd (drain u1)"
    "worker_threads \<sigma>' = worker_threads \<sigma>" "thread_count \<sigma>' = thread_count \<sigma>"
    by (simp_all add: \<sigma>' set_session_def)
  ultimately show ?thesis using calls_ok [OF ds] u1 by (simp only: st stage_ok.simps same_size_def)
qed

lemma flush_pop_ok:
  assumes ok: "ok (H + in_hand c) \<sigma>" and i: "i < length (worker_threads \<sigma>)"
    and step: "flush_pop Q U i c \<sigma> = (st, \<sigma>')"
  shows "ok (H + hand st) \<sigma>' \<and> \<sigma>' = set_worker i (worker_threads \<sigma>' ! i) \<sigma> \<and> stage_ok n st"
proof (cases "lfq_pop Q (rq_queue (worker_threads \<sigma> ! i))")
  case None
  let ?rq = "submit U (worker_threads \<sigma> ! i)"
  have "ok (H + in_hand c) (set_worker i ?rq \<sigma>)"
    by (rule ok_set_worker [OF ok i]) (simp add: ops_at_def submit_def)
  with None step i show ?thesis by (auto simp: flush_pop_def Let_def hand_def set_worker_def)
next
  case (Some pr)
  let ?rq = "worker_threads \<sigma> ! i"
  obtain x q where pr: "pr = (x, q)" by (cases pr)
  with Some have q: "contents (rq_queue ?rq) = x # contents q" by (simp add: pop_Some)
  have "ok (H + (in_hand c + {#x#})) (set_worker i (?rq\<lparr>rq_queue := q\<rparr>) \<sigma>)"
    by (rule ok_set_worker [OF ok i]) (simp add: ops_at_def q ac_simps)
  with Some step i pr show ?thesis by (auto simp: flush_pop_def Let_def hand_def set_worker_def)
qed

lemma flush_request_ok:
  assumes ok: "ok (H + {#x#}) \<sigma>" and i: "i < length (worker_threads \<sigma>)"
    and step: "flush_request U i x \<sigma> = Inr \<sigma>'"
  shows "ok H \<sigma>' \<and> \<sigma>' = set_worker i (worker_threads \<sigma>' ! i) \<sigma>"
proof -
  let ?rq = "worker_threads \<sigma> ! i"
  obtain r where r: "op_request_io U (session_fd \<sigma>) (io_ops \<sigma>) x (rq_ring ?rq) = Inr r"
    and \<sigma>': "\<sigma>' = set_worker i (?rq\<lparr>rq_ring := r\<rparr>) \<sigma>"
    using step by (auto simp: flush_request_def Let_def outcome_simps)
  have "ok H \<sigma>'" unfolding \<sigma>'
    by (rule ok_set_worker [OF ok i]) (simp add: ops_at_def op_request_pending(1) [OF r] ac_simps)
  with i show ?thesis by (simp add: \<sigma>' set_worker_def)
qed

lemma worker_step_ok:
  assumes ok: "ok (H + hand st) \<sigma>" and st: "stage_ok (length (sessions \<sigma>)) st" and i: "i < length (worker_threads \<sigma>)"
    and con: "user_contract call_ok (length (sessions \<sigma>)) I handlers drain" and u: "I (user \<sigma>)"
    and step: "worker_step Q U P handlers drain i st \<sigma> = Some (Inr (st', \<sigma>'))"
  shows "ok (H + hand st') \<sigma>' \<and> stage_ok (length (sessions \<sigma>')) st' \<and> same_size \<sigma> \<sigma>' \<and> I (user \<sigma>')"
proof (cases st)
  case W_Wait
  with step obtain c rq where w: "wait_one U 0 (worker_threads \<sigma> ! i) = Inr (c, rq)" "st' = W_Handle c" "\<sigma>' = set_worker i rq \<sigma>"
    by (auto simp: outcome_simps)
  have "ok (H + in_hand c) \<sigma>'" unfolding w(3)
    by (rule ok_set_worker [OF ok i]) (simp add: wait_one_at [OF w(1)] W_Wait hand_def)
  with w u show ?thesis by (simp add: hand_def)
next
  case (W_Handle c)
  with begin_completion_ok [of H c \<sigma> I handlers drain st' \<sigma>'] ok con u step show ?thesis by (simp add: hand_def)
next
  case (W_Calls c ms)
  show ?thesis
  proof (cases ms)
    case Nil
    with W_Calls ok step u show ?thesis by (auto simp: hand_def same_size_def)
  next
    case (Cons m ms1)
    from step W_Calls Cons obtain ms2 where m: "micro_step Q P m \<sigma> = Inr (ms2, \<sigma>')" and st': "st' = W_Calls c (ms2 @ ms1)"
      by (auto simp: outcome_simps)
    have ok1: "ok (H + in_hand c + sum_list (map micro_hand ms1) + micro_hand m) \<sigma>"
      and m_ok: "micro_ok (length (sessions \<sigma>)) m" and ms_ok: "list_all (micro_ok (length (sessions \<sigma>))) ms1"
      using ok st W_Calls Cons by (simp_all add: hand_def ac_simps)
    from micro_step_ok [OF ok1 m_ok m] ms_ok u st' show ?thesis by (auto simp: hand_def ac_simps same_size_def)
  qed
next
  case (W_Flush c)
  with ok step u show ?thesis by (auto simp: hand_def same_size_def)
next
  case (W_Pop c)
  with flush_pop_ok [of H c \<sigma> i st' \<sigma>'] ok i step u show ?thesis
    by (auto simp: hand_def) (metis same_size_set_worker, metis set_worker_fields(5))
next
  case (W_Request c x)
  from step W_Request obtain \<sigma>1 where r: "flush_request U i x \<sigma> = Inr \<sigma>1" and s: "st' = W_Pop c" "\<sigma>' = \<sigma>1"
    by (auto simp: outcome_simps)
  have "ok (H + in_hand c + {#x#}) \<sigma>" using ok W_Request by (simp add: hand_def ac_simps)
  from flush_request_ok [OF this i r] s u show ?thesis
    by (auto simp: hand_def) (metis same_size_set_worker, metis set_worker_fields(5))
next
  case (W_Seen c)
  let ?rq = "worker_threads \<sigma> ! i"
  have "ok (H + in_hand c) (set_worker i (?rq\<lparr>rq_ring := completion_seen U c (rq_ring ?rq)\<rparr>) \<sigma>)"
    by (rule ok_set_worker [OF ok i]) (simp add: ops_at_def completion_seen_def W_Seen hand_def)
  with W_Seen step u show ?thesis by (auto simp: Let_def hand_def in_hand_def split: option.splits)
next
  case (W_Release x)
  from step W_Release obtain \<sigma>1 where r: "release_op P x \<sigma> = Inr \<sigma>1" and s: "st' = W_Wait" "\<sigma>' = \<sigma>1"
    by (auto simp: outcome_simps)
  have ok1: "ok (add_mset x H) \<sigma>" using ok W_Release by (simp add: hand_def)
  have "thread_count \<sigma>1 = thread_count \<sigma>" using r by (auto simp: release_op_def outcome_simps split: option.splits)
  with release_op_ok [OF ok1 r] s u show ?thesis by (simp add: hand_def same_size_def)
qed

end

section \<open>Seats\<close>

text \<open>
  An accept or a receive takes the place of its session: it has a seat from the moment it is asked for
  to the moment its completion is handled. A seat carries the operation, so that its window can be compared
  with the session's buffer.
\<close>

definition seats :: "(nat \<Rightarrow> io_operation option) \<Rightarrow> nat multiset \<Rightarrow> (nat \<times> io_kind) multiset" where
  "seats ops M = image_mset (\<lambda>x. (op_object (the (ops x)), op_kind (the (ops x))))
     (filter_mset (\<lambda>x. \<exists>opn. ops x = Some opn \<and> takes_slot (op_kind opn)) M)"

definition seat :: "nat \<Rightarrow> io_kind \<Rightarrow> (nat \<times> io_kind) multiset" where
  "seat s kind = (if takes_slot kind then {#(s, kind)#} else {#})"

fun micro_claim :: "micro \<Rightarrow> (nat \<times> io_kind) multiset" where
  "micro_claim (M_New s kind) = seat s kind"
| "micro_claim m = {#}"

fun seated_ops :: "stage \<Rightarrow> nat multiset" where
  "seated_ops (W_Handle c) = in_hand c"
| "seated_ops st = new_ops st"

fun claims :: "stage \<Rightarrow> (nat \<times> io_kind) multiset" where
  "claims (W_Calls c ms) = sum_list (map micro_claim ms)"
| "claims st = {#}"

definition stage_seats :: "(nat \<Rightarrow> io_operation option) \<Rightarrow> stage \<Rightarrow> (nat \<times> io_kind) multiset" where
  "stage_seats ops st = seats ops (seated_ops st) + claims st"

definition windows_at :: "('q \<Rightarrow> nat list) \<Rightarrow> (nat \<times> io_kind) multiset \<Rightarrow> ('q, 'r, 'p, 's) service \<Rightarrow> bool" where
  "windows_at contents Z \<sigma> \<longleftrightarrow>
     (\<forall>s. count (mset (contents (sessions_queue \<sigma>)) + image_mset fst Z) s \<le> 1) \<and>
     (\<forall>s off len. (s, Io_Recv off len) \<in># Z \<longrightarrow> (off, len) = get_remain_span (sessions \<sigma> ! s)) \<and>
     (\<forall>ss\<in>set (sessions \<sigma>). session_ok ss)"

lemma seats_union [simp]: "seats ops (M + N) = seats ops M + seats ops N"
  by (simp add: seats_def)

lemma seats_empty [simp]: "seats ops {#} = {#}"
  by (simp add: seats_def)

definition seat_of :: "(nat \<Rightarrow> io_operation option) \<Rightarrow> nat \<Rightarrow> (nat \<times> io_kind) multiset" where
  "seat_of ops x = (case ops x of None \<Rightarrow> {#} | Some opn \<Rightarrow> seat (op_object opn) (op_kind opn))"

lemma seats_add [simp]: "seats ops (add_mset x M) = seat_of ops x + seats ops M"
  by (auto simp: seats_def seat_def seat_of_def split: option.split)

lemma seats_mono: "M \<subseteq># N \<Longrightarrow> seats ops M \<subseteq># seats ops N"
  by (simp add: seats_def image_mset_subseteq_mono multiset_filter_mono)

lemma seats_cong:
  assumes "\<And>x. x \<in># M \<Longrightarrow> ops' x = ops x"
  shows "seats ops' M = seats ops M"
proof -
  have "filter_mset (\<lambda>x. \<exists>opn. ops' x = Some opn \<and> takes_slot (op_kind opn)) M =
      filter_mset (\<lambda>x. \<exists>opn. ops x = Some opn \<and> takes_slot (op_kind opn)) M"
    using assms by (intro filter_mset_cong) auto
  then show ?thesis unfolding seats_def using assms by (auto intro!: image_mset_cong)
qed

lemma seats_fresh: "x \<notin># M \<Longrightarrow> seats (ops(x := r)) M = seats ops M"
  by (rule seats_cong) auto

lemma windows_less:
  assumes "windows_at contents Z \<sigma>" and "Z' \<subseteq># Z"
    and "sessions \<sigma>' = sessions \<sigma>" and "sessions_queue \<sigma>' = sessions_queue \<sigma>"
  shows "windows_at contents Z' \<sigma>'"
proof -
  have "count (image_mset fst Z') s \<le> count (image_mset fst Z) s" for s
    using assms(2) by (simp add: image_mset_subseteq_mono mset_subset_eq_count)
  then have "count (mset (contents (sessions_queue \<sigma>)) + image_mset fst Z') s \<le>
      count (mset (contents (sessions_queue \<sigma>)) + image_mset fst Z) s" for s
    by simp
  moreover have "count (mset (contents (sessions_queue \<sigma>)) + image_mset fst Z) s \<le> 1" for s
    using assms(1) unfolding windows_at_def by blast
  ultimately have "count (mset (contents (sessions_queue \<sigma>)) + image_mset fst Z') s \<le> 1" for s
    by (rule le_trans)
  moreover have "(s, Io_Recv off len) \<in># Z' \<longrightarrow> (off, len) = get_remain_span (sessions \<sigma> ! s)" for s off len
    using assms(1) mset_subset_eqD [OF assms(2)] unfolding windows_at_def by blast
  ultimately show ?thesis using assms(1) unfolding windows_at_def assms(3,4) by blast
qed

lemma windows_set_session:
  assumes "windows_at contents Z \<sigma>" and "session_ok ss"
    and "s \<notin># image_mset fst Z \<or> get_remain_span ss = get_remain_span (sessions \<sigma> ! s)"
  shows "windows_at contents Z (set_session s ss \<sigma>)"
proof -
  have "(off, len) = get_remain_span ((sessions \<sigma>)[s := ss] ! k)" if "(k, Io_Recv off len) \<in># Z" for k off len
  proof -
    have "(off, len) = get_remain_span (sessions \<sigma> ! k)" using that assms(1) by (simp add: windows_at_def)
    moreover have "k \<in># image_mset fst Z" using that by force
    ultimately show ?thesis using assms(3) by (cases "k = s"; cases "s < length (sessions \<sigma>)") (auto simp: not_less list_update_beyond)
  qed
  moreover have "\<forall>ss'\<in>set ((sessions \<sigma>)[s := ss]). session_ok ss'"
    using assms(1,2) set_update_subset_insert [of "sessions \<sigma>" s ss] by (auto simp: windows_at_def)
  ultimately show ?thesis using assms(1) by (simp add: windows_at_def set_session_def)
qed

lemma windows_claim:
  assumes "windows_at contents Z \<sigma>" and "count (mset (contents (sessions_queue \<sigma>)) + image_mset fst Z) s = 0"
    and "\<And>off len. kind = Io_Recv off len \<Longrightarrow> (off, len) = get_remain_span (sessions \<sigma> ! s)"
  shows "windows_at contents (Z + {#(s, kind)#}) \<sigma>"
proof -
  have "count (mset (contents (sessions_queue \<sigma>)) + image_mset fst Z) k \<le> 1" for k
    using assms(1) unfolding windows_at_def by blast
  then have "count (mset (contents (sessions_queue \<sigma>)) + image_mset fst (Z + {#(s, kind)#})) k \<le> 1" for k
    using assms(2) by (cases "k = s") (simp_all add: add_eq_0_iff_both_eq_0)
  then show ?thesis using assms(1,3) unfolding windows_at_def by auto
qed

text \<open>The result of a receive whose completion is at hand is within its window.\<close>

fun stage_fits :: "(nat \<Rightarrow> io_operation option) \<Rightarrow> stage \<Rightarrow> bool" where
  "stage_fits ops (W_Handle c) \<longleftrightarrow> (\<forall>x opn off len. ic_operation c = Some x \<longrightarrow> ops x = Some opn \<longrightarrow>
     op_kind opn = Io_Recv off len \<longrightarrow> ic_result c \<le> int len)"
| "stage_fits ops st \<longleftrightarrow> True"

lemma windows_same:
  "windows_at contents Z \<sigma> \<Longrightarrow> Z' = Z \<Longrightarrow> sessions \<sigma>' = sessions \<sigma> \<Longrightarrow> sessions_queue \<sigma>' = sessions_queue \<sigma> \<Longrightarrow>
     windows_at contents Z' \<sigma>'"
  by (rule windows_less) auto

lemma ops_held_simps [simp]:
  "ops_held contents pending (\<sigma>\<lparr>io_pool := p\<rparr>) = ops_held contents pending \<sigma>"
  "ops_held contents pending (\<sigma>\<lparr>io_ops := f\<rparr>) = ops_held contents pending \<sigma>"
  "ops_held contents pending (\<sigma>\<lparr>request_index := k\<rparr>) = ops_held contents pending \<sigma>"
  "ops_held contents pending (\<sigma>\<lparr>sessions_queue := q\<rparr>) = ops_held contents pending \<sigma>"
  "ops_held contents pending (\<sigma>\<lparr>user := u\<rparr>) = ops_held contents pending \<sigma>"
  "ops_held contents pending (set_session s ss \<sigma>) = ops_held contents pending \<sigma>"
  by (simp_all add: ops_held_def set_session_def)

lemma ops_held_moved:
  assumes "i < length (worker_threads \<sigma>)"
    and "ops_at contents pending rq + A = ops_at contents pending (worker_threads \<sigma> ! i) + B"
  shows "ops_held contents pending (set_worker i rq \<sigma>) + A = ops_held contents pending \<sigma> + B"
proof -
  have "(ops_held contents pending (set_worker i rq \<sigma>) + A) + ops_at contents pending (worker_threads \<sigma> ! i) =
      (ops_held contents pending \<sigma> + ops_at contents pending rq) + A"
    using ops_held_set_worker [OF assms(1), of contents pending rq] by (simp add: ac_simps)
  also have "\<dots> = (ops_held contents pending \<sigma> + B) + ops_at contents pending (worker_threads \<sigma> ! i)"
    using assms(2) by (simp add: ac_simps)
  finally show ?thesis by simp
qed

context io_service
begin

lemma micro_step_ops:
  assumes "ok (H + micro_hand m) \<sigma>" and "micro_ok (length (sessions \<sigma>)) m"
    and "micro_step Q P m \<sigma> = Inr (ms, \<sigma>')" and "x \<in># H"
  shows "io_ops \<sigma>' x = io_ops \<sigma> x"
proof (cases m)
  case (M_New s kind)
  with assms(1,2) have ok: "ok H \<sigma>" and s: "s < length (sessions \<sigma>)" by simp_all
  obtain r p where acq: "op_acquire P (io_type_of kind) (io_pool \<sigma>) = (r, p)" by fastforce
  show ?thesis
  proof (cases r)
    case (Some y)
    with acquire_ok(1) [OF ok s, of kind y p] acq assms(4) have "y \<noteq> x" by auto
    with assms(3) M_New acq Some show ?thesis by auto
  qed (use assms(3) M_New acq in auto)
qed (use assms(3) in \<open>auto simp: Let_def split: if_splits option.splits\<close>)

lemma micro_step_windows:
  assumes ok: "ok (H + micro_hand m) \<sigma>" and m: "micro_ok (length (sessions \<sigma>)) m"
    and win: "windows_at contents (R + (seats (io_ops \<sigma>) (ops_held contents pending \<sigma> + micro_hand m) + micro_claim m)) \<sigma>"
    and step: "micro_step Q P m \<sigma> = Inr (ms, \<sigma>')"
  shows "windows_at contents (R + (seats (io_ops \<sigma>') (ops_held contents pending \<sigma>' + sum_list (map micro_hand ms)) +
    sum_list (map micro_claim ms))) \<sigma>'"
proof (cases m)
  case (M_New s kind)
  with ok m have ok': "ok H \<sigma>" and s: "s < length (sessions \<sigma>)" by simp_all
  obtain r p where acq: "op_acquire P (io_type_of kind) (io_pool \<sigma>) = (r, p)" by fastforce
  show ?thesis
  proof (cases r)
    case None
    with step M_New acq have "ms = []" "\<sigma>' = \<sigma>\<lparr>io_pool := p\<rparr>" by simp_all
    then show ?thesis by (intro windows_less [OF win]) simp_all
  next
    case (Some x)
    with acquire_ok(1) [OF ok' s, of kind x p] acq have x: "x \<notin># ops_held contents pending \<sigma>" by simp
    from step M_New acq Some have "ms = [M_Index x]" and \<sigma>': "\<sigma>' = \<sigma>\<lparr>io_pool := p,
        io_ops := (io_ops \<sigma>)(x \<mapsto> \<lparr>op_object = s, op_kind = kind, op_refs = 1\<rparr>)\<rparr>"
      by (auto simp: add_ref_def)
    then show ?thesis
      by (intro windows_same [OF win]) (simp_all add: M_New seats_fresh [OF x] seat_of_def)
  qed
next
  case (M_Index x)
  with step obtain j where "ms = [M_Push x j 10]" "\<sigma>' = \<sigma>\<lparr>request_index := request_index \<sigma> + 1\<rparr>"
    by (auto simp: Let_def split: if_splits)
  then show ?thesis by (intro windows_same [OF win]) (simp_all add: M_Index)
next
  case (M_Push x j n)
  show ?thesis
  proof (cases "j < 0 \<or> thread_count \<sigma> \<le> j \<or> lfq_push Q x (rq_queue (worker_threads \<sigma> ! nat j)) = None")
    case True
    with step M_Push have "\<sigma>' = \<sigma>" "ms = [] \<or> ms = [M_Push x j (n - 1)]"
      by (auto simp: Let_def split: if_splits)
    then show ?thesis by (intro windows_less [OF win]) (auto simp: M_Push)
  next
    case False
    let ?rq = "worker_threads \<sigma> ! nat j"
    from False obtain q where push: "lfq_push Q x (rq_queue ?rq) = Some q" by auto
    with step M_Push False have j: "nat j < length (worker_threads \<sigma>)" and ms: "ms = []"
      and \<sigma>': "\<sigma>' = set_worker (nat j) (?rq\<lparr>rq_queue := q\<rparr>) \<sigma>"
      by (auto simp: Let_def split: if_splits)
    have "ops_held contents pending \<sigma>' + {#} = ops_held contents pending \<sigma> + {#x#}" unfolding \<sigma>'
      by (rule ops_held_moved [OF j]) (simp add: ops_at_def push_contents [OF push])
    then have "ops_held contents pending \<sigma>' = ops_held contents pending \<sigma> + {#x#}" by simp
    then show ?thesis by (intro windows_same [OF win]) (simp_all add: M_Push ms, simp_all add: \<sigma>')
  qed
next
  case M_Accept_One
  show ?thesis
  proof (cases "lfq_pop Q (sessions_queue \<sigma>)")
    case None
    with step M_Accept_One have "ms = []" "\<sigma>' = \<sigma>" by simp_all
    with win M_Accept_One show ?thesis by simp
  next
    case (Some pr)
    obtain s q where pr: "pr = (s, q)" by (cases pr)
    with Some have q: "contents (sessions_queue \<sigma>) = s # contents q" by (simp add: pop_Some)
    have seat: "seat s (Io_Accept fd) = {#(s, Io_Accept fd)#}" for fd by (simp add: seat_def)
    from step M_Accept_One Some pr have "ms = [M_New s (Io_Accept (acceptor_fd \<sigma>))]" "\<sigma>' = \<sigma>\<lparr>sessions_queue := q\<rparr>"
      by simp_all
    then show ?thesis using win by (auto simp: windows_at_def M_Accept_One q seat)
  qed
qed (use m in simp)

definition own_seats :: "('q, 'r, 'p, 's) service \<Rightarrow> stage \<Rightarrow> (nat \<times> io_kind) multiset" where
  "own_seats \<sigma> st = seats (io_ops \<sigma>) (ops_held contents pending \<sigma>) + stage_seats (io_ops \<sigma>) st"

lemma user_call_claim: "user_call n d \<Longrightarrow> micro_claim (call_micro d) = {#}"
  by (cases d) (simp_all add: seat_def)

lemma user_calls_claims: "list_all (user_call n) ds \<Longrightarrow> sum_list (map micro_claim (map call_micro ds)) = {#}"
  by (induction ds) (auto dest: user_call_claim)

lemma begin_completion_windows:
  assumes ok: "ok (H + in_hand c) \<sigma>" and win: "windows_at contents (R + own_seats \<sigma> (W_Handle c)) \<sigma>"
    and con: "user_contract user_call (length (sessions \<sigma>)) I handlers drain" and u: "I (user \<sigma>)"
    and keep: "handlers_keep_header handlers" and fits: "stage_fits (io_ops \<sigma>) (W_Handle c)"
    and step: "begin_completion handlers drain c \<sigma> = Some (Inr (st, \<sigma>'))"
  shows "windows_at contents (R + own_seats \<sigma>' st) \<sigma>'"
proof (cases "ic_operation c")
  case None
  with win step show ?thesis by (auto simp: begin_completion_def own_seats_def stage_seats_def in_hand_def)
next
  case (Some x)
  with ok obtain opn where opn: "io_ops \<sigma> x = Some opn" and s: "op_object opn < length (sessions \<sigma>)"
    by (auto simp: service_ok_def op_ok_def in_hand_def)
  let ?s = "op_object opn" and ?kind = "op_kind opn"
  let ?ss = "sessions \<sigma> ! ?s" and ?Z = "R + seats (io_ops \<sigma>) (ops_held contents pending \<sigma>)"
  have win: "windows_at contents (?Z + seat ?s ?kind) \<sigma>"
    using win Some opn by (simp add: own_seats_def stage_seats_def in_hand_def seat_of_def ac_simps)
  then have winZ: "windows_at contents ?Z \<sigma>" by (rule windows_less) simp_all
  have own: "own_actor ?s ?ss" and ss: "session_ok ?ss"
    using ok win s by (auto simp: service_ok_def sessions_ok_def windows_at_def)
  from step obtain ss' u1 ds where
    h: "handle_operation handlers opn (ic_result c) ?ss (user \<sigma>) = Some (Inr (ss', u1, ds))"
    and st: "st = W_Calls c (map call_micro (fst (drain u1) @ ds))"
    and \<sigma>': "\<sigma>' = set_session ?s ss' (\<sigma>\<lparr>user := snd (drain u1)\<rparr>)"
    using Some opn s by (auto simp: begin_completion_def outcome_simps Let_def split_beta)
  have recv: "(off, len) = get_remain_span ?ss \<and> ic_result c \<le> int len" if k: "?kind = Io_Recv off len" for off len
  proof -
    have "(?s, Io_Recv off len) \<in># ?Z + seat ?s ?kind" by (simp add: k seat_def)
    with win have "(off, len) = get_remain_span ?ss" unfolding windows_at_def by blast
    with fits Some opn k show ?thesis by simp
  qed
  note h' = handle_operation_windows [OF h ss keep own s recv]
  have free: "count (mset (contents (sessions_queue \<sigma>)) + image_mset fst ?Z) ?s = 0" if "takes_slot ?kind"
  proof -
    have "count (mset (contents (sessions_queue \<sigma>)) + image_mset fst (?Z + seat ?s ?kind)) ?s \<le> 1"
      using win unfolding windows_at_def by blast
    then show ?thesis using that by (simp add: seat_def)
  qed
  have "windows_at contents ?Z (\<sigma>\<lparr>user := snd (drain u1)\<rparr>)" by (rule windows_same [OF winZ]) simp_all
  moreover have "?s \<notin># image_mset fst ?Z \<or> get_remain_span ss' = get_remain_span ?ss"
    using h' free by (cases "takes_slot ?kind") (auto simp: count_eq_zero_iff)
  ultimately have win': "windows_at contents ?Z \<sigma>'" unfolding \<sigma>' using h' by (intro windows_set_session) auto
  have uc: "list_all (user_call (length (sessions \<sigma>))) (fst (drain u1))"
    using handle_operation_user [OF h con own s u] con by (simp add: user_contract_def)
  have fr: "io_ops \<sigma>' = io_ops \<sigma>" "ops_held contents pending \<sigma>' = ops_held contents pending \<sigma>"
    by (simp_all add: \<sigma>') (simp add: set_session_def)
  have same: "own_seats \<sigma>' st = seats (io_ops \<sigma>) (ops_held contents pending \<sigma>) + sum_list (map micro_claim (map call_micro ds))"
  proof -
    have "sum_list (map micro_claim (map call_micro (fst (drain u1) @ ds))) = sum_list (map micro_claim (map call_micro ds))"
      using user_calls_claims [OF uc] by simp
    then show ?thesis
      unfolding own_seats_def stage_seats_def st seated_ops.simps new_ops.simps calls_hand claims.simps
      by (simp add: fr del: map_append map_map)
  qed
  from h' consider "list_all (user_call (length (sessions \<sigma>))) ds"
    | rest where "takes_slot ?kind" "ds = request_receive ?s True ss' @ rest" "rest = [] \<or> rest = [Call_Accept_One]"
    by (auto simp: next_calls_def)
  then show ?thesis
  proof cases
    case 1
    then show ?thesis using win' user_calls_claims same by simp
  next
    case 2
    let ?w = "get_remain_span ss'"
    have claim: "sum_list (map micro_claim (map call_micro ds)) = {#(?s, Io_Recv (fst ?w) (snd ?w))#}"
      using 2 by (auto simp: request_receive_def split_beta seat_def)
    have "sessions_queue \<sigma>' = sessions_queue \<sigma>" "sessions \<sigma>' ! ?s = ss'" using s by (simp_all add: \<sigma>' set_session_def)
    with windows_claim [OF win', of ?s "Io_Recv (fst ?w) (snd ?w)"] free 2(1) show ?thesis
      by (simp add: same claim del: map_map)
  qed
qed

text \<open>Only a release and the construction of an operation change \<open>io_ops\<close>, not for operations in other hands.\<close>

lemma release_op_ops:
  assumes "ok (add_mset x H) \<sigma>" and "release_op P x \<sigma> = Inr \<sigma>'"
  shows "\<exists>p. \<sigma>' = \<sigma>\<lparr>io_ops := (io_ops \<sigma>)(x := None), io_pool := p\<rparr>"
    and "x \<notin># ops_held contents pending \<sigma> + H"
proof -
  from assms(1) have "op_ok live \<sigma> x" by (simp add: service_ok_def)
  with assms(2) show "\<exists>p. \<sigma>' = \<sigma>\<lparr>io_ops := (io_ops \<sigma>)(x := None), io_pool := p\<rparr>"
    by (auto simp: op_ok_def release_op_def)
  have "count (ops_held contents pending \<sigma> + add_mset x H) x \<le> 1" using assms(1) unfolding service_ok_def by blast
  then show "x \<notin># ops_held contents pending \<sigma> + H" by (simp add: not_in_iff)
qed

lemma worker_step_ops:
  assumes ok: "ok (H + hand st) \<sigma>" and st: "stage_ok (length (sessions \<sigma>)) st"
    and step: "worker_step Q U P handlers drain i st \<sigma> = Some (Inr (st', \<sigma>'))" and x: "x \<in># H"
  shows "io_ops \<sigma>' x = io_ops \<sigma> x"
proof (cases st)
  case (W_Handle c)
  with step show ?thesis
    by (auto simp: begin_completion_def outcome_simps Let_def split_beta set_session_def split: option.splits if_splits)
next
  case (W_Calls c ms)
  show ?thesis
  proof (cases ms)
    case (Cons m ms1)
    from step W_Calls Cons obtain ms2 where m: "micro_step Q P m \<sigma> = Inr (ms2, \<sigma>')" by (auto simp: outcome_simps)
    have "ok (H + in_hand c + sum_list (map micro_hand ms1) + micro_hand m) \<sigma>" "micro_ok (length (sessions \<sigma>)) m"
      using ok st W_Calls Cons by (simp_all add: hand_def ac_simps)
    from micro_step_ops [OF this m] x show ?thesis by simp
  qed (use step W_Calls in simp)
next
  case (W_Release y)
  with step obtain \<sigma>1 where r: "release_op P y \<sigma> = Inr \<sigma>1" "\<sigma>' = \<sigma>1" by (auto simp: outcome_simps)
  have "ok (add_mset y H) \<sigma>" using ok W_Release by (simp add: hand_def)
  from release_op_ops [OF this r(1)] r(2) x show ?thesis by auto
qed (use step in \<open>auto simp: outcome_simps flush_pop_def flush_request_def Let_def split: option.splits\<close>)

lemma worker_step_windows:
  assumes ok: "ok (H + hand st) \<sigma>" and st: "stage_ok (length (sessions \<sigma>)) st" and i: "i < length (worker_threads \<sigma>)"
    and win: "windows_at contents (R + own_seats \<sigma> st) \<sigma>"
    and con: "user_contract user_call (length (sessions \<sigma>)) I handlers drain" and u: "I (user \<sigma>)"
    and keep: "handlers_keep_header handlers" and fits: "stage_fits (io_ops \<sigma>) st"
    and step: "worker_step Q U P handlers drain i st \<sigma> = Some (Inr (st', \<sigma>'))"
  shows "windows_at contents (R + own_seats \<sigma>' st') \<sigma>'"
proof (cases st)
  case W_Wait
  with step obtain c rq where w: "wait_one U 0 (worker_threads \<sigma> ! i) = Inr (c, rq)" "st' = W_Handle c" "\<sigma>' = set_worker i rq \<sigma>"
    by (auto simp: outcome_simps)
  have "ops_held contents pending \<sigma>' + in_hand c = ops_held contents pending \<sigma> + {#}" unfolding w(3)
    by (rule ops_held_moved [OF i]) (simp add: wait_one_at [OF w(1)])
  then have "ops_held contents pending \<sigma> = ops_held contents pending \<sigma>' + in_hand c" by simp
  then show ?thesis using W_Wait w by (intro windows_same [OF win]) (simp_all add: own_seats_def stage_seats_def ac_simps)
next
  case (W_Handle c)
  with begin_completion_windows [of H c \<sigma> R I handlers drain st' \<sigma>'] ok win con u keep fits step
  show ?thesis by (simp add: hand_def)
next
  case (W_Calls c ms)
  show ?thesis
  proof (cases ms)
    case Nil
    with W_Calls step win show ?thesis by (auto simp: own_seats_def stage_seats_def)
  next
    case (Cons m ms1)
    let ?N = "sum_list (map micro_hand ms1)" and ?C = "sum_list (map micro_claim ms1)"
    from step W_Calls Cons obtain ms2 where m: "micro_step Q P m \<sigma> = Inr (ms2, \<sigma>')" and st': "st' = W_Calls c (ms2 @ ms1)"
      by (auto simp: outcome_simps)
    have ok1: "ok (H + in_hand c + ?N + micro_hand m) \<sigma>" and m_ok: "micro_ok (length (sessions \<sigma>)) m"
      using ok st W_Calls Cons by (simp_all add: hand_def ac_simps)
    have "seats (io_ops \<sigma>') ?N = seats (io_ops \<sigma>) ?N"
      by (rule seats_cong, rule micro_step_ops [OF ok1 m_ok m]) simp
    moreover have "windows_at contents (R + seats (io_ops \<sigma>) ?N + ?C +
        (seats (io_ops \<sigma>) (ops_held contents pending \<sigma> + micro_hand m) + micro_claim m)) \<sigma>"
      using win W_Calls Cons by (simp add: own_seats_def stage_seats_def ac_simps)
    note micro_step_windows [OF ok1 m_ok this m]
    ultimately show ?thesis by (simp add: st' own_seats_def stage_seats_def ac_simps)
  qed
next
  case (W_Flush c)
  with step win show ?thesis by (auto simp: own_seats_def stage_seats_def)
next
  case (W_Pop c)
  let ?rq = "worker_threads \<sigma> ! i"
  show ?thesis
  proof (cases "lfq_pop Q (rq_queue ?rq)")
    case None
    with W_Pop step have s: "st' = W_Seen c" "\<sigma>' = set_worker i (submit U ?rq) \<sigma>" by (simp_all add: flush_pop_def Let_def)
    have "ops_held contents pending \<sigma>' + {#} = ops_held contents pending \<sigma> + {#}" unfolding s(2)
      by (rule ops_held_moved [OF i]) (simp add: ops_at_def submit_def)
    then have "ops_held contents pending \<sigma>' = ops_held contents pending \<sigma>" by simp
    then show ?thesis using s W_Pop by (intro windows_same [OF win]) (simp_all add: own_seats_def stage_seats_def)
  next
    case (Some pr)
    obtain x q where pr: "pr = (x, q)" by (cases pr)
    with Some have q: "contents (rq_queue ?rq) = x # contents q" by (simp add: pop_Some)
    from Some pr W_Pop step have s: "st' = W_Request c x" "\<sigma>' = set_worker i (?rq\<lparr>rq_queue := q\<rparr>) \<sigma>"
      by (simp_all add: flush_pop_def Let_def)
    have "ops_held contents pending \<sigma>' + {#x#} = ops_held contents pending \<sigma> + {#}" unfolding s(2)
      by (rule ops_held_moved [OF i]) (simp add: ops_at_def q)
    then have "ops_held contents pending \<sigma> = ops_held contents pending \<sigma>' + {#x#}" by simp
    then show ?thesis using s W_Pop by (intro windows_same [OF win]) (simp_all add: own_seats_def stage_seats_def)
  qed
next
  case (W_Request c x)
  let ?rq = "worker_threads \<sigma> ! i"
  from step W_Request obtain r where r: "op_request_io U (session_fd \<sigma>) (io_ops \<sigma>) x (rq_ring ?rq) = Inr r"
    and s: "st' = W_Pop c" "\<sigma>' = set_worker i (?rq\<lparr>rq_ring := r\<rparr>) \<sigma>"
    by (auto simp: flush_request_def Let_def outcome_simps)
  have "ops_held contents pending \<sigma>' + {#} = ops_held contents pending \<sigma> + {#x#}" unfolding s(2)
    by (rule ops_held_moved [OF i]) (simp add: ops_at_def op_request_pending(1) [OF r])
  then have "ops_held contents pending \<sigma>' = ops_held contents pending \<sigma> + {#x#}" by simp
  then show ?thesis using s W_Request by (intro windows_same [OF win]) (simp_all add: own_seats_def stage_seats_def)
next
  case (W_Seen c)
  let ?rq = "worker_threads \<sigma> ! i"
  from W_Seen step have s: "st' = W_Wait \<or> (\<exists>x. st' = W_Release x)"
    "\<sigma>' = set_worker i (?rq\<lparr>rq_ring := completion_seen U c (rq_ring ?rq)\<rparr>) \<sigma>"
    by (auto simp: Let_def split: option.splits)
  have "ops_held contents pending \<sigma>' + {#} = ops_held contents pending \<sigma> + {#}" unfolding s(2)
    by (rule ops_held_moved [OF i]) (simp add: ops_at_def completion_seen_def)
  then have "ops_held contents pending \<sigma>' = ops_held contents pending \<sigma>" by simp
  then show ?thesis using s W_Seen by (intro windows_same [OF win]) (auto simp: own_seats_def stage_seats_def)
next
  case (W_Release x)
  from step W_Release obtain \<sigma>1 where r: "release_op P x \<sigma> = Inr \<sigma>1" and s: "st' = W_Wait" "\<sigma>' = \<sigma>1"
    by (auto simp: outcome_simps)
  have "ok (add_mset x H) \<sigma>" using ok W_Release by (simp add: hand_def)
  note rel = release_op_ops [OF this r]
  then have x: "x \<notin># ops_held contents pending \<sigma>" by simp
  from rel(1) s obtain p where "\<sigma>' = \<sigma>\<lparr>io_ops := (io_ops \<sigma>)(x := None), io_pool := p\<rparr>" by blast
  then show ?thesis using s W_Release
    by (intro windows_same [OF win]) (simp_all add: own_seats_def stage_seats_def seats_fresh [OF x])
qed

lemma wait_step_fits:
  assumes fit: "results_fit U i \<sigma>" and step: "worker_step Q U P handlers drain i st \<sigma> = Some (Inr (st', \<sigma>'))"
  shows "stage_fits (io_ops \<sigma>') st'"
proof (cases st)
  case W_Wait
  with step obtain c rq where w: "wait_one U 0 (worker_threads \<sigma> ! i) = Inr (c, rq)" "st' = W_Handle c" "\<sigma>' = set_worker i rq \<sigma>"
    by (auto simp: outcome_simps)
  have "ic_result c \<le> int len"
    if "ic_operation c = Some x" "io_ops \<sigma> x = Some opn" "op_kind opn = Io_Recv off len" for x opn off len
    using wait_one_result [OF w(1) that(1)] fit that(2,3) unfolding results_fit_def by blast
  with w show ?thesis by simp
next
  case (W_Calls c ms)
  with step show ?thesis by (cases ms) (auto simp: outcome_simps)
qed (use step in \<open>auto simp: outcome_simps begin_completion_def flush_pop_def Let_def split_beta
    split: option.splits if_splits\<close>)

end

section \<open>Runs\<close>

definition machine_ok ::
    "('q \<Rightarrow> nat list) \<Rightarrow> ('r \<Rightarrow> nat multiset) \<Rightarrow> ('p \<Rightarrow> bool) \<Rightarrow> ('p \<Rightarrow> nat \<Rightarrow> io_type option)
       \<Rightarrow> ('s \<Rightarrow> bool) \<Rightarrow> ('q, 'r, 'p, 's) machine \<Rightarrow> bool" where
  "machine_ok contents pending good live I = (\<lambda>(\<sigma>, sts).
     service_ok contents pending good live (hands sts) \<sigma> \<and> (\<forall>st\<in>set sts. stage_ok (length (sessions \<sigma>)) st) \<and>
     length sts = length (worker_threads \<sigma>) \<and> I (user \<sigma>))"

definition all_seats ::
    "('q \<Rightarrow> nat list) \<Rightarrow> ('r \<Rightarrow> nat multiset) \<Rightarrow> ('q, 'r, 'p, 's) machine \<Rightarrow> (nat \<times> io_kind) multiset" where
  "all_seats contents pending = (\<lambda>(\<sigma>, sts).
     seats (io_ops \<sigma>) (ops_held contents pending \<sigma>) + sum_list (map (stage_seats (io_ops \<sigma>)) sts))"

definition machine_windows ::
    "('q \<Rightarrow> nat list) \<Rightarrow> ('r \<Rightarrow> nat multiset) \<Rightarrow> ('q, 'r, 'p, 's) machine \<Rightarrow> bool" where
  "machine_windows contents pending = (\<lambda>(\<sigma>, sts).
     windows_at contents (all_seats contents pending (\<sigma>, sts)) \<sigma> \<and> (\<forall>st\<in>set sts. stage_fits (io_ops \<sigma>) st))"

lemma seated_hand: "seated_ops st \<subseteq># hand st"
  by (cases st) (simp_all add: hand_def)

lemma stage_seats_cong:
  assumes "\<And>x. x \<in># hand st \<Longrightarrow> ops' x = ops x"
  shows "stage_seats ops' st = stage_seats ops st"
  using seats_cong [of "seated_ops st" ops' ops] assms mset_subset_eqD [OF seated_hand [of st]]
  by (auto simp: stage_seats_def)

lemma stage_fits_cong:
  assumes "\<And>x. x \<in># hand st \<Longrightarrow> ops' x = ops x" and "stage_fits ops st"
  shows "stage_fits ops' st"
  using assms by (cases st) (auto simp: hand_def in_hand_def)

context io_service
begin

lemma machine_step_ok:
  assumes inv: "machine_ok contents pending good live I (\<sigma>, sts)" and i: "i < length sts"
    and con: "user_contract call_ok (length (sessions \<sigma>)) I handlers drain"
    and step: "worker_step Q U P handlers drain i (sts ! i) \<sigma> = Some (Inr (st, \<sigma>'))"
  shows "machine_ok contents pending good live I (\<sigma>', sts[i := st]) \<and> same_size \<sigma> \<sigma>'"
proof -
  let ?H = "sum_list (map hand (others i sts))"
  have ok: "ok (?H + hand (sts ! i)) \<sigma>" and st: "stage_ok (length (sessions \<sigma>)) (sts ! i)"
    and w: "i < length (worker_threads \<sigma>)" and u: "I (user \<sigma>)"
    using inv i sum_list_others(1) [OF i, of hand] by (simp_all add: machine_ok_def hands_def)
  note s = worker_step_ok [OF ok st w con u step]
  then have "ok (hands (sts[i := st])) \<sigma>'" using sum_list_others(2) [OF i, of hand st] by (simp add: hands_def)
  moreover have "\<forall>st'\<in>set (sts[i := st]). stage_ok (length (sessions \<sigma>')) st'"
    using inv s set_update_subset_insert [of sts i st] by (auto simp: machine_ok_def same_size_def)
  ultimately show ?thesis using s inv by (simp add: machine_ok_def same_size_def)
qed

lemma machine_step_windows:
  assumes inv: "machine_ok contents pending good live I (\<sigma>, sts)" and win: "machine_windows contents pending (\<sigma>, sts)"
    and i: "i < length sts"
    and con: "user_contract user_call (length (sessions \<sigma>)) I handlers drain" and keep: "handlers_keep_header handlers"
    and fit: "results_fit U i \<sigma>"
    and step: "worker_step Q U P handlers drain i (sts ! i) \<sigma> = Some (Inr (st, \<sigma>'))"
  shows "machine_windows contents pending (\<sigma>', sts[i := st])"
proof -
  let ?H = "sum_list (map hand (others i sts))" and ?R = "sum_list (map (stage_seats (io_ops \<sigma>)) (others i sts))"
  have ok: "ok (?H + hand (sts ! i)) \<sigma>" and st: "stage_ok (length (sessions \<sigma>)) (sts ! i)"
    and w: "i < length (worker_threads \<sigma>)" and u: "I (user \<sigma>)"
    using inv i sum_list_others(1) [OF i, of hand] by (simp_all add: machine_ok_def hands_def)
  have same: "io_ops \<sigma>' x = io_ops \<sigma> x" if "st' \<in> set (others i sts)" "x \<in># hand st'" for st' x
    using worker_step_ops [OF ok st step, of x] mset_subset_eqD [OF sum_list_member [OF that(1), of hand] that(2)] by simp
  have "windows_at contents (?R + own_seats \<sigma> (sts ! i)) \<sigma>" and fits: "stage_fits (io_ops \<sigma>) (sts ! i)"
    using win i sum_list_others(1) [OF i, of "stage_seats (io_ops \<sigma>)"]
    by (simp_all add: machine_windows_def all_seats_def own_seats_def ac_simps)
  from worker_step_windows [OF ok st w this(1) con u keep fits step]
  have "windows_at contents (?R + own_seats \<sigma>' st) \<sigma>'" .
  moreover have "map (stage_seats (io_ops \<sigma>)) (others i sts) = map (stage_seats (io_ops \<sigma>')) (others i sts)"
    by (rule map_cong [OF refl], rule sym, rule stage_seats_cong, rule same)
  ultimately have "windows_at contents (all_seats contents pending (\<sigma>', sts[i := st])) \<sigma>'"
    using sum_list_others(2) [OF i, of "stage_seats (io_ops \<sigma>')" st]
    by (simp add: all_seats_def own_seats_def ac_simps)
  moreover have "\<forall>st'\<in>set (sts[i := st]). stage_fits (io_ops \<sigma>') st'"
  proof -
    have "stage_fits (io_ops \<sigma>') st'" if "st' \<in> set (others i sts)" for st'
      using win that others_set [of i sts] by (intro stage_fits_cong [OF same [OF that]]) (auto simp: machine_windows_def)
    moreover have "sts[i := st] = take i sts @ st # drop (Suc i) sts" using i by (rule upd_conv_take_nth_drop)
    ultimately show ?thesis using wait_step_fits [OF fit step] by (auto simp: others_def)
  qed
  ultimately show ?thesis by (simp add: machine_windows_def)
qed

lemma micro_step_returns:
  assumes "0 < n" and "thread_count \<sigma> = int n" and "length (worker_threads \<sigma>) = n"
  shows "\<exists>r. micro_step Q P m \<sigma> = Inr r"
proof (cases m)
  case (M_Index x)
  have "fits_int (sint (request_index \<sigma>) sdiv int n)"
    using assms(1) sint_greater_eq [of "request_index \<sigma>"] sint_less [of "request_index \<sigma>"] by (intro sdiv_fits) (auto simp: fits_int_def)
  with M_Index assms show ?thesis by (simp add: Let_def)
next
  case (M_Push x j k)
  have "\<not> n \<le> nat j" if "\<not> j < 0" "\<not> int n \<le> j" using that by linarith
  with M_Push assms show ?thesis by (auto simp: Let_def split: option.split)
qed (auto split: option.split prod.split)

text \<open>
  Where a step can fault: in the handling of an operation by its session, and when the submission queue of the
  ring is full.
\<close>

lemma worker_step_faults:
  assumes ok: "ok (H + hand st) \<sigma>" and i: "i < length (worker_threads \<sigma>)"
    and n: "thread_count \<sigma> = int (length (worker_threads \<sigma>))"
    and step: "worker_step Q U P handlers drain i st \<sigma> = Some (Inl e)"
  shows "(\<exists>c x opn. st = W_Handle c \<and> ic_operation c = Some x \<and> io_ops \<sigma> x = Some opn \<and>
      handle_operation handlers opn (ic_result c) (sessions \<sigma> ! op_object opn) (user \<sigma>) = Some (Inl e)) \<or>
    (\<exists>c x entry. st = W_Request c x \<and> e = Null_Dereference \<and> ur_add U entry x (rq_ring (worker_threads \<sigma> ! i)) = None)"
proof (cases st)
  case W_Wait
  with step show ?thesis by (simp add: wait_one_def checked_int_def fits_int_def split_beta)
next
  case (W_Handle c)
  show ?thesis
  proof (cases "ic_operation c")
    case None
    with W_Handle step show ?thesis by (simp add: begin_completion_def)
  next
    case (Some x)
    with ok W_Handle obtain opn where "io_ops \<sigma> x = Some opn" "op_object opn < length (sessions \<sigma>)"
      by (auto simp: service_ok_def op_ok_def hand_def in_hand_def)
    with Some W_Handle step show ?thesis
      by (auto simp: begin_completion_def bind_outcome_eq_Inl Let_def split_beta)
  qed
next
  case (W_Calls c ms)
  then obtain m ms1 where ms: "ms = m # ms1" using step by (cases ms) auto
  obtain r where "micro_step Q P m \<sigma> = Inr r"
    using micro_step_returns [OF _ n refl] i by fastforce
  with step W_Calls ms show ?thesis by (simp add: split_beta)
next
  case (W_Pop c)
  with step show ?thesis by simp
next
  case (W_Request c x)
  with ok obtain opn where "io_ops \<sigma> x = Some opn" by (auto simp: service_ok_def op_ok_def hand_def)
  with step W_Request show ?thesis
    by (auto simp: flush_request_def Let_def bind_outcome_eq_Inl op_request_io_def accept_request_io_def
        recv_request_io_def send_request_io_def close_request_io_def add_sqe_def split: io_kind.splits option.splits)
next
  case (W_Release x)
  with ok obtain opn where "io_ops \<sigma> x = Some opn" "op_refs opn = 1"
    by (auto simp: service_ok_def op_ok_def hand_def)
  with step W_Release show ?thesis by (simp add: bind_outcome_eq_Inl release_op_def)
qed (use step in \<open>simp_all add: Let_def\<close>)

end

lemma windows_ok_at:
  assumes "windows_ok contents pending \<sigma>"
  shows "windows_at contents (seats (io_ops \<sigma>) (ops_held contents pending \<sigma>)) \<sigma>"
proof -
  let ?M = "ops_held contents pending \<sigma>"
  have "image_mset fst (seats (io_ops \<sigma>) ?M) = slots (io_ops \<sigma>) ?M"
    by (simp add: seats_def slots_def image_mset.compositionality comp_def)
  then have "count (mset (contents (sessions_queue \<sigma>)) + image_mset fst (seats (io_ops \<sigma>) ?M)) s \<le> 1" for s
    using assms unfolding windows_ok_def places_def by simp
  moreover have "(off, len) = get_remain_span (sessions \<sigma> ! s)" if "(s, Io_Recv off len) \<in># seats (io_ops \<sigma>) ?M" for s off len
  proof -
    from that obtain x opn where "x \<in># ?M" "io_ops \<sigma> x = Some opn" "s = op_object opn" "op_kind opn = Io_Recv off len"
      by (auto simp: seats_def)
    then show ?thesis using assms unfolding windows_ok_def windows_fit_def by blast
  qed
  ultimately show ?thesis using assms unfolding windows_at_def windows_ok_def by blast
qed

lemma hands_waiting: "hands (replicate n W_Wait) = {#}"
  by (induction n) (simp_all add: hands_def hand_def)

lemma stage_seats_waiting [simp]: "stage_seats ops W_Wait = {#}"
  by (simp add: stage_seats_def)

lemma machine_run_ok:
  assumes "\<And>j. io_service Q contents U pending (P j) good live"
    and "machine_run Q U P handlers drain m m'" and "machine_ok contents pending good live I m"
    and "user_contract call_ok (length (sessions (fst m))) I handlers drain"
  shows "machine_ok contents pending good live I m' \<and> same_size (fst m) (fst m')"
  using assms(2-)
proof (induction rule: machine_run.induct)
  case (no_move m)
  then show ?case by (simp add: same_size_def)
next
  case (worker_moves m \<sigma> sts i st \<sigma>')
  then have inv: "machine_ok contents pending good live I (\<sigma>, sts)" and s: "same_size (fst m) \<sigma>" by auto
  with worker_moves.prems(2) have con: "user_contract call_ok (length (sessions \<sigma>)) I handlers drain"
    by (simp add: same_size_def)
  from io_service.machine_step_ok [OF assms(1) inv worker_moves.hyps(2) con worker_moves.hyps(3)] s show ?case
    by (simp add: same_size_def)
next
  case (kernel_writes m \<sigma> sts s off bs buf)
  then have inv: "machine_ok contents pending good live I (\<sigma>, sts)" and s: "same_size (fst m) \<sigma>" by auto
  have "service_ok contents pending good live (hands sts) (set_session s ((sessions \<sigma> ! s)\<lparr>rx_buffer := buf\<rparr>) \<sigma>)"
    using inv kernel_writes.hyps(2)
    by (auto simp: machine_ok_def service_ok_def sessions_ok_def set_session_def ops_held_def op_ok_def own_actor_def
        nth_list_update)
  with inv s show ?case by (simp add: machine_ok_def same_size_def set_session_def)
qed

lemma machine_run_windows:
  assumes "\<And>j. io_service Q contents U pending (P j) good live"
    and "machine_run Q U P handlers drain m m'" and "machine_ok contents pending good live I m"
    and "machine_windows contents pending m" and "user_contract user_call (length (sessions (fst m))) I handlers drain"
    and "handlers_keep_header handlers" and "\<And>i \<sigma> sts. machine_run Q U P handlers drain m (\<sigma>, sts) \<Longrightarrow> results_fit U i \<sigma>"
  shows "machine_windows contents pending m'"
  using assms(2-)
proof (induction rule: machine_run.induct)
  case (worker_moves m \<sigma> sts i st \<sigma>')
  have inv: "machine_ok contents pending good live I (\<sigma>, sts)" and s: "same_size (fst m) \<sigma>"
    using machine_run_ok [OF assms(1) worker_moves.hyps(1) worker_moves.prems(1) contract_call_ok [OF worker_moves.prems(3)]]
    by simp_all
  have win: "machine_windows contents pending (\<sigma>, sts)" using worker_moves by blast
  have con: "user_contract user_call (length (sessions \<sigma>)) I handlers drain"
    using worker_moves.prems(3) s by (simp add: same_size_def)
  show ?case
    by (rule io_service.machine_step_windows [OF assms(1) inv win worker_moves.hyps(2) con worker_moves.prems(4) _
          worker_moves.hyps(3)])
      (rule worker_moves.prems(5) [OF worker_moves.hyps(1)])
next
  case (kernel_writes m \<sigma> sts s off bs buf)
  then have win: "machine_windows contents pending (\<sigma>, sts)" by blast
  let ?ss = "(sessions \<sigma> ! s)\<lparr>rx_buffer := buf\<rparr>"
  have w: "windows_at contents (all_seats contents pending (\<sigma>, sts)) \<sigma>" using win by (simp add: machine_windows_def)
  then have "session_ok ?ss"
    using kernel_writes.hyps(2,3) mem_write_length by (fastforce simp: windows_at_def session_ok_def)
  then have "windows_at contents (all_seats contents pending (\<sigma>, sts)) (set_session s ?ss \<sigma>)"
    by (intro windows_set_session [OF w]) (simp_all add: get_remain_span_def)
  moreover have "io_ops (set_session s ?ss \<sigma>) = io_ops \<sigma>" by (simp add: set_session_def)
  ultimately show ?case using win by (simp add: machine_windows_def all_seats_def)
qed simp

section \<open>The start\<close>

lemma request_accept_one_thread_count: "request_accept_one Q P \<sigma> = Inr \<sigma>' \<Longrightarrow> thread_count \<sigma>' = thread_count \<sigma>"
  by (auto simp: request_accept_one_def request_io_new_def request_io_def request_io_at_def Let_def
      split: option.splits prod.splits if_splits)

lemma accept_loop_thread_count: "accept_loop Q P n \<sigma> = Inr \<sigma>' \<Longrightarrow> thread_count \<sigma>' = thread_count \<sigma>"
  by (induction n arbitrary: \<sigma>) (auto simp: outcome_simps dest: request_accept_one_thread_count)

lemma initialize_thread_count: "initialize Q U P \<sigma> = Inr \<sigma>' \<Longrightarrow> thread_count \<sigma>' = thread_count \<sigma>"
  unfolding initialize_def by (drule accept_loop_thread_count) (simp add: initialize_threads_def)

lemma machine_start:
  assumes "io_service Q contents U pending P good live"
    and "worker_threads \<sigma>0 = []" and "sessions \<sigma>0 = []" and "contents (sessions_queue \<sigma>0) = []"
    and "good (io_pool \<sigma>0)" and "initialize Q U P \<sigma>0 = Inr \<sigma>1" and "I (user \<sigma>0)"
  shows "machine_ok contents pending good live I (\<sigma>1, all_waiting \<sigma>1)"
    and "machine_windows contents pending (\<sigma>1, all_waiting \<sigma>1)"
    and "length (sessions \<sigma>1) = nat (session_count \<sigma>0)" and "length (worker_threads \<sigma>1) = nat (thread_count \<sigma>1)"
proof -
  note ok = io_service.initialize_ok [OF assms(1-6)]
  show "machine_ok contents pending good live I (\<sigma>1, all_waiting \<sigma>1)"
    using ok assms(7) initialize_user [OF assms(6)]
    by (simp add: machine_ok_def all_waiting_def hands_waiting)
  show "machine_windows contents pending (\<sigma>1, all_waiting \<sigma>1)"
    using windows_ok_at [OF io_service.initialize_windows [OF assms(1-6)]]
    by (simp add: machine_windows_def all_seats_def all_waiting_def sum_list_replicate_empty)
  show "length (sessions \<sigma>1) = nat (session_count \<sigma>0)" "length (worker_threads \<sigma>1) = nat (thread_count \<sigma>1)"
    using ok initialize_thread_count [OF assms(6)] by simp_all
qed

section \<open>What it gives\<close>

definition seated :: "stage list \<Rightarrow> nat multiset" where
  "seated sts = sum_list (map seated_ops sts)"

lemma all_seats_ops:
  "seats (io_ops \<sigma>) (ops_held contents pending \<sigma> + seated sts) \<subseteq># all_seats contents pending (\<sigma>, sts)"
proof -
  have "sum_list (map (stage_seats ops) sts) = seats ops (seated sts) + sum_list (map claims sts)" for ops
    by (induction sts) (simp_all add: stage_seats_def seated_def ac_simps)
  then show ?thesis by (simp add: all_seats_def)
qed

lemma others_nth:
  assumes "j < length xs" and "j \<noteq> i"
  shows "xs ! j \<in> set (others i xs)"
proof (cases "j < i")
  case True
  then have "take i xs ! j \<in> set (take i xs)" using assms by (intro nth_mem) simp
  with True show ?thesis by (simp add: others_def)
next
  case False
  then have "drop (Suc i) xs ! (j - Suc i) \<in> set (drop (Suc i) xs)" using assms by (intro nth_mem) simp
  with False assms show ?thesis by (simp add: others_def)
qed

text \<open>Two seats of one session are too many.\<close>

lemma one_seat:
  assumes "windows_at contents Z \<sigma>" and "{#(s, k), (s, k')#} \<subseteq># Z"
  shows False
proof -
  have "count (mset (contents (sessions_queue \<sigma>)) + image_mset fst Z) s \<le> 1"
    using assms(1) unfolding windows_at_def by blast
  moreover have "count (image_mset fst {#(s, k), (s, k')#}) s \<le> count (image_mset fst Z) s"
    using image_mset_subseteq_mono [OF assms(2)] by (rule mset_subset_eq_count)
  ultimately show False by simp
qed

lemma seat_not_free:
  assumes "windows_at contents Z \<sigma>" and "(s, k) \<in># Z"
  shows "s \<notin> set (contents (sessions_queue \<sigma>))"
proof
  assume "s \<in> set (contents (sessions_queue \<sigma>))"
  then have "0 < count (mset (contents (sessions_queue \<sigma>))) s" by (simp add: count_greater_zero_iff)
  moreover have "0 < count (image_mset fst Z) s" using assms(2) by (auto simp: count_greater_zero_iff intro: rev_image_eqI)
  moreover have "count (mset (contents (sessions_queue \<sigma>)) + image_mset fst Z) s \<le> 1"
    using assms(1) unfolding windows_at_def by blast
  ultimately show False unfolding count_union by linarith
qed

lemma seated_hands: "seated sts \<subseteq># hands sts"
  unfolding seated_def hands_def by (induction sts) (simp_all add: seated_hand subset_mset.add_mono)

text \<open>Both invariants in every state of a started service.\<close>

lemma machine_reached:
  assumes "\<And>j. io_service Q contents U pending (P j) good live"
    and "worker_threads \<sigma>0 = []" and "sessions \<sigma>0 = []" and "contents (sessions_queue \<sigma>0) = []"
    and "good (io_pool \<sigma>0)" and "initialize Q U (P 0) \<sigma>0 = Inr \<sigma>1" and "I (user \<sigma>0)"
    and "user_contract user_call (nat (session_count \<sigma>0)) I handlers drain" and "handlers_keep_header handlers"
    and "\<And>i \<sigma> sts. machine_run Q U P handlers drain (\<sigma>1, all_waiting \<sigma>1) (\<sigma>, sts) \<Longrightarrow> results_fit U i \<sigma>"
    and "machine_run Q U P handlers drain (\<sigma>1, all_waiting \<sigma>1) (\<sigma>, sts)"
  shows "machine_ok contents pending good live I (\<sigma>, sts)"
    and "windows_at contents (all_seats contents pending (\<sigma>, sts)) \<sigma>"
proof -
  note start = machine_start [where I = I and P = "P 0", OF assms(1-7)]
  have con: "user_contract user_call (length (sessions (fst (\<sigma>1, all_waiting \<sigma>1)))) I handlers drain"
    using start(3) assms(8) by simp
  show "machine_ok contents pending good live I (\<sigma>, sts)"
    using machine_run_ok [OF assms(1,11) start(1) contract_call_ok [OF con]] by simp
  show "windows_at contents (all_seats contents pending (\<sigma>, sts)) \<sigma>"
    using machine_run_windows [OF assms(1,11) start(1,2) con assms(9,10)] by (simp add: machine_windows_def)
qed

text \<open>For the witnesses: the small service of \<open>Receive_Windows\<close>, and one whose submission queue is always full.\<close>

lemma only_worker_moves:
  "machine_run Q U P handlers drain m (\<sigma>, [st]) \<Longrightarrow>
     worker_step Q U (P 0) handlers drain 0 st \<sigma> = Some (Inr (st', \<sigma>')) \<Longrightarrow> machine_run Q U P handlers drain m (\<sigma>', [st'])"
  using machine_run.worker_moves [of Q U P handlers drain m \<sigma> "[st]" 0 st' \<sigma>'] by simp

definition zero_completion :: io_completion where
  "zero_completion = \<lparr>ic_ring = True, ic_cqe = True, ic_result = 0, ic_operation = Some 4096\<rparr>"

definition zero_taken :: zero_demo where
  "zero_taken = zero_started\<lparr>worker_threads := [\<lparr>rq_queue = [], rq_ring = []\<rparr>]\<rparr>"

definition choked_ring :: "nat list uring_ops" where
  "choked_ring = zero_ring\<lparr>ur_add := (\<lambda>e x r. None)\<rparr>"

definition choked_service :: zero_demo where
  "choked_service = zero_started\<lparr>worker_threads := [\<lparr>rq_queue = [], rq_ring = []\<rparr>]\<rparr>"

definition timeout_completion :: io_completion where
  "timeout_completion = \<lparr>ic_ring = False, ic_cqe = False, ic_result = 0, ic_operation = None\<rparr>"

lemma choked_ring_contract: "io_ring choked_ring mset"
  by unfold_locales (auto simp: choked_ring_def zero_ring_def split: list.splits)

lemma choked_contracts:
  "io_service list_queue (\<lambda>q. q) choked_ring mset demo_pool
     (io_good (\<lambda>q. q) (\<lambda>_. 64) {0, 1}) (io_live (\<lambda>q. q) (\<lambda>_. 64) {0, 1})"
  using demo_contracts choked_ring_contract by (simp add: io_service_def)

lemma choked_initialize: "initialize list_queue choked_ring demo_pool zero_service = Inr zero_started"
  by (simp add: initialize_def initialize_threads_def demo_acquire request_queue_new_def zero_defs choked_ring_def)

lemma zero_fresh:
  "worker_threads zero_service = []" "sessions zero_service = []" "sessions_queue zero_service = []"
  "io_good (\<lambda>q. q) (\<lambda>_. 64) {0, 1} (io_pool zero_service)"
  using demo_good by (simp_all add: zero_service_def demo_service_def service_new_def)

lemma zero_user: "user_contract C n (\<lambda>_. True) Map.empty no_requests" "handlers_keep_header Map.empty"
  by (simp_all add: user_contract_def no_requests_def handlers_keep_header_def)

lemma zero_taken_run:
  "machine_run list_queue zero_ring (\<lambda>_. demo_pool) Map.empty no_requests (zero_started, all_waiting zero_started)
     (zero_taken, [W_Handle zero_completion])"
proof -
  have w: "0 < length (worker_threads zero_started)" "all_waiting zero_started = [W_Wait]"
    by (simp_all add: zero_started_def all_waiting_def)
  have "service_run list_queue zero_ring (\<lambda>_. demo_pool) Map.empty no_requests zero_started zero_flushed"
    by (rule service_run.worker_step [OF service_run.no_step w(1) zero_first_routine])
  from service_run_machine [OF lq.lockfree_queue_axioms this no_move]
  have "machine_run list_queue zero_ring (\<lambda>_. demo_pool) Map.empty no_requests (zero_started, all_waiting zero_started)
      (zero_flushed, [W_Wait])"
    by (simp add: w)
  then show ?thesis
    by (rule only_worker_moves)
      (simp add: wait_one_def zero_flushed_def zero_taken_def zero_completion_def completion_of_cqe_def set_worker_def zero_defs)
qed

lemma choked_run:
  "machine_run list_queue choked_ring (\<lambda>_. demo_pool) Map.empty no_requests (zero_started, all_waiting zero_started)
     (choked_service, [W_Request timeout_completion 4096])"
proof -
  let ?run = "machine_run list_queue choked_ring (\<lambda>_. demo_pool) Map.empty no_requests (zero_started, all_waiting zero_started)"
  have "all_waiting zero_started = [W_Wait]" by (simp add: zero_started_def all_waiting_def)
  then have "?run (zero_started, [W_Wait])" by (simp add: no_move)
  then have "?run (zero_started, [W_Handle timeout_completion])"
    by (rule only_worker_moves)
      (simp add: wait_one_def timeout_completion_def completion_of_cqe_def set_worker_def choked_ring_def zero_defs)
  then have "?run (zero_started, [W_Flush timeout_completion])"
    by (rule only_worker_moves) (simp add: begin_completion_def timeout_completion_def)
  then have "?run (zero_started, [W_Pop timeout_completion])"
    by (rule only_worker_moves) (simp add: zero_started_def)
  then show ?thesis
    by (rule only_worker_moves) (simp add: flush_pop_def set_worker_def choked_service_def zero_started_def)
qed










text \<open>For the witness: two workers that each have taken the completion of an accept.\<close>

type_synonym two_demo = "(nat list, nat list, nat \<times> (nat \<Rightarrow> io_type option), unit) service"

definition two_service :: two_demo where
  "two_service = (service_new list_queue 0 (0, Map.empty) ())
     \<lparr>thread_count := 2, session_count := 2, backlog := 2, acceptor_fd := 3\<rparr>"

definition two_at :: "nat list \<Rightarrow> nat list \<Rightarrow> nat list \<Rightarrow> nat list \<Rightarrow> two_demo" where
  "two_at q r q' r' = two_service\<lparr>request_index := 2,
     worker_threads := [\<lparr>rq_queue = q, rq_ring = r\<rparr>, \<lparr>rq_queue = q', rq_ring = r'\<rparr>],
     sessions := [new_session, new_session], io_pool := (2, [0 \<mapsto> Type_Accept, 1 \<mapsto> Type_Accept]),
     io_ops := [0 \<mapsto> \<lparr>op_object = 0, op_kind = Io_Accept 3, op_refs = 1\<rparr>,
       1 \<mapsto> \<lparr>op_object = 1, op_kind = Io_Accept 3, op_refs = 1\<rparr>]\<rparr>"

definition accept_completed :: "nat \<Rightarrow> io_completion" where
  "accept_completed x = \<lparr>ic_ring = True, ic_cqe = True, ic_result = 0, ic_operation = Some x\<rparr>"

lemmas two_defs = two_at_def two_service_def service_new_def zero_ring_def

lemma two_contracts:
  "io_service list_queue (\<lambda>q. q) zero_ring mset counting_pool (\<lambda>(n, L). \<forall>x. n \<le> x \<longrightarrow> L x = None) snd"
  using lq.lockfree_queue_axioms zero_ring_contract counting.operation_pool_axioms by (simp add: io_service_def)

lemma two_initialize: "initialize list_queue zero_ring counting_pool two_service = Inr (two_at [0] [] [1] [])"
proof -
  have r: "(1 :: int) smod 2 = 1" by (simp add: signed_modulo_int_def)
  have d: "(1 :: int) sdiv 2 = 0" by (simp add: signed_divide_int_def)
  show ?thesis
    by (simp add: r d initialize_def initialize_threads_def request_queue_new_def counting_pool_def request_defs two_defs
        numeral_2_eq_2)
qed

lemma two_routines:
  "routine list_queue zero_ring counting_pool Map.empty no_requests 0 (two_at [0] [] [1] []) = Some (Inr (two_at [] [0] [1] []))"
  "routine list_queue zero_ring counting_pool Map.empty no_requests 1 (two_at [] [0] [1] []) = Some (Inr (two_at [] [0] [] [1]))"
  by (simp_all add: routine_defs accept_request_io_def Let_def checked_int_def fits_int_def two_defs)

lemma two_run:
  "machine_run list_queue zero_ring (\<lambda>_. counting_pool) Map.empty no_requests
     (two_at [0] [] [1] [], all_waiting (two_at [0] [] [1] []))
     (two_at [] [] [] [], [W_Handle (accept_completed 0), W_Handle (accept_completed 1)])"
proof -
  let ?run = "machine_run list_queue zero_ring (\<lambda>_. counting_pool) Map.empty no_requests
     (two_at [0] [] [1] [], all_waiting (two_at [0] [] [1] []))"
  have w: "length (worker_threads (two_at q r q' r')) = 2" for q r q' r' by (simp add: two_at_def)
  have "service_run list_queue zero_ring (\<lambda>_. counting_pool) Map.empty no_requests (two_at [0] [] [1] []) (two_at [] [0] [] [1])"
    by (rule service_run.worker_step [OF service_run.worker_step [OF service_run.no_step _ two_routines(1)] _ two_routines(2)])
      (simp_all add: w)
  from service_run_machine [OF lq.lockfree_queue_axioms this no_move]
  have "?run (two_at [] [0] [] [1], [W_Wait, W_Wait])" by (simp add: all_waiting_def w numeral_2_eq_2)
  from machine_run.worker_moves [OF this, of 0 "W_Handle (accept_completed 0)" "two_at [] [] [] [1]"]
  have "?run (two_at [] [] [] [1], [W_Handle (accept_completed 0), W_Wait])"
    by (simp add: wait_one_def completion_of_cqe_def accept_completed_def set_worker_def checked_int_def fits_int_def two_defs)
  from machine_run.worker_moves [OF this, of 1 "W_Handle (accept_completed 1)" "two_at [] [] [] []"]
  show ?thesis
    by (simp add: wait_one_def completion_of_cqe_def accept_completed_def set_worker_def checked_int_def fits_int_def two_defs)
qed


text \<open>
  Everything the service does when its workers take turns, a routine at a time, is among what it does when they
  interleave: the runs of \<open>Service_Loop\<close> are runs of the workers' small steps.
\<close>

theorem turns_are_interleavings:
  assumes "lockfree_queue Q contents" and "service_run Q U P handlers drain \<sigma> \<sigma>'"
  shows "machine_run Q U P handlers drain (\<sigma>, all_waiting \<sigma>) (\<sigma>', all_waiting \<sigma>)"
  by (rule service_run_machine [OF assms no_move])

theorem turns_are_interleavings_witness:
  "machine_run list_queue zero_ring (\<lambda>_. demo_pool) Map.empty no_requests (zero_started, [W_Wait]) (zero_flushed, [W_Wait])"
proof -
  have w: "0 < length (worker_threads zero_started)" "all_waiting zero_started = [W_Wait]"
    by (simp_all add: zero_started_def all_waiting_def)
  have "service_run list_queue zero_ring (\<lambda>_. demo_pool) Map.empty no_requests zero_started zero_flushed"
    by (rule service_run.worker_step [OF service_run.no_step w(1) zero_first_routine])
  from turns_are_interleavings [OF lq.lockfree_queue_axioms this] show ?thesis by (simp add: w)
qed

end
