(* ===== verification/Program_Start.thy ===== *)
theory Program_Start
  imports Running_Server Service_Interleaving
begin

text \<open>
  The \<open>main\<close> of the sample server, from the builder to the running workers: what it sets up, and what can go
  wrong while its 36 workers interleave.
\<close>

section \<open>The sample server's handlers meet the conditions of the service\<close>

text \<open>
  The three hypotheses on user code that the properties of running services have: \<open>server_contract\<close> with what
  follows from it, and the two below.
\<close>

lemma server_contracts:
  assumes "server_env_ok E"
  shows "user_contract call_ok n (server_inv E n) (server_handlers E True) drain_requests"
    and "user_contract user_call n (server_inv E n) (server_handlers E True) drain_requests"
  using user_contract_mono [OF server_contract [OF assms, of n]] server_call_user user_call_ok by blast+

lemma server_handler_cases:
  "server_handlers E alive t = Some h \<longleftrightarrow> t = 1 \<and> h = test_handler E alive"
  by (auto simp: server_handlers_def register_handler_def)

lemma server_handlers_keep_header: "handlers_keep_header (server_handlers E alive)"
  by (auto simp: handlers_keep_header_def server_handler_cases test_handler_def outcome_simps Let_def
      split: if_splits)

lemma reply_loop_faults: "reply_loop E alive a header remaining offset \<noteq> Inl Use_After_Free"
proof (induction E alive a header remaining offset rule: reply_loop.induct)
  case (1 E alive a header remaining offset)
  have "write_args xs sb \<noteq> Inl Use_After_Free" for xs sb
  proof -
    have "append_each n xs buf \<noteq> Inl Use_After_Free" for n buf
      by (induction n xs buf rule: append_each.induct) (auto simp: bind_outcome_eq_Inl)
    then show ?thesis by (auto simp: write_args_def bind_outcome_eq_Inl Let_def split: if_splits)
  qed
  with 1 show ?case
    by (subst reply_loop.simps) (auto simp: bind_outcome_eq_Inl Let_def outcome_simps split: option.splits)
qed

lemma server_handlers_safe: "handlers_safe (server_handlers E alive)"
  using reply_loop_faults
  by (auto simp: handlers_safe_def server_handler_cases test_handler_def timestamp_task_def c_string_def
      bind_outcome_eq_Inl Let_def split: if_splits)

section \<open>main\<close>

text \<open>
  \<open>main\<close> after the registration of the handler: the builder's calls, \<open>build\<close>, \<open>initialize\<close>. Neither \<open>build\<close> nor
  \<open>initialize\<close> ever reports a failure, so the branches that log one are not taken. The result has the calls of
  \<open>build_acceptor\<close> and the service as \<open>run\<close> starts its workers.
\<close>

definition sample_main ::
    "'q lfq_ops \<Rightarrow> 'r uring_ops \<Rightarrow> 'p op_pool \<Rightarrow> (string \<Rightarrow> u32 option) \<Rightarrow> sockaddr_in \<Rightarrow> int
       \<Rightarrow> ('q, 'r, 'p, 's) service \<Rightarrow> (socket_call list \<times> ('q, 'r, 'p, 's) service) outcome" where
  "sample_main Q U P inet_pton garbage fd sv =
     bind_outcome (set_thread_count 36 (set_backlog 4096 (set_address inet_pton [] 4832 (builder_new garbage sv)))) (\<lambda>b1.
     bind_outcome (set_session_count 10000 b1) (\<lambda>b2.
     bind_outcome (set_queue_depth_per_thread 10000 b2) (\<lambda>b3.
     bind_outcome (build fd b3) (\<lambda>(service, calls, b4).
     bind_outcome (initialize Q U P service) (\<lambda>\<sigma>.
       Inr (calls, \<sigma>))))))"

definition sample_address :: "sockaddr_in \<Rightarrow> sockaddr_in" where
  "sample_address garbage = garbage\<lparr>sin_family := AF_INET, sin_port := htons 4832, s_addr := INADDR_ANY\<rparr>"

definition sample_service :: "int \<Rightarrow> ('q, 'r, 'p, 's) service \<Rightarrow> ('q, 'r, 'p, 's) service" where
  "sample_service fd sv = sv\<lparr>thread_count := 36, session_count := 10000, queue_depth_per_thread := 10000, acceptor_fd := fd\<rparr>"

lemma sample_main_eq:
  "sample_main Q U P inet_pton garbage fd sv =
     bind_outcome (initialize Q U P (sample_service fd sv)) (\<lambda>\<sigma>.
       Inr ([Sys_Socket, Sys_Setsockopt_Reuse fd, Sys_Bind fd (sample_address garbage), Sys_Listen fd 4096], \<sigma>))"
  by (simp add: sample_main_def set_thread_count_def set_session_count_def set_queue_depth_per_thread_def set_backlog_def
      on_instance_def builder_new_def build_def build_acceptor_def set_address_def sample_address_def sample_service_def Let_def)

text \<open>How many of the numbers below \<open>n * q + r\<close> have remainder \<open>i\<close>.\<close>

lemma card_remainder:
  assumes "i < n" and "r < (n :: nat)"
  shows "card {j. j < n * q + r \<and> j mod n = i} = (if i < r then Suc q else q)"
proof -
  let ?m = "if i < r then Suc q else q"
  have "{j. j < n * q + r \<and> j mod n = i} = (\<lambda>k. n * k + i) ` {..<?m}"
  proof (rule set_eqI)
    fix j
    have "j < n * q + r \<and> j mod n = i \<longleftrightarrow> (\<exists>k. j = n * k + i \<and> k < ?m)"
    proof
      assume j: "j < n * q + r \<and> j mod n = i"
      then obtain d where e: "j = n * d + i" by (metis mult_div_mod_eq)
      have "d < ?m"
      proof (rule ccontr)
        assume "\<not> d < ?m"
        then have "n * ?m \<le> n * d" by (intro mult_le_mono2) simp
        moreover have "n * d + i < n * q + r" using j e by simp
        ultimately show False using assms
          by (cases "i < r"; simp only: if_True if_False mult_Suc_right; linarith)
      qed
      with e show "\<exists>k. j = n * k + i \<and> k < ?m" by blast
    next
      assume "\<exists>k. j = n * k + i \<and> k < ?m"
      then obtain k where k: "j = n * k + i" "k < ?m" by blast
      have "n * Suc k \<le> n * ?m" using k(2) by (intro mult_le_mono2) simp
      moreover have "n * k \<le> n * q" using k(2) by (intro mult_le_mono2) (simp split: if_splits)
      ultimately have "j < n * q + r" using k assms
        by (cases "i < r"; simp only: if_True if_False mult_Suc_right; linarith)
      then show "j < n * q + r \<and> j mod n = i" using k assms(1) by simp
    qed
    then show "j \<in> {j. j < n * q + r \<and> j mod n = i} \<longleftrightarrow> j \<in> (\<lambda>k. n * k + i) ` {..<?m}" by (auto simp: image_iff)
  qed
  moreover have "inj_on (\<lambda>k. n * k + i) {..<?m}" using assms(1) by (auto simp: inj_on_def)
  ultimately show ?thesis by (simp add: card_image)
qed

lemma sample_accepts: "i < (36 :: nat) \<Longrightarrow> card {j. j < 4096 \<and> j < 10000 \<and> j mod 36 = i} = (if i < 28 then 114 else 113)"
proof -
  assume i: "i < 36"
  have "{j. j < 4096 \<and> j < 10000 \<and> j mod 36 = i} = {j. j < 36 * 113 + 28 \<and> j mod 36 = i}" by auto
  then show ?thesis using card_remainder [OF i, of 28 113] by simp
qed

lemma accept_loop_workers:
  "accept_loop Q P n \<sigma> = Inr \<sigma>' \<Longrightarrow> length (worker_threads \<sigma>') = length (worker_threads \<sigma>)"
proof (induction n arbitrary: \<sigma>)
  case (Suc n)
  then obtain \<sigma>1 where "request_accept_one Q P \<sigma> = Inr \<sigma>1" and n: "accept_loop Q P n \<sigma>1 = Inr \<sigma>'"
    by (auto simp: outcome_simps)
  then have "length (worker_threads \<sigma>1) = length (worker_threads \<sigma>)"
    by (auto simp: request_accept_one_def split: option.splits dest!: request_io_new_frame)
  with Suc.IH [OF n] show ?case by simp
qed simp

lemma initialize_workers:
  "initialize Q U P \<sigma> = Inr \<sigma>' \<Longrightarrow> length (worker_threads \<sigma>') = length (worker_threads \<sigma>) + nat (thread_count \<sigma>)"
  by (auto simp: initialize_def initialize_threads_def dest: accept_loop_workers)

lemma sample_starts:
  assumes "reliable_queue Q contents" and "operation_pool P good live"
    and "\<And>p. good p \<Longrightarrow> fst (op_acquire P Type_Accept p) \<noteq> None" and "good p"
  shows "\<exists>\<sigma>. initialize Q U P (sample_service fd (service_new Q g p u)) = Inr \<sigma> \<and> sessions \<sigma> = replicate 10000 new_session \<and>
    contents (sessions_queue \<sigma>) = [4096..<10000] \<and> length (worker_threads \<sigma>) = 36 \<and>
    (\<forall>i<36. length (contents (rq_queue (worker_threads \<sigma> ! i))) = (if i < 28 then 114 else 113))"
proof -
  let ?sv = "sample_service fd (service_new Q g p u)"
  have new: "contents (lfq_new Q k) = []" for k
    using assms(1) by (meson lockfree_queue.new_contents reliable_queue.axioms(1))
  have "\<exists>\<sigma>. initialize Q U P ?sv = Inr \<sigma> \<and> sessions \<sigma> = replicate 10000 new_session \<and>
      contents (sessions_queue \<sigma>) = [4096..<10000] \<and>
      (\<forall>i<36. length (contents (rq_queue (worker_threads \<sigma> ! i))) = card {j. j < 4096 \<and> j < 10000 \<and> j mod 36 = i})"
    by (rule initialize_accepts [OF assms(1-3)]) (simp_all add: sample_service_def service_new_def new assms(4))
  then obtain \<sigma> where i: "initialize Q U P ?sv = Inr \<sigma>"
    and r: "sessions \<sigma> = replicate 10000 new_session" "contents (sessions_queue \<sigma>) = [4096..<10000]"
    and q: "\<forall>i<36. length (contents (rq_queue (worker_threads \<sigma> ! i))) = card {j. j < 4096 \<and> j < 10000 \<and> j mod 36 = i}"
    by blast
  have "length (worker_threads \<sigma>) = 36"
    using initialize_workers [OF i] by (simp add: sample_service_def service_new_def)
  moreover have "\<forall>i<36. length (contents (rq_queue (worker_threads \<sigma> ! i))) = (if i < 28 then 114 else 113)"
    using q sample_accepts by presburger
  ultimately show ?thesis using i r by blast
qed



section \<open>The running workers\<close>

lemma sample_service_fresh:
  assumes "lockfree_queue Q contents" and "good p"
  shows "worker_threads (sample_service fd (service_new Q g p u)) = []"
    and "sessions (sample_service fd (service_new Q g p u)) = []"
    and "contents (sessions_queue (sample_service fd (service_new Q g p u))) = []"
    and "good (io_pool (sample_service fd (service_new Q g p u)))"
    and "user (sample_service fd (service_new Q g p u)) = u"
  using lockfree_queue.new_contents [OF assms(1)] assms(2) by (simp_all add: sample_service_def service_new_def)

lemma sample_machine_start:
  assumes "io_service Q contents U pending P good live" and "good p"
    and "sample_main Q U P inet_pton garbage fd (service_new Q g p server_start) = Inr (calls, \<sigma>1)"
  shows "machine_ok contents pending good live (server_inv E (length (sessions \<sigma>1))) (\<sigma>1, all_waiting \<sigma>1)"
    and "length (worker_threads \<sigma>1) = nat (thread_count \<sigma>1)"
proof -
  have i: "initialize Q U P (sample_service fd (service_new Q g p server_start)) = Inr \<sigma>1"
    using assms(3) by (auto simp: sample_main_eq outcome_simps)
  have "lockfree_queue Q contents" using assms(1) by (rule io_service.axioms(1))
  note f = sample_service_fresh [where good = good, OF this assms(2), where fd = fd and g = g and u = server_start]
  have "server_inv E (length (sessions \<sigma>1)) (user (sample_service fd (service_new Q g p server_start)))"
    unfolding f(5) by (simp add: server_inv_def server_start_def)
  from machine_start [where I = "server_inv E (length (sessions \<sigma>1))" and good = good, OF assms(1) f(1-4) i this]
  show "machine_ok contents pending good live (server_inv E (length (sessions \<sigma>1))) (\<sigma>1, all_waiting \<sigma>1)"
    and "length (worker_threads \<sigma>1) = nat (thread_count \<sigma>1)" by blast+
qed

lemma handle_operation_recv_faults:
  "handle_operation handlers opn res ss u = Some (Inl e) \<Longrightarrow> \<exists>off len. op_kind opn = Io_Recv off len"
  by (auto simp: handle_operation_def Let_def split_beta split: io_kind.splits)


text \<open>For the witness: a ring without room, in which nothing ever completes.\<close>

definition dead_ring :: "unit uring_ops" where
  "dead_ring = \<lparr>ur_init = (\<lambda>_. ()), ur_add = (\<lambda>e x r. None), ur_submit = (\<lambda>r. r),
     ur_wait = (\<lambda>t r. (Inl (- 62), r)), ur_seen = (\<lambda>r. r)\<rparr>"

lemma dead_ring_contract: "io_ring dead_ring (\<lambda>_. {#})"
  by unfold_locales (auto simp: dead_ring_def)

lemma dead_contracts:
  "io_service list_queue (\<lambda>q. q) dead_ring (\<lambda>_. {#}) counting_pool (\<lambda>(n, L). \<forall>x. n \<le> x \<longrightarrow> L x = None) snd"
  using lq.lockfree_queue_axioms dead_ring_contract counting.operation_pool_axioms by (simp add: io_service_def)

text \<open>The first worker takes an operation out of its queue.\<close>

lemma dead_pops:
  assumes q: "rq_queue (worker_threads \<sigma> ! 0) = x # xs" and w: "0 < length (worker_threads \<sigma>)"
  defines "c \<equiv> \<lparr>ic_ring = False, ic_cqe = False, ic_result = 0, ic_operation = None\<rparr>"
  shows "\<exists>\<sigma>' sts. machine_run list_queue dead_ring (\<lambda>_. counting_pool) handlers drain (\<sigma>, all_waiting \<sigma>) (\<sigma>', sts) \<and>
    0 < length sts \<and> sts ! 0 = W_Request c x"
proof -
  let ?run = "machine_run list_queue dead_ring (\<lambda>_. counting_pool) handlers drain (\<sigma>, all_waiting \<sigma>)"
  let ?sts = "\<lambda>st. (all_waiting \<sigma>)[0 := st]"
  let ?step = "worker_step list_queue dead_ring counting_pool handlers drain 0"
  have len: "0 < length (all_waiting \<sigma>)" using w by (simp add: all_waiting_def)
  have move: "?run (\<sigma>2, ?sts st2)" if "?run (\<sigma>1, ?sts st1)" "?step st1 \<sigma>1 = Some (Inr (st2, \<sigma>2))" for st1 st2 \<sigma>1 \<sigma>2
    using machine_run.worker_moves [OF that(1), of 0 st2 \<sigma>2] that(2) len by simp
  have ring: "(worker_threads \<sigma> ! 0)\<lparr>rq_ring := ()\<rparr> = worker_threads \<sigma> ! 0" by (cases "worker_threads \<sigma> ! 0") simp
  have same: "set_worker 0 ((worker_threads \<sigma> ! 0)\<lparr>rq_ring := ()\<rparr>) \<sigma> = \<sigma>" unfolding set_worker_def ring by simp
  have "all_waiting \<sigma> = ?sts W_Wait" using w by (cases "length (worker_threads \<sigma>)") (simp_all add: all_waiting_def)
  then have "?run (\<sigma>, ?sts W_Wait)" using no_move by metis
  then have "?run (\<sigma>, ?sts (W_Handle c))"
    by (rule move) (simp add: wait_one_def dead_ring_def completion_of_cqe_def c_def checked_int_def fits_int_def same)
  then have "?run (\<sigma>, ?sts (W_Flush c))" by (rule move) (simp add: begin_completion_def c_def)
  then have "?run (\<sigma>, ?sts (W_Pop c))" by (rule move) (simp add: q)
  then have "?run (set_worker 0 ((worker_threads \<sigma> ! 0)\<lparr>rq_queue := xs\<rparr>) \<sigma>, ?sts (W_Request c x))"
    by (rule move) (simp add: flush_pop_def q)
  then show ?thesis using len by (intro exI conjI) (assumption, simp_all)
qed


end
