(* ===== verification/Log_Tasks.thy ===== *)
theory Log_Tasks
  imports Task_Properties Log_Handler
begin

text \<open>
  Logging in a running program: \<open>LogHandler::get_instance\<close>, \<open>LogImpl\<close> up to the request of the task, and the tasks of
  the handler, which is serializer 0 of a task system, on their way to \<open>write_log\<close>.
\<close>

section \<open>The log handler as a serializer\<close>

text \<open>
  A requested line is named by its position among all requested lines; the task that carries it is
  \<open>User_Task\<close> of this number. \<open>write_log\<close> itself makes no request. The arguments that \<open>LogImpl\<close> moves into the
  request are values in the tuple of the task; \<open>level\<close> is an lvalue there, so \<open>Args\<close> is deduced as a reference and the task keeps a reference to the
  parameter of \<open>LogImpl\<close>, which is gone when this call has returned. So the state says which thread requested a line and
  which line each thread's present call is about.
\<close>

record 'q log_sys =
  log_tasks :: "'q task_sys"
  log_requested :: "log_line list"
  log_callers :: "nat list"
  log_current :: "nat \<Rightarrow> nat option"
  log_sink :: log_handler

definition no_calls :: "nat \<Rightarrow> action list" where
  "no_calls = (\<lambda>_. [])"

text \<open>\<open>get_instance\<close>: the first call makes the handler.\<close>

definition log_get_instance :: "'q lfq_ops \<Rightarrow> (string \<Rightarrow> string) \<Rightarrow> 'q log_sys option \<Rightarrow> 'q log_sys" where
  "log_get_instance Q fs inst =
     (case inst of
        None \<Rightarrow> \<lparr>log_tasks = start_sys Q 1, log_requested = [], log_callers = [], log_current = (\<lambda>_. None),
        log_sink = log_handler_new fs\<rparr>
      | Some L \<Rightarrow> L)"

text \<open>\<open>LogImpl\<close> in thread \<open>t\<close>, up to the call of \<open>request_task\<close>, with which it ends.\<close>

definition log_request_task :: "nat \<Rightarrow> log_line \<Rightarrow> 'q log_sys \<Rightarrow> 'q log_sys" where
  "log_request_task t l L =
     (let f = length (log_requested L)
      in L\<lparr>log_requested := log_requested L @ [l], log_callers := log_callers L @ [t],
           log_current := (log_current L)(t \<mapsto> f), log_tasks := enter t (Call_Request 0 f) (log_tasks L)\<rparr>)"

type_synonym log_request = "int \<times> source_location \<times> string \<times> tm"

definition log_call :: "nat \<Rightarrow> log_request \<Rightarrow> 'q log_sys \<Rightarrow> 'q log_sys outcome" where
  "log_call t = (\<lambda>(level, loc, message, now) L.
     bind_outcome (log_impl (min_level (log_sink L)) level loc message now) (\<lambda>r.
       Inr (case r of
              None \<Rightarrow> L
            | Some l \<Rightarrow> log_request_task t l L)))"

text \<open>
  A step of thread \<open>t\<close>. A line is written in the step that ends \<open>invoke\<close>. Its level is read through the reference, so the call
  that requested it must still be under way.
\<close>

fun line_written :: "frame list \<Rightarrow> 'q log_sys \<Rightarrow> nat option" where
  "line_written (F_Invoke d n x [] # rest) L =
     (case tasks (log_tasks L) x of
        Some k \<Rightarrow> (case task_code k of User_Task f \<Rightarrow> Some f | Clear_Task s \<Rightarrow> None)
      | None \<Rightarrow> None)"
| "line_written stk L = None"

definition level_alive :: "'q log_sys \<Rightarrow> nat \<Rightarrow> bool" where
  "level_alive L f \<longleftrightarrow>
     (let u = log_callers L ! f in log_current L u = Some f \<and> stacks (log_tasks L) u \<noteq> [])"

definition log_step :: "'q lfq_ops \<Rightarrow> file_env \<Rightarrow> nat \<Rightarrow> 'q log_sys \<Rightarrow> 'q log_sys outcome" where
  "log_step Q E t L =
     bind_outcome (thread_step Q no_calls t (log_tasks L)) (\<lambda>\<sigma>.
       (case line_written (stacks (log_tasks L) t) L of
          None \<Rightarrow> Inr (L\<lparr>log_tasks := \<sigma>\<rparr>)
        | Some f \<Rightarrow>
            if level_alive L f
            then Inr (L\<lparr>log_tasks := \<sigma>, log_sink := write_log E (log_requested L ! f) (log_sink L)\<rparr>)
            else Inl Use_After_Free))"

fun log_steps :: "'q lfq_ops \<Rightarrow> file_env \<Rightarrow> nat \<Rightarrow> nat \<Rightarrow> 'q log_sys \<Rightarrow> 'q log_sys outcome" where
  "log_steps Q E t 0 L = Inr L"
| "log_steps Q E t (Suc n) L = bind_outcome (log_step Q E t L) (log_steps Q E t n)"

datatype log_event = Logs nat log_request | Steps nat nat

fun log_run :: "'q lfq_ops \<Rightarrow> file_env \<Rightarrow> log_event list \<Rightarrow> 'q log_sys \<Rightarrow> 'q log_sys outcome" where
  "log_run Q E [] L = Inr L"
| "log_run Q E (Logs t r # es) L = bind_outcome (log_call t r L) (log_run Q E es)"
| "log_run Q E (Steps t n # es) L = bind_outcome (log_steps Q E t n L) (log_run Q E es)"

section \<open>One thread that logs\<close>

text \<open>The program between two calls: no thread is in the handler, and nothing waits.\<close>

definition log_idle :: "'q lfq_ops \<Rightarrow> ('q \<Rightarrow> nat list) \<Rightarrow> nat \<Rightarrow> 'q log_sys \<Rightarrow> bool" where
  "log_idle Q contents t L \<longleftrightarrow> reachable Q no_calls 1 (log_tasks L) \<and> stacks (log_tasks L) t = [] \<and>
     length (log_callers L) = length (log_requested L) \<and>
     (\<exists>z. sers (log_tasks L) 0 = Some z \<and> state z = RUNNING \<and> contents (task_queue z) = [])"

text \<open>The lines of a series of calls: those that are not filtered out.\<close>

fun lines_of :: "int \<Rightarrow> log_request list \<Rightarrow> log_line list outcome" where
  "lines_of level [] = Inr []"
| "lines_of level ((lv, loc, message, now) # rs) =
     bind_outcome (log_impl level lv loc message now) (\<lambda>r.
     bind_outcome (lines_of level rs) (\<lambda>ls.
       Inr (case r of None \<Rightarrow> ls | Some l \<Rightarrow> l # ls)))"

fun log_series :: "'q lfq_ops \<Rightarrow> file_env \<Rightarrow> nat \<Rightarrow> log_request list \<Rightarrow> 'q log_sys \<Rightarrow> 'q log_sys outcome" where
  "log_series Q E t [] L = Inr L"
| "log_series Q E t (r # rs) L =
     bind_outcome (log_call t r L) (\<lambda>L1. bind_outcome (log_steps Q E t 11 L1) (log_series Q E t rs))"

lemma log_steps_idle: "stacks (log_tasks L) t = [] \<Longrightarrow> log_steps Q E t n L = Inr L"
  by (induction n) (simp_all add: log_step_def thread_step_def)

lemma log_steps_tasks:
  "log_steps Q E t n L = Inr L' \<Longrightarrow> run_thread_for Q no_calls t n (log_tasks L) = Inr (log_tasks L')"
proof (induction n arbitrary: L)
  case (Suc n)
  then obtain L1 where "log_step Q E t L = Inr L1" and n: "log_steps Q E t n L1 = Inr L'" by (auto simp: outcome_simps)
  then have "thread_step Q no_calls t (log_tasks L) = Inr (log_tasks L1)" by (auto simp: log_step_def outcome_simps split: option.splits if_splits)
  with Suc.IH [OF n] show ?case by simp
qed simp

lemma log_requested_line:
  assumes "reliable_queue Q contents" and "log_idle Q contents t L"
    and L1: "L1 = log_request_task t l L"
  shows "\<exists>L2. log_steps Q E t 11 L1 = Inr L2 \<and> log_idle Q contents t L2 \<and> log_sink L2 = write_log E l (log_sink L)"
proof -
  let ?\<sigma> = "log_tasks L"
  have lf: "lockfree_queue Q contents" using assms(1) by (rule reliable_queue.axioms(1))
  obtain z where r: "reachable Q no_calls 1 ?\<sigma>" and st: "stacks ?\<sigma> t = []" and z: "sers ?\<sigma> 0 = Some z" "state z = RUNNING"
    and e: "contents (task_queue z) = []" and len: "length (log_callers L) = length (log_requested L)"
    using assms(2) by (auto simp: log_idle_def)
  let ?x = "next_task ?\<sigma>"
  let ?q1 = "push_ignore Q ?x (task_queue z)"
  have "contents ?q1 = [?x]" by (simp add: reliable_queue.push_ignore_appends [OF assms(1)] e)
  then obtain q2 where pop: "lfq_pop Q ?q1 = Some (?x, q2)" and q2: "contents q2 = []"
    by (rule lockfree_queue.pop_nonempty [OF lf])
  have empty: "lfq_empty Q (task_queue z)" "lfq_empty Q q2" "lfq_pop Q q2 = None"
    by (simp_all add: lockfree_queue.empty_contents [OF lf] lockfree_queue.pop_None_iff [OF lf] q2 e)
  have tl: "tl_process ?\<sigma> TU_Serializer t = None"
    using lockfree_queue.reachable_worker_copy [OF lf r] by (simp add: worker_copy_unused_def)
  have now: "processing_now ?\<sigma> t = None" using idle_not_processing [OF r st] .
  have "\<exists>L2. log_steps Q E t 11 L1 = Inr L2 \<and> stacks (log_tasks L2) t = [] \<and>
      sers (log_tasks L2) 0 = Some (z\<lparr>task_queue := q2\<rparr>) \<and> log_sink L2 = write_log E l (log_sink L) \<and>
      length (log_callers L2) = length (log_requested L2)"
    using st z len by (simp add: L1 log_request_task_def Let_def log_step_def level_alive_def nth_append no_calls_def run_defs tl now empty pop)
  then obtain L2 where L2: "log_steps Q E t 11 L1 = Inr L2" "stacks (log_tasks L2) t = []"
    "sers (log_tasks L2) 0 = Some (z\<lparr>task_queue := q2\<rparr>)" "log_sink L2 = write_log E l (log_sink L)"
    "length (log_callers L2) = length (log_requested L2)" by blast
  have "reachable Q no_calls 1 (log_tasks L1)"
    using reachable.step [OF r sys_step.enter_call [OF st]] by (simp add: L1 log_request_task_def Let_def)
  then have "reachable Q no_calls 1 (log_tasks L2)" using log_steps_tasks [OF L2(1)] by (rule run_thread_for_reachable)
  with L2 z q2 show ?thesis by (auto simp: log_idle_def)
qed

lemma write_log_level: "min_level (write_log E l h) = min_level h"
  by (simp add: write_log_def write_to_stdout_def write_to_file_def Let_def)

lemma log_series_spec:
  assumes "reliable_queue Q contents"
  shows "log_idle Q contents t L \<Longrightarrow> lines_of (min_level (log_sink L)) rs = Inr ls \<Longrightarrow>
    \<exists>L'. log_series Q E t rs L = Inr L' \<and> log_idle Q contents t L' \<and> log_sink L' = write_logs E ls (log_sink L)"
proof (induction rs arbitrary: L ls)
  case (Cons r rs)
  obtain lv loc message now where r: "r = (lv, loc, message, now)" by (cases r)
  from Cons.prems(2) obtain a ls1 where a: "log_impl (min_level (log_sink L)) lv loc message now = Inr a"
    and ls1: "lines_of (min_level (log_sink L)) rs = Inr ls1" and ls: "ls = (case a of None \<Rightarrow> ls1 | Some l \<Rightarrow> l # ls1)"
    by (auto simp: r outcome_simps)
  show ?case
  proof (cases a)
    case None
    with a have "log_call t r L = Inr L" by (simp add: log_call_def r)
    moreover have "log_steps Q E t 11 L = Inr L" using Cons.prems(1) by (intro log_steps_idle) (simp add: log_idle_def)
    ultimately show ?thesis using Cons.IH [OF Cons.prems(1) ls1] None ls by simp
  next
    case (Some l)
    let ?L1 = "log_request_task t l L"
    from a Some have call: "log_call t r L = Inr ?L1" by (simp add: log_call_def r)
    obtain L2 where L2: "log_steps Q E t 11 ?L1 = Inr L2" "log_idle Q contents t L2" "log_sink L2 = write_log E l (log_sink L)"
      using log_requested_line [OF assms Cons.prems(1) refl] by blast
    have "lines_of (min_level (log_sink L2)) rs = Inr ls1" using ls1 by (simp add: L2(3) write_log_level)
    from Cons.IH [OF L2(2) this] show ?thesis using call L2 ls Some by simp
  qed
qed simp

lemma write_log_out: "out_lines (write_log E l h) = out_lines h @ [format_log l]"
  by (simp add: write_log_def write_to_stdout_def write_to_file_def Let_def)

lemma write_logs_out: "out_lines (write_logs E ls h) = out_lines h @ map format_log ls"
  by (induction ls arbitrary: h) (simp_all add: write_log_out)

section \<open>What it gives\<close>

definition race_request :: "string \<Rightarrow> log_request" where
  "race_request message = (LOG_INFO, \<lparr>loc_file = ''a.cc'', loc_line = 1, loc_function = ''f''\<rparr>, message, demo_time)"

definition race_line :: "string \<Rightarrow> log_line" where
  "race_line message = (LOG_INFO, ''2025-12-30 02:34:56'', ''[a.cc:1 f]'', message)"

definition silent_env :: file_env where
  "silent_env = \<lparr>can_open = (\<lambda>_. False), can_write = (\<lambda>_ _. False)\<rparr>"

definition log_start :: "nat list log_sys" where
  "log_start = log_get_instance list_queue (\<lambda>_. []) None"

lemma race_location: "format_location \<lparr>loc_file = ''a.cc'', loc_line = 1, loc_function = ''f''\<rparr> = ''[a.cc:1 f]''"
  by code_simp

lemma race_call:
  "min_level (log_sink L) = 0 \<Longrightarrow> log_call t (race_request m) L = Inr (log_request_task t (race_line m) L)"
  by (simp add: log_call_def race_request_def log_impl_def capture_demo_time race_location race_line_def LOG_INFO_def
      del: One_nat_def)

text \<open>
  A single thread that logs loses nothing: with nobody else in the log handler, every call writes its line before it
  returns. A series of calls runs through, leaves the handler idle again, and has put every line whose level is not
  filtered out on the standard output, in the order of the calls.
\<close>

theorem single_thread_logs_all:
  assumes "reliable_queue Q contents" and "log_idle Q contents t L" and "lines_of (min_level (log_sink L)) rs = Inr ls"
  shows "\<exists>L'. log_series Q E t rs L = Inr L' \<and> log_idle Q contents t L' \<and>
    log_sink L' = write_logs E ls (log_sink L) \<and> out_lines (log_sink L') = out_lines (log_sink L) @ map format_log ls"
  using log_series_spec [OF assms, of E] write_logs_out [of E ls "log_sink L"] by auto

theorem single_thread_logs_all_witness:
  "\<exists>L'. log_series list_queue silent_env 0 [race_request ''a'', (- 1, \<lparr>loc_file = ''a.cc'', loc_line = 1, loc_function = ''f''\<rparr>, ''quiet'', demo_time),
       race_request ''b''] log_start = Inr L' \<and>
     out_lines (log_sink L') = [format_log (race_line ''a''), format_log (race_line ''b'')]"
proof -
  have idle: "log_idle list_queue (\<lambda>q. q) 0 log_start"
    by (auto simp: log_idle_def log_start_def log_get_instance_def reachable.start) (simp_all add: start_sys_def)
  have "lines_of (min_level (log_sink log_start)) [race_request ''a'',
      (- 1, \<lparr>loc_file = ''a.cc'', loc_line = 1, loc_function = ''f''\<rparr>, ''quiet'', demo_time), race_request ''b''] =
    Inr [race_line ''a'', race_line ''b'']"
    by (simp add: race_request_def log_impl_def capture_demo_time race_location race_line_def LOG_INFO_def log_start_def
        log_get_instance_def log_handler_new_def del: One_nat_def)
  from single_thread_logs_all [OF lq.reliable_queue_axioms idle this, of silent_env] show ?thesis
    by (auto simp: log_start_def log_get_instance_def log_handler_new_def)
qed

lemmas log_run_defs = log_request_task_def Let_def log_step_def level_alive_def no_calls_def run_defs eval_nat_numeral

text \<open>
  The log is not serialized, against what the comments of the log handler say: when a thread logs while another one is
  between the dequeuing and the writing of a line, it finds the queue empty and processes the handler as well. Both are then
  in \<open>write_log\<close> at the same time, which uses the file stream without a lock, and the lines can come out in the wrong order.
\<close>

theorem log_lines_race:
  "\<exists>L L'. log_run list_queue silent_env [Logs 0 (race_request ''a''), Steps 0 6, Logs 1 (race_request ''b''), Steps 1 6] log_start = Inr L \<and>
     log_requested L = [race_line ''a'', race_line ''b''] \<and>
     line_written (stacks (log_tasks L) 0) L = Some 0 \<and>
     line_written (stacks (log_tasks L) 1) L = Some 1 \<and>
     log_run list_queue silent_env [Steps 1 1, Steps 0 1] L = Inr L' \<and>
     out_lines (log_sink L') = [format_log (race_line ''b''), format_log (race_line ''a'')]"
  by (simp add: log_start_def log_get_instance_def log_handler_new_def LOG_INFO_def race_call log_run_defs write_log_disabled)

text \<open>
  A log line can be lost: with two threads that log at the same time both calls can return with one line written
  and the other one in the queue of the handler, where it stays, since nobody is about to process it.
\<close>

theorem log_line_lost:
  "\<exists>L. log_run list_queue silent_env [Logs 0 (race_request ''a''), Steps 0 3, Logs 1 (race_request ''b''), Steps 1 2, Steps 0 8, Steps 1 1]
       log_start = Inr L \<and>
     log_requested L = [race_line ''a'', race_line ''b''] \<and> out_lines (log_sink L) = [format_log (race_line ''a'')] \<and>
     stacks (log_tasks L) 0 = [] \<and> stacks (log_tasks L) 1 = [] \<and> stranded (\<lambda>q. q) (log_tasks L) 0"
  by (simp add: log_start_def log_get_instance_def log_handler_new_def LOG_INFO_def race_call log_run_defs write_log_disabled stranded_def)


end
