(* ===== verification/Log_Lines.thy ===== *)
theory Log_Lines
  imports Log_Tasks Task_Shutdown
begin

text \<open>
  Every state that logging threads, polling workers and changes of the handler's configuration can reach, in every
  interleaving: where each requested line is, and the only fault. At the end, the destructor of the handler.
\<close>

section \<open>The states\<close>

inductive log_reachable :: "'q lfq_ops \<Rightarrow> file_env \<Rightarrow> (string \<Rightarrow> string) \<Rightarrow> 'q log_sys \<Rightarrow> bool"
  for Q E fs where
  start: "log_reachable Q E fs (log_get_instance Q fs None)"
| call: "log_reachable Q E fs L \<Longrightarrow> stacks (log_tasks L) t = [] \<Longrightarrow> log_call t r L = Inr L' \<Longrightarrow> log_reachable Q E fs L'"
| poll: "log_reachable Q E fs L \<Longrightarrow> stacks (log_tasks L) t = [] \<Longrightarrow>
    log_reachable Q E fs (L\<lparr>log_tasks := enter t Call_Poll (log_tasks L), log_current := (log_current L)(t := None)\<rparr>)"
| step: "log_reachable Q E fs L \<Longrightarrow> log_step Q E t L = Inr L' \<Longrightarrow> log_reachable Q E fs L'"
| configure: "log_reachable Q E fs L \<Longrightarrow>
    h = log_initialize E path level (log_sink L) \<or> h = set_min_level level (log_sink L) \<or>
      h = enable_file_output E path (log_sink L) \<or> h = disable_file_output (log_sink L) \<Longrightarrow>
    log_reachable Q E fs (L\<lparr>log_sink := h\<rparr>)"

lemma log_call_cases:
  assumes "log_call t r L = Inr L'"
  obtains "L' = L" | l where "L' = log_request_task t l L"
  using assms by (cases r) (auto simp: log_call_def outcome_simps split: option.splits)

lemma log_step_tasks:
  "log_step Q E t L = Inr L' \<Longrightarrow> thread_step Q no_calls t (log_tasks L) = Inr (log_tasks L')"
  by (auto simp: log_step_def outcome_simps split: option.splits if_splits)

lemma log_reachable_tasks: "log_reachable Q E fs L \<Longrightarrow> reachable Q no_calls 1 (log_tasks L)"
proof (induction rule: log_reachable.induct)
  case start
  show ?case by (simp add: log_get_instance_def reachable.start)
next
  case (call L t r L')
  from call.hyps(3) show ?case
    by (cases rule: log_call_cases)
      (use call in \<open>auto simp: log_request_task_def Let_def intro: reachable.step sys_step.enter_call\<close>)
next
  case (poll L t)
  then show ?case by (auto intro: reachable.step sys_step.enter_call)
next
  case (step L t L')
  note s = log_step_tasks [OF step.hyps(2)]
  show ?case
  proof (cases "stacks (log_tasks L) t = []")
    case True
    with s step.IH show ?thesis by (simp add: thread_step_def)
  next
    case False
    from reachable.step [OF step.IH sys_step.run_thread [OF False s]] show ?thesis .
  qed
qed simp

text \<open>A run whose calls are made by threads outside the handler stays inside these states.\<close>

fun idle_calls :: "'q lfq_ops \<Rightarrow> file_env \<Rightarrow> log_event list \<Rightarrow> 'q log_sys \<Rightarrow> bool" where
  "idle_calls Q E [] L = True"
| "idle_calls Q E (Logs t r # es) L \<longleftrightarrow>
     stacks (log_tasks L) t = [] \<and> (case log_call t r L of Inl e \<Rightarrow> True | Inr L' \<Rightarrow> idle_calls Q E es L')"
| "idle_calls Q E (Steps t n # es) L \<longleftrightarrow>
     (case log_steps Q E t n L of Inl e \<Rightarrow> True | Inr L' \<Rightarrow> idle_calls Q E es L')"

lemma log_steps_reachable: "log_reachable Q E fs L \<Longrightarrow> log_steps Q E t n L = Inr L' \<Longrightarrow> log_reachable Q E fs L'"
  by (induction n arbitrary: L) (auto simp: outcome_simps intro: log_reachable.step)

lemma log_run_reachable:
  "log_reachable Q E fs L \<Longrightarrow> idle_calls Q E es L \<Longrightarrow> log_run Q E es L = Inr L' \<Longrightarrow> log_reachable Q E fs L'"
proof (induction es arbitrary: L)
  case (Cons e es)
  show ?case
  proof (cases e)
    case (Logs t r)
    with Cons.prems obtain L1 where "log_call t r L = Inr L1" "log_run Q E es L1 = Inr L'" "idle_calls Q E es L1"
      "stacks (log_tasks L) t = []"
      by (auto simp: outcome_simps)
    with Cons.prems(1) show ?thesis by (blast intro: Cons.IH log_reachable.call)
  next
    case (Steps t n)
    with Cons.prems obtain L1 where "log_steps Q E t n L = Inr L1" "log_run Q E es L1 = Inr L'" "idle_calls Q E es L1"
      by (auto simp: outcome_simps)
    with Cons.prems(1) show ?thesis by (blast intro: Cons.IH log_steps_reachable)
  qed
qed simp

section \<open>What the threads do\<close>

text \<open>A thread that logs, or a worker that polls, has at most one frame, and it works on the handler.\<close>

fun log_frame :: "frame \<Rightarrow> bool" where
  "log_frame (F_Request s (User_Task f)) \<longleftrightarrow> s = 0"
| "log_frame (F_Push s x) \<longleftrightarrow> s = 0"
| "log_frame (F_Enqueue s x b) \<longleftrightarrow> s = 0"
| "log_frame (F_Route s) \<longleftrightarrow> s = 0"
| "log_frame (F_Process d s) \<longleftrightarrow> s = 0"
| "log_frame (F_Loop d n cur) \<longleftrightarrow> True"
| "log_frame (F_Invoke d n x acts) \<longleftrightarrow> acts = []"
| "log_frame (F_Check_State d cur) \<longleftrightarrow> True"
| "log_frame (F_Check_Empty d cur) \<longleftrightarrow> True"
| "log_frame (F_Readd d cur) \<longleftrightarrow> True"
| "log_frame (F_Leave cur) \<longleftrightarrow> True"
| "log_frame (F_Poll d) \<longleftrightarrow> d = TU_Worker"
| "log_frame _ \<longleftrightarrow> False"

definition log_stack :: "frame list \<Rightarrow> nat option \<Rightarrow> bool" where
  "log_stack stk now \<longleftrightarrow>
     (stk = [] \<and> now = None) \<or> (\<exists>fr. stk = [fr] \<and> log_frame fr \<and> now = (if processing fr then Some 0 else None))"

definition log_shape :: "'q task_sys \<Rightarrow> bool" where
  "log_shape \<sigma> \<longleftrightarrow> (\<exists>z. sers \<sigma> 0 = Some z \<and> state z = RUNNING) \<and>
     (\<forall>t. log_stack (stacks \<sigma> t) (processing_now \<sigma> t)) \<and>
     (\<forall>x k. tasks \<sigma> x = Some k \<longrightarrow> (\<exists>f. task_code k = User_Task f))"

text \<open>The lines by their numbers: the line of a task, the lines of a frame.\<close>

definition line_of :: "'q task_sys \<Rightarrow> nat \<Rightarrow> nat" where
  "line_of \<sigma> x = (case code_of \<sigma> x of Some (User_Task f) \<Rightarrow> f | _ \<Rightarrow> 0)"

fun frame_lines :: "'q task_sys \<Rightarrow> frame \<Rightarrow> nat list" where
  "frame_lines \<sigma> (F_Request s (User_Task f)) = [f]"
| "frame_lines \<sigma> (F_Push s x) = [line_of \<sigma> x]"
| "frame_lines \<sigma> (F_Enqueue s x b) = [line_of \<sigma> x]"
| "frame_lines \<sigma> (F_Invoke d n x acts) = [line_of \<sigma> x]"
| "frame_lines \<sigma> _ = []"

definition waiting_lines :: "('q \<Rightarrow> nat list) \<Rightarrow> 'q task_sys \<Rightarrow> nat list" where
  "waiting_lines contents \<sigma> = map (line_of \<sigma>) (queued contents \<sigma> 0)"

definition carried_lines :: "'q task_sys \<Rightarrow> nat \<Rightarrow> nat list" where
  "carried_lines \<sigma> t = concat (map (frame_lines \<sigma>) (stacks \<sigma> t))"

datatype line_place = Written | Waiting | Carried nat

fun lines_at :: "('q \<Rightarrow> nat list) \<Rightarrow> 'q task_sys \<Rightarrow> nat list \<Rightarrow> line_place \<Rightarrow> nat list" where
  "lines_at contents \<sigma> written Written = written"
| "lines_at contents \<sigma> written Waiting = waiting_lines contents \<sigma>"
| "lines_at contents \<sigma> written (Carried t) = carried_lines \<sigma> t"

section \<open>One step\<close>

text \<open>
  A step of the tasks never faults, and its effect on the lines is one of: none, a line enters the queue, a line leaves the
  queue, a line is written.
\<close>

definition frames_ok :: "frame list \<Rightarrow> nat \<Rightarrow> (nat \<Rightarrow> nat option) \<Rightarrow> (nat \<Rightarrow> nat option) \<Rightarrow> bool" where
  "frames_ok frs t now now1 \<longleftrightarrow> log_stack frs (now1 t) \<and> (\<forall>u. u \<noteq> t \<longrightarrow> now1 u = now u)"

definition log_move where
  "log_move fr q c q1 c1 \<longleftrightarrow>
     (case fr of
        F_Enqueue s x b \<Rightarrow> \<exists>f. q1 = q @ [f] \<and> c = [f] \<and> c1 = []
      | F_Loop d n cur \<Rightarrow> c = [] \<and> (q1 = q \<and> c1 = [] \<or> (\<exists>f. q = f # q1 \<and> c1 = [f]))
      | F_Invoke d n x acts \<Rightarrow> \<exists>f. q1 = q \<and> c = [f] \<and> c1 = []
      | _ \<Rightarrow> q1 = q \<and> c1 = c)"


definition step_ok where
  "step_ok contents t fr \<sigma> frs \<sigma>1 \<longleftrightarrow>
     (\<exists>z. sers \<sigma>1 0 = Some z \<and> state z = RUNNING) \<and>
     (\<forall>x k. tasks \<sigma>1 x = Some k \<longrightarrow> (\<exists>f. task_code k = User_Task f)) \<and>
     frames_ok frs t (tl_process \<sigma> TU_Distributor) (tl_process \<sigma>1 TU_Distributor) \<and>
     log_move fr (waiting_lines contents \<sigma>) (frame_lines \<sigma> fr) (waiting_lines contents \<sigma>1)
       (concat (map (frame_lines \<sigma>1) frs)) \<and>
     (\<forall>x. x < next_task \<sigma> \<longrightarrow> x \<notin> set (frame_tasks fr) \<longrightarrow> line_of \<sigma>1 x = line_of \<sigma> x)"

lemma drop_held_own:
  assumes "\<forall>(x, r)\<in>set (held_refs cur). refs_of \<sigma> x = Some r"
  shows "drop_held cur \<sigma> = Inr (\<sigma>\<lparr>tasks := (case cur of None \<Rightarrow> tasks \<sigma> | Some x \<Rightarrow> (tasks \<sigma>)(x := None))\<rparr>)"
  using assms by (cases cur) (auto simp: drop_held_def drop_task_def refs_of_def)

lemma line_of_tasks: "tasks \<sigma>1 x = tasks \<sigma> x \<Longrightarrow> line_of \<sigma>1 x = line_of \<sigma> x"
  by (simp add: line_of_def code_of_def)

lemma waiting_same: "sers \<sigma>1 0 = sers \<sigma> 0 \<Longrightarrow> (\<And>x. x \<in> set (queued contents \<sigma> 0) \<Longrightarrow> line_of \<sigma>1 x = line_of \<sigma> x) \<Longrightarrow>
    waiting_lines contents \<sigma>1 = waiting_lines contents \<sigma>"
  by (simp add: waiting_lines_def queued_def)

context reliable_queue
begin

lemma log_loop_step:
  assumes ok: "tasks_ok contents \<sigma>" and z: "sers \<sigma> 0 = Some z" "state z = RUNNING"
    and st: "stacks \<sigma> t = [F_Loop d n cur]" and now: "processing_now \<sigma> t = Some 0"
    and user: "\<forall>x k. tasks \<sigma> x = Some k \<longrightarrow> (\<exists>f. task_code k = User_Task f)"
  shows "\<exists>frs \<sigma>1. step_frame Q no_calls t (F_Loop d n cur) \<sigma> = Inr (frs, \<sigma>1) \<and> step_ok contents t (F_Loop d n cur) \<sigma> frs \<sigma>1"
proof -
  have "\<forall>(x, r)\<in>set (frames_refs (stacks \<sigma> t)). refs_of \<sigma> x = Some r" using ok by (auto simp: tasks_ok_def)
  then have own: "\<forall>(x, r)\<in>set (held_refs cur). refs_of \<sigma> x = Some r" by (simp add: st)
  have free: "\<forall>x\<in>set (queued contents \<sigma> 0). refs_of \<sigma> x = Some 0" using ok by (auto simp: tasks_ok_def)
  have apart: "x \<notin> fst ` set (held_refs cur)" if "x \<in> set (queued contents \<sigma> 0)" for x
    using own free that by (cases cur) auto
  have q: "queued contents \<sigma> 0 = contents (task_queue z)" using z by (simp add: queued_def)
  show ?thesis
  proof (cases "contents (task_queue z)")
    case Nil
    then have "lfq_pop Q (task_queue z) = None" by (simp add: pop_None_iff)
    then show ?thesis
      using now z user drop_held_own [OF own] Nil
      by (auto simp: with_current_def with_ser_def step_ok_def frames_ok_def log_stack_def log_move_def
          waiting_lines_def queued_def frame_task_defs intro!: line_of_tasks split: option.splits if_splits)
  next
    case (Cons x xs)
    then obtain q' where pop: "lfq_pop Q (task_queue z) = Some (x, q')" "contents q' = xs" by (rule pop_nonempty)
    have xq: "x \<in> set (queued contents \<sigma> 0)" by (simp add: q Cons)
    then obtain k f where k: "tasks \<sigma> x = Some k" "ref_count k = 0" "task_code k = User_Task f"
      using free user by (fastforce simp: refs_of_def)
    let ?\<sigma>2 = "put_ser 0 (z\<lparr>task_queue := q'\<rparr>) \<sigma>\<lparr>tasks := (tasks \<sigma>)(x \<mapsto> k\<lparr>ref_count := 1\<rparr>)\<rparr>"
    have hold: "hold_task x (put_ser 0 (z\<lparr>task_queue := q'\<rparr>) \<sigma>) = Inr ?\<sigma>2"
      using k by (simp add: hold_task_def put_ser_def add_ref_def)
    have "\<forall>(y, r)\<in>set (held_refs cur). refs_of ?\<sigma>2 y = Some r"
      using own apart [OF xq] by (cases cur) (auto simp: refs_of_def put_ser_def)
    note drop = drop_held_own [OF this]
    let ?\<sigma>3 = "?\<sigma>2\<lparr>tasks := (case cur of None \<Rightarrow> tasks ?\<sigma>2 | Some y \<Rightarrow> (tasks ?\<sigma>2)(y := None))\<rparr>"
    have x3: "tasks ?\<sigma>3 x = Some (k\<lparr>ref_count := 1\<rparr>)" using apart [OF xq] by (cases cur) auto
    have step: "step_frame Q no_calls t (F_Loop d n cur) \<sigma> = Inr ([F_Invoke d n x []], ?\<sigma>3)"
      using now z pop(1) hold drop x3 k(3) by (simp add: with_current_def with_ser_def no_calls_def)
    have line: "line_of ?\<sigma>3 y = line_of \<sigma> y" if "y \<notin> fst ` set (held_refs cur)" for y
    proof (cases "y = x")
      case True
      then show ?thesis using x3 k by (simp add: line_of_def code_of_def)
    next
      case False
      with that show ?thesis by (intro line_of_tasks) (cases cur; auto)
    qed
    have "waiting_lines contents \<sigma> = line_of \<sigma> x # map (line_of \<sigma>) xs" by (simp add: waiting_lines_def q Cons)
    moreover have "waiting_lines contents ?\<sigma>3 = map (line_of ?\<sigma>3) xs"
      by (simp add: waiting_lines_def queued_def put_ser_def pop(2))
    moreover have "map (line_of ?\<sigma>3) xs = map (line_of \<sigma>) xs"
      by (intro map_cong refl line apart) (simp add: q Cons)
    moreover have "line_of ?\<sigma>3 x = line_of \<sigma> x" by (intro line apart xq)
    ultimately have "log_move (F_Loop d n cur) (waiting_lines contents \<sigma>) (frame_lines \<sigma> (F_Loop d n cur))
        (waiting_lines contents ?\<sigma>3) (concat (map (frame_lines ?\<sigma>3) [F_Invoke d n x []]))"
      by (simp add: log_move_def)
    moreover have "\<forall>y k. tasks ?\<sigma>3 y = Some k \<longrightarrow> (\<exists>f. task_code k = User_Task f)"
      using user k by (cases cur) auto
    moreover have "frames_ok [F_Invoke d n x []] t (tl_process \<sigma> TU_Distributor) (tl_process ?\<sigma>3 TU_Distributor)"
      using now by (simp add: frames_ok_def log_stack_def put_ser_def)
    moreover have "\<exists>z. sers ?\<sigma>3 0 = Some z \<and> state z = RUNNING" using z by (simp add: put_ser_def)
    ultimately have "step_ok contents t (F_Loop d n cur) \<sigma> [F_Invoke d n x []] ?\<sigma>3"
      using line unfolding step_ok_def by (simp add: frame_tasks_def)
    with step show ?thesis by blast
  qed
qed

lemma log_step_frame:
  assumes ok: "tasks_ok contents \<sigma>" and unused: "worker_copy_unused contents \<sigma>"
    and shape: "log_shape \<sigma>" and st: "stacks \<sigma> t = fr # rest"
  shows "\<exists>frs \<sigma>1. step_frame Q no_calls t fr \<sigma> = Inr (frs, \<sigma>1) \<and> step_ok contents t fr \<sigma> frs \<sigma>1"
proof -
  obtain z where z: "sers \<sigma> 0 = Some z" "state z = RUNNING" using shape by (auto simp: log_shape_def)
  have user: "\<forall>x k. tasks \<sigma> x = Some k \<longrightarrow> (\<exists>f. task_code k = User_Task f)" using shape by (simp add: log_shape_def)
  have "log_stack (stacks \<sigma> t) (processing_now \<sigma> t)" using shape by (simp add: log_shape_def)
  then have fr: "log_frame fr" "stacks \<sigma> t = [fr]" and now: "processing_now \<sigma> t = (if processing fr then Some 0 else None)"
    using st by (simp_all add: log_stack_def)
  have tl: "tl_process \<sigma> TU_Serializer t = None" and dw: "lfq_pop Q (dist \<sigma> TU_Worker) = None"
    using unused by (simp_all add: worker_copy_unused_def pop_None_iff)
  have refs: "\<forall>(x, r)\<in>set (frame_refs fr). refs_of \<sigma> x = Some r"
    using ok fr(2) unfolding tasks_ok_def by (metis append.right_neutral frames_refs_simps(1,2))
  have old: "x < next_task \<sigma>" if "x \<in> set (queued contents \<sigma> 0)" for x
    using ok that unfolding tasks_ok_def by (metis tasks_at.simps(1))
  note defs = step_ok_def frames_ok_def log_stack_def log_move_def with_ser_def with_current_def put_ser_def
    set_tl_def dist_push_def frame_task_defs
  show ?thesis
  proof (cases fr)
    case (F_Request s c)
    with fr obtain f where f: "c = User_Task f" "s = 0" by (cases c) auto
    let ?x = "next_task \<sigma>"
    let ?\<sigma>1 = "\<sigma>\<lparr>tasks := (tasks \<sigma>)(?x \<mapsto> \<lparr>task_code = User_Task f, ref_count = 0\<rparr>), next_task := Suc ?x\<rparr>"
    have "step_frame Q no_calls t fr \<sigma> = Inr ([F_Push 0 ?x], ?\<sigma>1)" using F_Request f z by (simp add: with_ser_def new_task_def)
    moreover have "waiting_lines contents ?\<sigma>1 = waiting_lines contents \<sigma>"
      by (intro waiting_same) (auto intro!: line_of_tasks dest: old)
    ultimately show ?thesis
      using F_Request f z user now by (auto simp: defs line_of_def code_of_def)
  next
    case (F_Enqueue s x b)
    let ?\<sigma>1 = "put_ser 0 (z\<lparr>task_queue := push_ignore Q x (task_queue z)\<rparr>) \<sigma>"
    have "step_frame Q no_calls t fr \<sigma> = Inr (if b then [F_Route 0] else [], ?\<sigma>1)"
      using F_Enqueue fr z by (simp add: with_ser_def)
    moreover have "waiting_lines contents ?\<sigma>1 = waiting_lines contents \<sigma> @ [line_of \<sigma> x]"
      using z by (simp add: waiting_lines_def queued_def put_ser_def line_of_def code_of_def)
    moreover have "line_of ?\<sigma>1 y = line_of \<sigma> y" for y by (rule line_of_tasks) (simp add: put_ser_def)
    ultimately show ?thesis
      using F_Enqueue fr z user now by (auto simp: defs)
  next
    case (F_Loop d n cur)
    with log_loop_step [OF ok z] fr now user show ?thesis by simp
  next
    case (F_Leave cur)
    let ?\<sigma>' = "set_tl TU_Distributor t None \<sigma>"
    have "\<forall>(x, r)\<in>set (held_refs cur). refs_of ?\<sigma>' x = Some r"
      using refs F_Leave by (simp add: refs_of_def set_tl_def)
    note drop = drop_held_own [OF this]
    let ?\<sigma>1 = "?\<sigma>'\<lparr>tasks := (case cur of None \<Rightarrow> tasks ?\<sigma>' | Some x \<Rightarrow> (tasks ?\<sigma>')(x := None))\<rparr>"
    have step: "step_frame Q no_calls t fr \<sigma> = Inr ([], ?\<sigma>1)" using F_Leave drop by simp
    have line: "line_of ?\<sigma>1 y = line_of \<sigma> y" if "y \<notin> fst ` set (held_refs cur)" for y
      using that by (intro line_of_tasks) (cases cur; auto simp: set_tl_def)
    have "\<forall>x\<in>set (queued contents \<sigma> 0). refs_of \<sigma> x = Some 0" using ok by (auto simp: tasks_ok_def)
    then have "x \<notin> fst ` set (held_refs cur)" if "x \<in> set (queued contents \<sigma> 0)" for x
      using refs F_Leave that by (cases cur) auto
    then have "waiting_lines contents ?\<sigma>1 = waiting_lines contents \<sigma>"
      using line by (intro waiting_same) (auto simp: set_tl_def)
    moreover have "\<forall>y k. tasks ?\<sigma>1 y = Some k \<longrightarrow> (\<exists>f. task_code k = User_Task f)"
      using user by (cases cur) (auto simp: set_tl_def)
    ultimately have "step_ok contents t fr \<sigma> [] ?\<sigma>1"
      using F_Leave z line unfolding step_ok_def by (simp add: frames_ok_def log_stack_def log_move_def set_tl_def frame_tasks_def)
    with step show ?thesis by blast
  next
    case (F_Poll d)
    with fr dw now z user show ?thesis by (auto simp: defs)
  next
    case (F_Route s)
    with fr tl now z user show ?thesis by (auto simp: defs)
  next
    case (F_Readd d cur)
    with fr tl now z user show ?thesis by (auto simp: defs waiting_lines_def queued_def line_of_def code_of_def)
  next
    case (F_Process d s)
    with fr tl now z user show ?thesis by (auto simp: defs waiting_lines_def queued_def line_of_def code_of_def)
  next
    case (F_Invoke d n x acts)
    with fr now z user show ?thesis by (auto simp: defs waiting_lines_def queued_def line_of_def code_of_def)
  next
    case (F_Check_Empty d cur)
    with fr now z user show ?thesis by (auto simp: defs waiting_lines_def queued_def line_of_def code_of_def)
  next
    case (F_Check_State d cur)
    with fr now z user show ?thesis by (auto simp: defs waiting_lines_def queued_def line_of_def code_of_def)
  next
    case (F_Push s x)
    with fr now z user show ?thesis by (auto simp: defs waiting_lines_def queued_def line_of_def code_of_def)
  qed (use fr in simp_all)
qed

end

section \<open>Every reachable state\<close>

definition lines_ok :: "('q \<Rightarrow> nat list) \<Rightarrow> 'q log_sys \<Rightarrow> nat list \<Rightarrow> bool" where
  "lines_ok contents L written \<longleftrightarrow>
     exclusive (lines_at contents (log_tasks L) written) \<and>
     (\<forall>f. (\<exists>p. f \<in> set (lines_at contents (log_tasks L) written p)) \<longleftrightarrow> f < length (log_requested L)) \<and>
     out_lines (log_sink L) = map (\<lambda>f. format_log (log_requested L ! f)) written"

lemma move_covers:
  assumes "h p = x # xs" and "p \<noteq> q" and "set ys = insert x (set (h q))"
  shows "(\<exists>r. y \<in> set ((h(p := xs, q := ys)) r)) \<longleftrightarrow> (\<exists>r. y \<in> set (h r))"
proof
  assume "\<exists>r. y \<in> set ((h(p := xs, q := ys)) r)"
  then obtain r where r: "y \<in> set ((h(p := xs, q := ys)) r)" ..
  show "\<exists>r. y \<in> set (h r)"
  proof (cases "y = x")
    case True
    then show ?thesis using assms(1) by (intro exI [of _ p]) simp
  next
    case False
    then show ?thesis using r assms by (intro exI [of _ r]) (auto split: if_splits)
  qed
next
  assume "\<exists>r. y \<in> set (h r)"
  then obtain r where r: "y \<in> set (h r)" ..
  show "\<exists>r. y \<in> set ((h(p := xs, q := ys)) r)"
  proof (cases "y = x \<or> r = q")
    case True
    then show ?thesis using r assms by (intro exI [of _ q]) auto
  next
    case False
    then show ?thesis using r assms by (intro exI [of _ r]) auto
  qed
qed

lemma place_covers:
  assumes "h p = []"
  shows "(\<exists>r. y \<in> set ((h(p := [x])) r)) \<longleftrightarrow> y = x \<or> (\<exists>r. y \<in> set (h r))"
proof
  assume "y = x \<or> (\<exists>r. y \<in> set (h r))"
  then show "\<exists>r. y \<in> set ((h(p := [x])) r)"
  proof
    assume "\<exists>r. y \<in> set (h r)"
    then obtain r where r: "y \<in> set (h r)" ..
    with assms have "r \<noteq> p" by auto
    with r show ?thesis by (intro exI [of _ r]) simp
  qed (intro exI [of _ p], simp)
qed (auto split: if_splits)

lemma lines_ok_move:
  assumes ok: "exclusive h" "\<forall>f. (\<exists>p. f \<in> set (h p)) \<longleftrightarrow> f < n" and p: "h p = x # xs" "p \<noteq> q"
    and ys: "ys = h q @ [x] \<or> (h q = [] \<and> ys = [x])"
  shows "exclusive (h(p := xs, q := ys)) \<and> (\<forall>f. (\<exists>r. f \<in> set ((h(p := xs, q := ys)) r)) \<longleftrightarrow> f < n)"
proof -
  have "set ys = insert x (set (h q))" using ys by auto
  from move_covers [OF p this] have "\<forall>f. (\<exists>r. f \<in> set ((h(p := xs, q := ys)) r)) \<longleftrightarrow> f < n" using ok(2) by simp
  moreover have "exclusive (h(p := xs, q := ys))" using ys by (intro exclusive_move [OF ok(1) p]) auto
  ultimately show ?thesis by simp
qed

lemma frame_lines_same: "(\<And>x. x \<in> set (frame_tasks fr) \<Longrightarrow> line_of \<sigma>1 x = line_of \<sigma> x) \<Longrightarrow> frame_lines \<sigma>1 fr = frame_lines \<sigma> fr"
  by (cases "(\<sigma>, fr)" rule: frame_lines.cases) (simp_all add: frame_tasks_def)

lemma lines_at_eq:
  "(\<And>u. carried_lines \<sigma>' u = (if u = t then c else carried_lines \<sigma> u)) \<Longrightarrow>
    lines_at contents \<sigma>' w' = (lines_at contents \<sigma> w)(Written := w', Waiting := waiting_lines contents \<sigma>', Carried t := c)"
proof
  fix p
  assume "\<And>u. carried_lines \<sigma>' u = (if u = t then c else carried_lines \<sigma> u)"
  then show "lines_at contents \<sigma>' w' p =
      ((lines_at contents \<sigma> w)(Written := w', Waiting := waiting_lines contents \<sigma>', Carried t := c)) p"
    by (cases p) simp_all
qed

context reliable_queue
begin

lemma log_step_lines:
  assumes reach: "reachable Q no_calls 1 (log_tasks L)" and shape: "log_shape (log_tasks L)" and lines: "lines_ok contents L written"
  shows "(\<exists>L' written'. log_step Q E t L = Inr L' \<and> log_shape (log_tasks L') \<and> lines_ok contents L' written') \<or>
    (\<exists>f. line_written (stacks (log_tasks L) t) L = Some f \<and> \<not> level_alive L f \<and> log_step Q E t L = Inl Use_After_Free)"
proof (cases "stacks (log_tasks L) t")
  case Nil
  then have "log_step Q E t L = Inr L" by (simp add: log_step_def thread_step_def)
  with shape lines show ?thesis by blast
next
  case (Cons fr rest)
  let ?\<sigma> = "log_tasks L"
  note ok = reachable_tasks [OF reach]
  have stack: "log_stack (stacks ?\<sigma> u) (processing_now ?\<sigma> u)" for u using shape by (simp add: log_shape_def)
  have fr: "log_frame fr" "rest = []" using stack [of t] Cons by (auto simp: log_stack_def)
  obtain frs \<sigma>1 where step: "step_frame Q no_calls t fr ?\<sigma> = Inr (frs, \<sigma>1)" and s1: "step_ok contents t fr ?\<sigma> frs \<sigma>1"
    using log_step_frame [OF ok reachable_worker_copy [OF reach] shape Cons] by blast
  let ?\<sigma>' = "\<sigma>1\<lparr>stacks := (stacks ?\<sigma>)(t := frs)\<rparr>"
  have st: "stacks \<sigma>1 = stacks ?\<sigma>" using step by (rule step_frame_stacks)
  have thread: "thread_step Q no_calls t ?\<sigma> = Inr ?\<sigma>'" using Cons fr(2) step st by (simp add: thread_step_def)
  have shape': "log_shape ?\<sigma>'"
    using s1 stack by (auto simp: log_shape_def step_ok_def frames_ok_def)
  have line: "line_of \<sigma>1 x = line_of ?\<sigma> x" if "x < next_task ?\<sigma>" "x \<notin> set (frame_tasks fr)" for x
    using s1 that by (simp add: step_ok_def)
  have line': "line_of ?\<sigma>' = line_of \<sigma>1" by (rule ext) (simp add: line_of_def code_of_def)
  have fl: "frame_lines ?\<sigma>' = frame_lines \<sigma>1" by (rule ext, rule frame_lines_same) (simp add: line')
  have carried: "carried_lines ?\<sigma>' u = (if u = t then concat (map (frame_lines \<sigma>1) frs) else carried_lines ?\<sigma> u)" for u
  proof (cases "u = t")
    case False
    have "frame_lines \<sigma>1 f = frame_lines ?\<sigma> f" if f: "f \<in> set (stacks ?\<sigma> u)" for f
    proof (rule frame_lines_same)
      fix x assume x: "x \<in> set (frame_tasks f)"
      with f have xu: "x \<in> set (tasks_at contents ?\<sigma> (In_Stack u))" by (force simp: frame_task_defs frames_refs_def)
      then have "x < next_task ?\<sigma>" using ok unfolding tasks_ok_def by blast
      moreover have "set (tasks_at contents ?\<sigma> (In_Stack u)) \<inter> set (tasks_at contents ?\<sigma> (In_Stack t)) = {}"
        using ok False unfolding tasks_ok_def exclusive_def by blast
      then have "x \<notin> set (frame_tasks fr)" using xu Cons by auto
      ultimately show "line_of \<sigma>1 x = line_of ?\<sigma> x" by (rule line)
    qed
    then have "map (frame_lines \<sigma>1) (stacks ?\<sigma> u) = map (frame_lines ?\<sigma>) (stacks ?\<sigma> u)" by (intro map_cong refl)
    with False show ?thesis by (simp add: carried_lines_def fl del: map_eq_conv)
  qed (simp add: carried_lines_def fl)
  have wait: "waiting_lines contents ?\<sigma>' = waiting_lines contents \<sigma>1"
    by (simp add: waiting_lines_def queued_def line')
  have ct: "carried_lines ?\<sigma> t = frame_lines ?\<sigma> fr" using Cons fr(2) by (simp add: carried_lines_def)
  note at = lines_at_eq [OF carried, of contents _ written, unfolded wait]
  let ?h = "lines_at contents ?\<sigma> written" and ?n = "length (log_requested L)"
  have ex: "exclusive ?h" "\<forall>f. (\<exists>p. f \<in> set (?h p)) \<longleftrightarrow> f < ?n" using lines by (simp_all add: lines_ok_def)
  have out: "out_lines (log_sink L) = map (\<lambda>f. format_log (log_requested L ! f)) written" using lines by (simp add: lines_ok_def)
  have move: "log_move fr (waiting_lines contents ?\<sigma>) (frame_lines ?\<sigma> fr) (waiting_lines contents \<sigma>1)
      (concat (map (frame_lines \<sigma>1) frs))" using s1 by (simp add: step_ok_def)
  have goal: ?thesis if "log_step Q E t L = Inr L'" "log_tasks L' = ?\<sigma>'" "log_requested L' = log_requested L"
    "exclusive (lines_at contents ?\<sigma>' w) \<and> (\<forall>f. (\<exists>p. f \<in> set (lines_at contents ?\<sigma>' w p)) \<longleftrightarrow> f < ?n)"
    "out_lines (log_sink L') = map (\<lambda>f. format_log (log_requested L ! f)) w" for L' w
    using that shape' by (auto simp: lines_ok_def)
  show ?thesis
  proof (cases "\<exists>d n x acts. fr = F_Invoke d n x acts")
    case True
    then obtain d n x where inv: "fr = F_Invoke d n x []" using fr(1) by auto
    have "\<forall>(x, r)\<in>set (frames_refs (stacks ?\<sigma> t)). refs_of ?\<sigma> x = Some r" using ok unfolding tasks_ok_def by blast
    then have "refs_of ?\<sigma> x = Some 1" by (simp add: Cons inv)
    then obtain k where "tasks ?\<sigma> x = Some k" by (auto simp: refs_of_def)
    with shape obtain f where f: "tasks ?\<sigma> x = Some k" "task_code k = User_Task f" unfolding log_shape_def by blast
    then have lx: "line_of ?\<sigma> x = f" by (simp add: line_of_def code_of_def)
    have lw: "line_written (stacks ?\<sigma> t) L = Some f" using Cons fr(2) inv f by simp
    show ?thesis
    proof (cases "level_alive L f")
      case False
      then have "log_step Q E t L = Inl Use_After_Free" using thread lw by (simp add: log_step_def)
      with lw False show ?thesis by blast
    next
      case True
      let ?L' = "L\<lparr>log_tasks := ?\<sigma>', log_sink := write_log E (log_requested L ! f) (log_sink L)\<rparr>"
      have "log_step Q E t L = Inr ?L'" using thread lw True by (simp add: log_step_def)
      moreover have "lines_at contents ?\<sigma>' (written @ [f]) = ?h(Carried t := [], Written := written @ [f])"
        using move inv lx by (auto simp: at log_move_def fun_eq_iff)
      moreover have "?h (Carried t) = f # []" using ct inv lx by simp
      ultimately show ?thesis
        using lines_ok_move [OF ex, of "Carried t" f "[]" Written "written @ [f]"] out
        by (intro goal [of ?L' "written @ [f]"]) (simp_all add: write_log_out)
    qed
  next
    case False
    then have nw: "line_written (stacks ?\<sigma> t) L = None" using Cons by (cases "(stacks ?\<sigma> t, L)" rule: line_written.cases) auto
    let ?L' = "L\<lparr>log_tasks := ?\<sigma>'\<rparr>"
    have L': "log_step Q E t L = Inr ?L'" using thread nw by (simp add: log_step_def)
    consider (stay) "waiting_lines contents \<sigma>1 = waiting_lines contents ?\<sigma>" "concat (map (frame_lines \<sigma>1) frs) = frame_lines ?\<sigma> fr"
      | (enq) f where "waiting_lines contents \<sigma>1 = waiting_lines contents ?\<sigma> @ [f]" "frame_lines ?\<sigma> fr = [f]"
          "concat (map (frame_lines \<sigma>1) frs) = []"
      | (pop) f where "waiting_lines contents ?\<sigma> = f # waiting_lines contents \<sigma>1" "frame_lines ?\<sigma> fr = []"
          "concat (map (frame_lines \<sigma>1) frs) = [f]"
      using move False by (cases fr) (auto simp: log_move_def)
    then have "exclusive (lines_at contents ?\<sigma>' written) \<and>
        (\<forall>f. (\<exists>p. f \<in> set (lines_at contents ?\<sigma>' written p)) \<longleftrightarrow> f < ?n)"
    proof cases
      case stay
      then have "lines_at contents ?\<sigma>' written = ?h" using ct by (auto simp: at fun_eq_iff)
      with ex show ?thesis by simp
    next
      case (enq f)
      then have "lines_at contents ?\<sigma>' written = ?h(Carried t := [], Waiting := waiting_lines contents ?\<sigma> @ [f])"
        by (auto simp: at fun_eq_iff)
      with lines_ok_move [OF ex, of "Carried t" f "[]" Waiting "waiting_lines contents ?\<sigma> @ [f]"] enq ct
      show ?thesis by simp
    next
      case (pop f)
      then have "lines_at contents ?\<sigma>' written = ?h(Waiting := waiting_lines contents \<sigma>1, Carried t := [f])"
        by (auto simp: at fun_eq_iff)
      with lines_ok_move [OF ex, of Waiting f "waiting_lines contents \<sigma>1" "Carried t" "[f]"] pop ct
      show ?thesis by simp
    qed
    with L' out show ?thesis by (intro goal [of ?L' written]) simp_all
  qed
qed


lemma log_call_lines:
  assumes shape: "log_shape (log_tasks L)" and lines: "lines_ok contents L written" and idle: "stacks (log_tasks L) t = []"
    and L': "L' = log_request_task t l L"
  shows "log_shape (log_tasks L') \<and> lines_ok contents L' written"
proof -
  let ?\<sigma> = "log_tasks L" and ?n = "length (log_requested L)"
  let ?h = "lines_at contents ?\<sigma> written"
  have shape': "log_shape (log_tasks L')" using shape idle by (auto simp: L' log_request_task_def Let_def log_shape_def log_stack_def enter_def)
  have ex: "exclusive ?h" "\<forall>f. (\<exists>p. f \<in> set (?h p)) \<longleftrightarrow> f < ?n"
    and out: "out_lines (log_sink L) = map (\<lambda>f. format_log (log_requested L ! f)) written"
    using lines by (simp_all add: lines_ok_def)
  have line: "line_of (log_tasks L') = line_of ?\<sigma>" by (rule ext) (simp add: L' log_request_task_def Let_def line_of_def code_of_def enter_def)
  have fl: "frame_lines (log_tasks L') = frame_lines ?\<sigma>" by (rule ext, rule frame_lines_same) (simp add: line)
  have h': "lines_at contents (log_tasks L') written = ?h(Carried t := [?n])"
  proof
    fix p show "lines_at contents (log_tasks L') written p = (?h(Carried t := [?n])) p"
    proof (cases p)
      case Waiting
      then show ?thesis by (simp add: waiting_lines_def line) (simp add: L' log_request_task_def Let_def enter_def queued_def)
    next
      case (Carried u)
      then show ?thesis by (simp add: carried_lines_def fl) (simp add: L' log_request_task_def Let_def enter_def)
    qed simp
  qed
  have empty: "?h (Carried t) = []" using idle by (simp add: carried_lines_def)
  have new: "?n \<notin> set (?h q)" for q using ex(2) by blast
  have "exclusive (?h(Carried t := [?n]))" by (rule exclusive_add [OF ex(1) new refl]) simp_all
  moreover have "(\<exists>p. f \<in> set ((?h(Carried t := [?n])) p)) \<longleftrightarrow> f < Suc ?n" for f
  proof -
    note place_covers [of ?h "Carried t" f ?n, OF empty]
    also have "(\<exists>p. f \<in> set (?h p)) \<longleftrightarrow> f < ?n" using ex(2) by blast
    finally show ?thesis by (auto simp only: less_Suc_eq)
  qed
  moreover have "f < ?n" if "f \<in> set written" for f using ex(2) that by (metis lines_at.simps(1))
  then have "out_lines (log_sink L') = map (\<lambda>f. format_log (log_requested L' ! f)) written"
    by (simp add: L' log_request_task_def Let_def out nth_append)
  ultimately show ?thesis using shape' by (simp add: lines_ok_def h') (simp add: L' log_request_task_def Let_def)
qed

lemma log_poll_lines:
  assumes shape: "log_shape (log_tasks L)" and lines: "lines_ok contents L written" and idle: "stacks (log_tasks L) t = []"
  shows "log_shape (enter t Call_Poll (log_tasks L)) \<and> lines_ok contents (L\<lparr>log_tasks := enter t Call_Poll (log_tasks L), log_current := c\<rparr>) written"
proof -
  let ?\<sigma> = "log_tasks L"
  have line: "line_of (enter t Call_Poll ?\<sigma>) = line_of ?\<sigma>" by (rule ext) (simp add: line_of_def code_of_def enter_def)
  have fl: "frame_lines (enter t Call_Poll ?\<sigma>) = frame_lines ?\<sigma>" by (rule ext, rule frame_lines_same) (simp add: line)
  have "lines_at contents (enter t Call_Poll ?\<sigma>) written p = lines_at contents ?\<sigma> written p" for p
  proof (cases p)
    case Waiting
    then show ?thesis by (simp add: waiting_lines_def line) (simp add: enter_def queued_def)
  next
    case (Carried u)
    then show ?thesis using idle by (simp add: carried_lines_def fl) (simp add: enter_def)
  qed simp
  then have "lines_at contents (enter t Call_Poll ?\<sigma>) written = lines_at contents ?\<sigma> written" by (rule ext)
  moreover have "log_shape (enter t Call_Poll ?\<sigma>)" using shape idle by (auto simp: log_shape_def log_stack_def enter_def)
  ultimately show ?thesis using lines by (simp add: lines_ok_def)
qed

lemma configure_out:
  "h = log_initialize E path level g \<or> h = set_min_level level g \<or> h = enable_file_output E path g \<or> h = disable_file_output g \<Longrightarrow>
    out_lines h = out_lines g"
  by (auto simp: log_initialize_def set_min_level_def enable_file_output_def disable_file_output_def Let_def)

lemma log_reachable_lines:
  "log_reachable Q E fs L \<Longrightarrow> log_shape (log_tasks L) \<and> (\<exists>written. lines_ok contents L written)"
proof (induction rule: log_reachable.induct)
  case start
  let ?L = "log_get_instance Q fs None"
  have "lines_at contents (log_tasks ?L) [] p = []" for p
    by (cases p) (simp_all add: log_get_instance_def waiting_lines_def queued_def carried_lines_def start_sys_def new_contents)
  then have "lines_ok contents ?L []" by (simp add: lines_ok_def exclusive_def) (simp add: log_get_instance_def log_handler_new_def)
  moreover have "log_shape (log_tasks ?L)" by (simp add: log_get_instance_def log_shape_def start_sys_def log_stack_def)
  ultimately show ?case by blast
next
  case (call L t r L')
  from call.hyps(3) show ?case
    by (cases rule: log_call_cases) (use call log_call_lines in blast)+
next
  case (poll L t)
  with log_poll_lines show ?case by fastforce
next
  case (step L t L')
  then obtain written where "log_shape (log_tasks L)" "lines_ok contents L written" by blast
  from log_step_lines [OF log_reachable_tasks [OF step.hyps(1)] this, of E t] step.hyps(2) show ?case by auto
next
  case (configure L h path level)
  then show ?case by (auto simp: lines_ok_def dest!: configure_out)
qed

end

text \<open>When nothing waits and nobody carries a line, every line has been written.\<close>

lemma all_written:
  assumes "lines_ok contents L written" and "queued contents (log_tasks L) 0 = []"
    and "\<forall>t. stacks (log_tasks L) t = []"
  shows "mset (out_lines (log_sink L)) = mset (map format_log (log_requested L))"
proof -
  let ?n = "length (log_requested L)"
  have "lines_at contents (log_tasks L) written p = (if p = Written then written else [])" for p
    using assms(2,3) by (cases p) (simp_all add: waiting_lines_def carried_lines_def)
  then have w: "f \<in> set written \<longleftrightarrow> (\<exists>p. f \<in> set (lines_at contents (log_tasks L) written p))" for f
    by (simp only: if_distrib [of set] if_bool_eq_disj) auto
  have c: "(\<exists>p. f \<in> set (lines_at contents (log_tasks L) written p)) \<longleftrightarrow> f < ?n" for f
    using assms(1) unfolding lines_ok_def by blast
  have "f \<in> set written \<longleftrightarrow> f < ?n" for f by (rule trans [OF w c])
  then have "set written = set [0..<?n]" by (simp only: set_upt set_eq_iff atLeastLessThan_iff le0 simp_thms)
  moreover have "distinct written" using assms(1) unfolding lines_ok_def exclusive_def by (metis lines_at.simps(1))
  ultimately have "mset written = mset [0..<?n]" by (simp only: set_eq_iff_mset_eq_distinct [symmetric] distinct_upt)
  then have "mset (map (\<lambda>f. format_log (log_requested L ! f)) written) = mset (map (\<lambda>f. format_log (log_requested L ! f)) [0..<?n])"
    by (simp only: mset_map)
  also have "map (\<lambda>f. format_log (log_requested L ! f)) [0..<?n] = map format_log (log_requested L)"
    by (intro nth_equalityI) simp_all
  finally show ?thesis using assms(1) by (simp add: lines_ok_def)
qed



text \<open>In the run below two threads are in the handler at the same time, and one line has been written.\<close>

definition overtaken_run :: "log_event list" where
  "overtaken_run = [Logs 0 (race_request ''a''), Steps 0 6, Logs 1 (race_request ''b''), Steps 1 7]"


section \<open>The destructor\<close>

text \<open>
  \<open>~LogHandler\<close> in thread \<open>t\<close>: \<open>set_destroy\<close>, which is over after at most 15 steps, closing the file, then the
  destructor of \<open>TaskSerializer\<close>.
\<close>

definition close_stream :: "log_handler \<Rightarrow> log_handler" where
  "close_stream h = (if stream_open h then h\<lparr>stream_open := False\<rparr> else h)"

definition log_delete :: "'q lfq_ops \<Rightarrow> file_env \<Rightarrow> nat \<Rightarrow> 'q log_sys \<Rightarrow> 'q log_sys outcome option" where
  "log_delete Q E t L =
     (case log_steps Q E t 15 (L\<lparr>log_tasks := enter t (Call_Set_Destroy 0) (log_tasks L)\<rparr>) of
        Inl e \<Rightarrow> Some (Inl e)
      | Inr L1 \<Rightarrow>
          map_option (\<lambda>r. bind_outcome r (\<lambda>\<sigma>. Inr (L1\<lparr>log_tasks := \<sigma>, log_sink := close_stream (log_sink L1)\<rparr>)))
            (delete_serializer Q 0 (log_tasks L1)))"

lemma log_steps_freed:
  "run_thread_for Q no_calls t n (log_tasks L) = Inl Use_After_Free \<Longrightarrow> log_steps Q E t n L = Inl Use_After_Free"
proof (induction n arbitrary: L)
  case (Suc n)
  show ?case
  proof (cases "log_step Q E t L")
    case (Inl e)
    then have "e = Use_After_Free" using Suc.prems
      by (cases "thread_step Q no_calls t (log_tasks L)") (auto simp: log_step_def split: option.splits if_splits)
    with Inl show ?thesis by simp
  next
    case (Inr L1)
    with log_step_tasks [OF Inr] Suc show ?thesis by simp
  qed
qed simp

lemma set_destroy_pending:
  assumes "lockfree_queue Q contents" and "stacks (log_tasks L) t = []" and "sers (log_tasks L) 0 = Some z" and "state z = RUNNING"
    and "contents (task_queue z) \<noteq> []"
  shows "\<exists>L'. log_steps Q E t 15 (L\<lparr>log_tasks := enter t (Call_Set_Destroy 0) (log_tasks L)\<rparr>) = Inr L' \<and>
    sers (log_tasks L') 0 = Some \<lparr>task_queue = push_ignore Q (next_task (log_tasks L)) (task_queue z), state = DESTROYING\<rparr>"
proof -
  have "\<not> lfq_empty Q (task_queue z)" using assms(5) by (simp add: lockfree_queue.empty_contents [OF assms(1)])
  with assms(2-4) show ?thesis by (simp add: log_run_defs)
qed

text \<open>
  C32: The log handler cannot be destroyed: whatever was logged before, its destructor faults. With an empty queue the \<open>clear\<close>
  task that \<open>set_destroy\<close> requests deletes the handler inside its own destructor, and the state is stored in freed
  memory; with a line left in the queue \<open>clear\<close> releases a task nobody holds, which fails the assertion.
\<close>

theorem log_delete_faults:
  assumes "reliable_queue Q contents" and "log_reachable Q E fs L" and "stacks (log_tasks L) t = []"
  shows "log_delete Q E t L =
    Some (Inl (if queued contents (log_tasks L) 0 = [] then Use_After_Free else Assertion_Failure))"
proof -
  have lf: "lockfree_queue Q contents" using assms(1) by (rule reliable_queue.axioms(1))
  let ?\<sigma> = "log_tasks L"
  let ?L1 = "L\<lparr>log_tasks := enter t (Call_Set_Destroy 0) ?\<sigma>\<rparr>"
  note reach = log_reachable_tasks [OF assms(2)]
  obtain z where z: "sers ?\<sigma> 0 = Some z" "state z = RUNNING"
    using reliable_queue.log_reachable_lines [OF assms(1,2)] by (auto simp: log_shape_def)
  have q: "queued contents ?\<sigma> 0 = contents (task_queue z)" using z by (simp add: queued_def)
  show ?thesis
  proof (cases "contents (task_queue z) = []")
    case True
    from set_destroy_frees [OF assms(1) reach assms(3) z True] have "log_steps Q E t 15 ?L1 = Inl Use_After_Free"
      by (intro log_steps_freed) simp
    with True q show ?thesis by (simp add: log_delete_def)
  next
    case False
    obtain L' where L': "log_steps Q E t 15 ?L1 = Inr L'"
      "sers (log_tasks L') 0 = Some \<lparr>task_queue = push_ignore Q (next_task ?\<sigma>) (task_queue z), state = DESTROYING\<rparr>"
      using set_destroy_pending [OF lf assms(3) z False] by blast
    let ?\<sigma>' = "log_tasks L'"
    from log_steps_tasks [OF L'(1)] have run: "run_thread_for Q no_calls t 15 (enter t (Call_Set_Destroy 0) ?\<sigma>) = Inr ?\<sigma>'" by simp
    have "reachable Q no_calls 1 (enter t (Call_Set_Destroy 0) ?\<sigma>)"
      by (rule reachable.step [OF reach sys_step.enter_call [OF assms(3)]])
    from run_thread_for_reachable [OF this run] have "tasks_ok contents ?\<sigma>'" by (rule lockfree_queue.reachable_tasks [OF lf])
    then have "unheld contents ?\<sigma>'" by (auto simp: tasks_ok_def unheld_def)
    from lockfree_queue.delete_serializer_cases [OF lf this, of 0] have "delete_serializer Q 0 ?\<sigma>' = Some (Inl Assertion_Failure)"
      using L'(2) by (simp add: queued_def reliable_queue.push_ignore_appends [OF assms(1)])
    with False q L' show ?thesis by (simp add: log_delete_def)
  qed
qed

theorem log_delete_faults_witness:
  "log_delete list_queue silent_env 0 log_start = Some (Inl Use_After_Free)"
proof -
  have "log_reachable list_queue silent_env (\<lambda>_. []) log_start" unfolding log_start_def by (rule log_reachable.start)
  moreover have "stacks (log_tasks log_start) 0 = []" "queued (\<lambda>q. q) (log_tasks log_start) 0 = []"
    by (simp_all add: log_start_def log_get_instance_def start_sys_def queued_def)
  ultimately show ?thesis using log_delete_faults [OF lq.reliable_queue_axioms] by simp
qed

end
