(* ===== verification/Client_Main.thy ===== *)
theory Client_Main
  imports Client_Reception
begin

text \<open>
  \<open>main\<close> of the test client up to its sending loop, which has no exit, as a whole: what each socket is sent over the rounds, and
  what a server's session makes of it.
\<close>

section \<open>The program\<close>

text \<open>
  \<open>reserve\<close> throws \<open>length_error\<close> beyond \<open>max_size()\<close> and \<open>bad_alloc\<close> when there is no memory. Nothing catches either.
\<close>

definition VECTOR_INT_MAX_SIZE :: int where "VECTOR_INT_MAX_SIZE = 2 ^ 61 - 1"

definition reserve_sockets :: "(int \<Rightarrow> bool) \<Rightarrow> int \<Rightarrow> bool" where
  "reserve_sockets can_alloc n \<longleftrightarrow> n \<le> VECTOR_INT_MAX_SIZE \<and> can_alloc (4 * n)"

text \<open>A round: the random sizes, and the kernel's answers, for each index. \<open>out\<close> and \<open>msg_seq\<close> begin anew in each.\<close>

type_synonym round_input = "(nat \<Rightarrow> int) \<times> (nat \<Rightarrow> answer list)"
type_synonym round_log = "(int \<times> byte list) list"

fun client_rounds :: "round_input list \<Rightarrow> int list \<Rightarrow> (int list \<times> round_log list) outcome option" where
  "client_rounds [] sockets = Some (Inr (sockets, []))"
| "client_rounds ((sizes, answers) # rounds) sockets =
     (case client_round sizes answers 0 sockets [] of
        None \<Rightarrow> None
      | Some (Inl e) \<Rightarrow> Some (Inl e)
      | Some (Inr (sockets', log)) \<Rightarrow>
          map_option (\<lambda>r. bind_outcome r (\<lambda>(fds, logs). Inr (fds, log # logs))) (client_rounds rounds sockets'))"

text \<open>The client has ended with an exit code, was ended by an exception, or is in its loop after some rounds.\<close>

datatype client_state = Exited int | Aborted | Sending "int list" "round_log list"

definition client_main ::
    "int \<Rightarrow> (int \<Rightarrow> bool) \<Rightarrow> string option \<Rightarrow> (int \<times> int) list \<Rightarrow> round_input list \<Rightarrow> client_state outcome option" where
  "client_main pton can_alloc arg attempts rounds =
     (if pton \<le> 0 then Some (Inr (Exited 1))
      else
        (case parse_socket_count arg of
           None \<Rightarrow> Some (Inr (Exited 1))
         | Some socket_count \<Rightarrow>
             if \<not> reserve_sockets can_alloc socket_count then Some (Inr Aborted)
             else
               (case connect_sockets (nat socket_count) attempts [] of
                  None \<Rightarrow> None
                | Some sockets \<Rightarrow>
                    map_option (\<lambda>r. bind_outcome r (\<lambda>(fds, logs). Inr (Sending fds logs))) (client_rounds rounds sockets))))"

section \<open>What a socket is sent\<close>

definition client_bytes :: "nat \<Rightarrow> round_input \<Rightarrow> byte list" where
  "client_bytes j r = encode_message 1 (client_payload j (fst r j))"

definition round_ok :: "round_input \<Rightarrow> bool" where
  "round_ok r \<longleftrightarrow> (\<forall>i. 1 \<le> fst r i \<and> fst r i \<le> 4000 \<and> answers_fit (snd r i) (8 + nat (fst r i)))"

definition socket_stream :: "nat \<Rightarrow> int \<Rightarrow> round_log list \<Rightarrow> byte list" where
  "socket_stream j fd logs = concat (map (\<lambda>log. if fst (log ! j) = fd then snd (log ! j) else []) logs)"

text \<open>A socket of a round: its bytes are taken in full and it stays, or in part and it is given up.\<close>

definition socket_round :: "byte list \<Rightarrow> int \<Rightarrow> int \<times> byte list \<Rightarrow> int \<Rightarrow> bool" where
  "socket_round bytes fd entry fd' \<longleftrightarrow> fst entry = fd \<and>
     (\<exists>unsent. bytes = snd entry @ unsent \<and> fd' = (if unsent = [] then fd else - 1))"

lemma client_round_spec:
  assumes "round_ok (sizes, answers)"
  shows "client_round sizes answers i fds out = Some (Inr (fds', log)) \<Longrightarrow>
    length fds' = length fds \<and> length log = length fds \<and>
    (\<forall>j < length fds. socket_round (client_bytes (i + j) (sizes, answers)) (fds ! j) (log ! j) (fds' ! j))"
proof (induction fds arbitrary: i out fds' log)
  case (Cons fd fds)
  have n: "1 \<le> sizes i" "sizes i \<le> 4000" "answers_fit (answers i) (8 + nat (sizes i))"
    using assms by (simp_all add: round_ok_def)
  let ?bs = "encode_message 1 (client_payload i (sizes i))"
  have len: "length ?bs = 8 + nat (sizes i)" by simp
  have msg: "client_message i i (sizes i) out = Inr ?bs" using n by (intro client_message_spec) simp_all
  with Cons.prems obtain ok taken rest fds1 log1 where w: "write_all (answers i) ?bs = Some (ok, taken, rest)"
    and r: "client_round sizes answers (Suc i) fds ?bs = Some (Inr (fds1, log1))"
    and eq: "fds' = (if ok then fd else - 1) # fds1" "log = (fd, taken) # log1"
    by (auto simp: outcome_simps split: option.splits)
  have "length ?bs < 2 ^ 64" using n len by simp
  from write_all_spec [OF this _ w] n(3) len obtain unsent where u: "?bs = taken @ unsent" "ok \<longleftrightarrow> unsent = []" by auto
  note IH = Cons.IH [OF r]
  have "socket_round (client_bytes (i + j) (sizes, answers)) ((fd # fds) ! j) (log ! j) (fds' ! j)"
    if "j < length (fd # fds)" for j
  proof (cases j)
    case 0
    then show ?thesis using u by (simp add: socket_round_def eq client_bytes_def)
  next
    case (Suc m)
    then show ?thesis using IH that by (simp add: eq)
  qed
  then show ?case using IH by (simp add: eq)
qed simp

lemma client_rounds_closed:
  assumes "\<forall>r\<in>set rounds. round_ok r" and "0 \<le> fd"
  shows "client_rounds rounds fds = Some (Inr (fds', logs)) \<Longrightarrow> j < length fds \<Longrightarrow> fds ! j = - 1 \<Longrightarrow>
    socket_stream j fd logs = [] \<and> fds' ! j = - 1"
  using assms(1)
proof (induction rounds arbitrary: fds fds' logs)
  case (Cons r rounds)
  obtain sizes answers where r: "r = (sizes, answers)" by (cases r)
  with Cons.prems obtain fds1 log logs1 where c: "client_round sizes answers 0 fds [] = Some (Inr (fds1, log))"
    "client_rounds rounds fds1 = Some (Inr (fds', logs1))" "logs = log # logs1"
    by (auto simp: outcome_simps split: option.splits sum.splits)
  from client_round_spec [OF _ c(1)] Cons.prems r have "length fds1 = length fds" "fst (log ! j) = - 1" "fds1 ! j = - 1"
    by (auto simp: socket_round_def split: if_splits)
  with Cons.IH [OF c(2)] Cons.prems c(3) assms(2) show ?case by (simp add: socket_stream_def)
qed (simp add: socket_stream_def)

text \<open>Whole messages, and at the end perhaps a part of the next one.\<close>

lemma client_rounds_stream:
  assumes "\<forall>r\<in>set rounds. round_ok r" and "0 \<le> fd"
  shows "client_rounds rounds fds = Some (Inr (fds', logs)) \<Longrightarrow> j < length fds \<Longrightarrow> fds ! j = fd \<Longrightarrow>
    \<exists>k tail. socket_stream j fd logs = concat (map (client_bytes j) (take k rounds)) @ tail \<and>
      (k = length rounds \<and> tail = [] \<and> fds' ! j = fd \<or>
       k < length rounds \<and> fds' ! j = - 1 \<and> (\<exists>unsent. unsent \<noteq> [] \<and> client_bytes j (rounds ! k) = tail @ unsent))"
  using assms(1)
proof (induction rounds arbitrary: fds fds' logs)
  case Nil
  then show ?case by (intro exI [of _ 0] exI [of _ "[]"]) (simp add: socket_stream_def)
next
  case (Cons r rounds)
  obtain sizes answers where r: "r = (sizes, answers)" by (cases r)
  with Cons.prems obtain fds1 log logs1 where c: "client_round sizes answers 0 fds [] = Some (Inr (fds1, log))"
    "client_rounds rounds fds1 = Some (Inr (fds', logs1))" "logs = log # logs1"
    by (auto simp: outcome_simps split: option.splits sum.splits)
  from client_round_spec [OF _ c(1)] Cons.prems r have len: "length fds1 = length fds"
    and rd: "socket_round (client_bytes j r) fd (log ! j) (fds1 ! j)"
    by auto
  from rd obtain unsent where u: "client_bytes j r = snd (log ! j) @ unsent" "fds1 ! j = (if unsent = [] then fd else - 1)"
    and l: "fst (log ! j) = fd"
    by (auto simp: socket_round_def)
  have ok: "\<forall>r\<in>set rounds. round_ok r" using Cons.prems(4) by simp
  have s: "socket_stream j fd logs = snd (log ! j) @ socket_stream j fd logs1" using l by (simp add: c(3) socket_stream_def)
  show ?case
  proof (cases "unsent = []")
    case True
    with u Cons.IH [OF c(2) _ _ ok] len Cons.prems obtain k tail where
      k: "socket_stream j fd logs1 = concat (map (client_bytes j) (take k rounds)) @ tail"
      "k = length rounds \<and> tail = [] \<and> fds' ! j = fd \<or>
       k < length rounds \<and> fds' ! j = - 1 \<and> (\<exists>unsent. unsent \<noteq> [] \<and> client_bytes j (rounds ! k) = tail @ unsent)"
      by auto
    then show ?thesis using True u(1) s by (intro exI [of _ "Suc k"] exI [of _ tail]) auto
  next
    case False
    with u client_rounds_closed [OF ok assms(2) c(2)] len Cons.prems have "socket_stream j fd logs1 = []" "fds' ! j = - 1" by simp_all
    then show ?thesis using False u(1) s by (intro exI [of _ 0] exI [of _ "snd (log ! j)"]) auto
  qed
qed

lemma client_rounds_length:
  "client_rounds rounds fds = Some (Inr (fds', logs)) \<Longrightarrow> \<forall>r\<in>set rounds. round_ok r \<Longrightarrow> length fds' = length fds"
proof (induction rounds arbitrary: fds fds' logs)
  case (Cons r rounds)
  obtain sizes answers where r: "r = (sizes, answers)" by (cases r)
  with Cons.prems obtain fds1 log logs1 where c: "client_round sizes answers 0 fds [] = Some (Inr (fds1, log))"
    "client_rounds rounds fds1 = Some (Inr (fds', logs1))"
    by (auto simp: outcome_simps split: option.splits sum.splits)
  from client_round_spec [OF _ c(1)] Cons.IH [OF c(2)] Cons.prems r show ?case by simp
qed simp

text \<open>The loop goes on as long as the kernel answers: each message needs as many answers, other than interruptions, as it has bytes.\<close>

definition round_answered :: "round_input \<Rightarrow> bool" where
  "round_answered r \<longleftrightarrow> (\<forall>i. 8 + nat (fst r i) \<le> length (filter (\<lambda>a. \<not> interrupted a) (snd r i)))"

lemma client_round_returns:
  assumes "round_ok (sizes, answers)" and "round_answered (sizes, answers)"
  shows "\<exists>r. client_round sizes answers i fds out = Some (Inr r)"
proof (induction fds arbitrary: i out)
  case (Cons fd fds)
  have n: "1 \<le> sizes i" "sizes i \<le> 4000" "answers_fit (answers i) (8 + nat (sizes i))"
    and a: "8 + nat (sizes i) \<le> length (filter (\<lambda>a. \<not> interrupted a) (answers i))"
    using assms by (simp_all add: round_ok_def round_answered_def)
  let ?bs = "encode_message 1 (client_payload i (sizes i))"
  have len: "length ?bs = 8 + nat (sizes i)" by simp
  have "client_message i i (sizes i) out = Inr ?bs" using n by (intro client_message_spec) simp_all
  moreover have "length ?bs < 2 ^ 64" using n len by simp
  then obtain ok taken rest where "write_all (answers i) ?bs = Some (ok, taken, rest)"
    using send_loop_returns [of "length ?bs" "answers i" ?bs 0] n a len by (auto simp: write_all_def)
  moreover obtain r where "client_round sizes answers (Suc i) fds ?bs = Some (Inr r)" using Cons by blast
  ultimately show ?case by (cases r) simp
qed simp

lemma client_rounds_return:
  "\<forall>r\<in>set rounds. round_ok r \<and> round_answered r \<Longrightarrow> \<exists>fds' logs. client_rounds rounds fds = Some (Inr (fds', logs))"
proof (induction rounds arbitrary: fds)
  case (Cons r rounds)
  obtain sizes answers where r: "r = (sizes, answers)" by (cases r)
  with Cons.prems client_round_returns [of sizes answers 0 fds "[]"] obtain fds1 log where
    c: "client_round sizes answers 0 fds [] = Some (Inr (fds1, log))" by force
  from Cons.prems have "\<forall>r\<in>set rounds. round_ok r \<and> round_answered r" by simp
  from Cons.IH [OF this, of fds1] c show ?case by (auto simp: r)
qed simp

lemma connect_sockets_spec:
  "connect_sockets n attempts acc = Some sockets \<Longrightarrow>
     \<exists>m \<le> length attempts. sockets = acc @ map fst (take m attempts) \<and> (\<forall>a\<in>set (take m attempts). 0 \<le> fst a)"
proof (induction n attempts acc rule: connect_sockets.induct)
  case (3 n fd result attempts acc)
  show ?case
  proof (cases "fd < 0 \<or> result < 0")
    case True
    with "3.prems" show ?thesis by (intro exI [of _ 0]) (auto split: if_splits)
  next
    case False
    with "3.IH" "3.prems" obtain m where "m \<le> length attempts" "sockets = (acc @ [fd]) @ map fst (take m attempts)"
      "\<forall>a\<in>set (take m attempts). 0 \<le> fst a" by auto
    with False show ?thesis by (intro exI [of _ "Suc m"]) auto
  qed
qed auto

lemma part_no_frame:
  assumes "encode_message t payload = part @ unsent" and "unsent \<noteq> []" and "length payload < 2 ^ 30"
  shows "frame_length part = None"
proof (rule ccontr)
  assume "frame_length part \<noteq> None"
  then obtain n where n: "frame_length part = Some n" by auto
  have "Some n = Some (8 + length payload)"
    using frame_length_append [OF n, of unsent] frame_length_encode [OF assms(3), of t "[]"] assms(1) by simp
  with frame_length_bounds [OF n] have "8 + length payload \<le> length part" by simp
  moreover have "length part + length unsent = 8 + length payload" using arg_cong [OF assms(1), of length] by (simp add: encode_message_def)
  ultimately show False using assms(2) by (cases unsent) simp_all
qed


text \<open>
  The client's \<open>main\<close> never gets past its sending loop: with a usable address and count, and a kernel that answers, it is
  in that loop after any number of rounds.
\<close>

theorem client_main_sends:
  assumes "0 < pton" and "parse_socket_count arg = Some n" and "reserve_sockets can_alloc n"
    and "connect_sockets (nat n) attempts [] = Some connected" and "\<forall>r\<in>set rounds. round_ok r \<and> round_answered r"
  shows "\<exists>sockets logs. client_main pton can_alloc arg attempts rounds = Some (Inr (Sending sockets logs))"
  using client_rounds_return [OF assms(5), of connected] assms(1-4) by (auto simp: client_main_def)

section \<open>What the server makes of it\<close>

lemma client_bytes_message: "round_ok r \<Longrightarrow> \<exists>payload. client_bytes j r = encode_message 1 payload \<and>
    payload = client_payload j (fst r j) \<and> length payload \<le> 4000"
  by (auto simp: client_bytes_def round_ok_def nat_le_iff)

text \<open>
  C14: From the client's main to the server's handlers: whatever the kernel answers to the client, the socket of each
  successful connection carries the messages of the first \<open>k\<close> rounds and after them at most a part of one more; after that
  it is given up and nothing is sent on it again. A session that receives this
  in chunks that fit hands exactly those \<open>k\<close> messages to the handlers, once each and in order, keeps the part, which
  is shorter than a message, and so always has room to receive. A socket that was not given up has
  carried the messages of all rounds.
\<close>

theorem client_main_delivered:
  assumes "client_main pton can_alloc arg attempts rounds = Some (Inr (Sending sockets logs))"
    and "\<forall>r\<in>set rounds. round_ok r" and "handlers_respect_span handlers f" and "j < length sockets"
    and "concat bss = socket_stream j (fst (attempts ! j)) logs" and "chunks_fit [] bss"
  shows "\<exists>k ss'. k \<le> length rounds \<and>
    recv_chunks handlers self alive bss (accepted_session sid) s =
      Some (Inr (ss', foldl (\<lambda>s r. f (Some \<lparr>actor_session = Some sid\<rparr>) 1 (encode_message 1 (client_payload j (fst r j))) s) s
        (take k rounds))) \<and>
    length (received ss') < 4008 \<and>
    (k < length rounds \<longrightarrow> sockets ! j = - 1) \<and>
    (k = length rounds \<longrightarrow> sockets ! j = fst (attempts ! j) \<and> received ss' = [])"
proof -
  let ?fd = "fst (attempts ! j)" and ?a = "Some \<lparr>actor_session = Some sid\<rparr>"
  from assms(1) obtain n connected where con: "connect_sockets n attempts [] = Some connected"
    and run: "client_rounds rounds connected = Some (Inr (sockets, logs))"
    by (auto simp: client_main_def outcome_simps split: option.splits if_splits)
  from connect_sockets_spec [OF con] obtain m where m: "m \<le> length attempts" "connected = map fst (take m attempts)"
    "\<forall>a\<in>set (take m attempts). 0 \<le> fst a" by auto
  have j: "j < length connected" using client_rounds_length [OF run assms(2)] assms(4) by simp
  then have "take m attempts ! j \<in> set (take m attempts)" using m(2) by (intro nth_mem) simp
  then have fd: "connected ! j = ?fd" "0 \<le> ?fd" using m j by auto
  from client_rounds_stream [OF assms(2) fd(2) run j fd(1)] obtain k tail where
    st: "socket_stream j ?fd logs = concat (map (client_bytes j) (take k rounds)) @ tail"
    and k: "k = length rounds \<and> tail = [] \<and> sockets ! j = ?fd \<or>
       k < length rounds \<and> sockets ! j = - 1 \<and> (\<exists>unsent. unsent \<noteq> [] \<and> client_bytes j (rounds ! k) = tail @ unsent)"
    by blast
  let ?ms = "map (\<lambda>r. (1 :: u32, client_payload j (fst r j))) (take k rounds)"
  have ok: "\<forall>r\<in>set (take k rounds). round_ok r" using assms(2) by (meson in_set_takeD)
  have "length (client_payload j (fst r j)) < 2 ^ 30" if "r \<in> set (take k rounds)" for r
    using client_bytes_message [of r j] ok that by (fastforce simp: client_bytes_def)
  then have short: "list_all (\<lambda>(t, p). length p < 2 ^ 30) ?ms" by (auto simp only: list_all_iff set_map split: prod.splits)
  have bytes: "map (\<lambda>(t, p). encode_message t p) ?ms = map (client_bytes j) (take k rounds)" by (simp add: client_bytes_def)
  have tail: "frame_length tail = None \<and> length tail < 4008"
  proof (cases "k < length rounds")
    case True
    with k obtain unsent where u: "unsent \<noteq> []" "client_bytes j (rounds ! k) = tail @ unsent" by auto
    from True assms(2) have "round_ok (rounds ! k)" by simp
    from client_bytes_message [OF this, of j] obtain payload where p: "client_bytes j (rounds ! k) = encode_message 1 payload"
      "length payload \<le> 4000" by auto
    have "length tail + length unsent = 8 + length payload" using arg_cong [OF trans [OF p(1) [symmetric] u(2)], of length] by (simp add: encode_message_def)
    with part_no_frame [of 1 payload tail unsent] u p show ?thesis by (cases unsent) simp_all
  next
    case False
    with k show ?thesis by (simp add: frame_length_def)
  qed
  have "concat bss = concat (map (\<lambda>(t, p). encode_message t p) ?ms) @ tail" using assms(5) st by (simp only: bytes)
  with frames_encode [OF short, of tail] tail have fr: "parse_frames (concat bss) = (map (\<lambda>(t, p). encode_message t p) ?ms, tail)"
    by (simp only: parse_frames_None) simp
  have "run_frames (f ?a) (map (\<lambda>(t, p). encode_message t p) ?ms) s =
      foldl (\<lambda>s r. f ?a 1 (encode_message 1 (client_payload j (fst r j))) s) s (take k rounds)"
    by (simp add: run_frames_def foldl_map comp_def frame_type_encode)
  with recv_chunks_spec [OF assms(3), of "accepted_session sid" bss self alive s] assms(6) fr obtain ss' where
    "recv_chunks handlers self alive bss (accepted_session sid) s =
      Some (Inr (ss', foldl (\<lambda>s r. f ?a 1 (encode_message 1 (client_payload j (fst r j))) s) s (take k rounds)))"
    "received ss' = tail"
    by auto
  with k tail show ?thesis by (intro exI [of _ k] exI [of _ ss']) auto
qed

text \<open>One connection, two rounds, and the second message is cut after four bytes.\<close>

definition demo_inputs :: "round_input list" where
  "demo_inputs = [(\<lambda>_. 3, \<lambda>_. [(11, 0)]), (\<lambda>_. 3, \<lambda>_. [(4, 0), (- 1, 104)])]"

lemma demo_main:
  "client_main 1 (\<lambda>_. True) (Some ''1'') [(5, 0)] demo_inputs =
     Some (Inr (Sending [- 1] [[(5, demo_message)], [(5, take 4 demo_message)]]))"
proof -
  have m: "client_message 0 0 3 out = Inr demo_message" for out
    using client_message_spec [of 3 0 out] by (simp add: demo_encoded)
  have "parse_socket_count (Some ''1'') = Some 1" by code_simp
  moreover have "reserve_sockets (\<lambda>_. True) 1" by (simp add: reserve_sockets_def VECTOR_INT_MAX_SIZE_def)
  moreover have "write_all [(11, 0)] demo_message = Some (True, demo_message, [])"
    "write_all [(4, 0), (- 1, 104)] demo_message = Some (False, take 4 demo_message, [])"
    by (simp_all add: write_all_def demo_message_def size_t_def EINTR_def)
  ultimately show ?thesis
    using m by (simp add: client_main_def demo_inputs_def)
qed

theorem client_main_delivered_witness:
  "\<exists>k ss'. recv_chunks log_handlers 0 True [demo_message @ take 2 demo_message, drop 2 (take 4 demo_message)] (accepted_session 0) [] =
      Some (Inr (ss', foldl (\<lambda>s r. log_effect (Some \<lparr>actor_session = Some 0\<rparr>) 1 (encode_message 1 (client_payload 0 (fst r 0))) s) []
        (take k demo_inputs))) \<and> k < 2 \<and> length (received ss') < 4008"
proof -
  let ?bss = "[demo_message @ take 2 demo_message, drop 2 (take 4 demo_message)]"
  have ok: "\<forall>r\<in>set demo_inputs. round_ok r" by (simp add: demo_inputs_def round_ok_def)
  have "leftover (demo_message @ take 2 demo_message) = take 2 demo_message"
    using frames_encode [of "[(1, client_payload 0 3)]" "take 2 demo_message"]
    by (simp add: demo_encoded leftover_short demo_message_def)
  then have fit: "chunks_fit [] ?bss" by (simp add: demo_message_def)
  have "concat ?bss = socket_stream 0 (fst ([(5, 0 :: int)] ! 0)) [[(5, demo_message)], [(5, take 4 demo_message)]]"
    by (simp add: socket_stream_def demo_message_def)
  from client_main_delivered [OF demo_main ok log_handlers_respect _ this fit, of 0 True 0 "[]"] show ?thesis
    by (fastforce simp: demo_inputs_def)
qed

end
