(* ===== verification/Task_Arguments.thy ===== *)
theory Task_Arguments
  imports Ref_Count
begin

text \<open>
  What a \<open>Task\<close> keeps of its arguments (\<open>task/Task.h\<close>, the templates \<open>request_task\<close> of \<open>TaskSerializer.h\<close>, \<open>util/Utility.h\<close>): the types
  its tuple gets, the loops over the tuple in its constructors and its destructor, and which objects are alive when it runs.
\<close>

section \<open>Objects and arguments\<close>

text \<open>Objects derived from \<open>RefCountable\<close> with their counters while they exist, and the variables of calls under way.\<close>

record arg_state =
  objects :: "nat \<Rightarrow> u32 option"
  locals_alive :: "nat \<Rightarrow> bool"

definition object_add_ref :: "nat \<Rightarrow> arg_state \<Rightarrow> arg_state outcome" where
  "object_add_ref x st =
     (case objects st x of
        None \<Rightarrow> Inl Use_After_Free
      | Some n \<Rightarrow> Inr (st\<lparr>objects := (objects st)(x \<mapsto> add_ref n)\<rparr>))"

definition object_release :: "nat \<Rightarrow> arg_state \<Rightarrow> arg_state outcome" where
  "object_release x st =
     (case objects st x of
        None \<Rightarrow> Inl Use_After_Free
      | Some n \<Rightarrow>
          bind_outcome (release_ref n) (\<lambda>(n', final).
            Inr (st\<lparr>objects := (objects st)(x := if final then None else Some n')\<rparr>)))"

text \<open>
  An argument of \<open>request_task\<close> is an lvalue, or an rvalue: a plain value, a pointer, an \<open>ObjectPtr\<close>. \<open>Args\<close> is deduced as a
  reference for an lvalue; the element of the tuple is then a reference, else it is the moved value.
\<close>

datatype passed_arg =
    Pass_Lvalue nat
  | Pass_Value
  | Pass_Pointer "nat option"
  | Pass_Handle "nat option"

datatype stored_arg =
    Stored_Reference nat
  | Stored_Value
  | Stored_Pointer "nat option"
  | Stored_Handle "nat option"

fun store_arg :: "passed_arg \<Rightarrow> stored_arg" where
  "store_arg (Pass_Lvalue l) = Stored_Reference l"
| "store_arg Pass_Value = Stored_Value"
| "store_arg (Pass_Pointer p) = Stored_Pointer p"
| "store_arg (Pass_Handle p) = Stored_Handle p"

fun for_each_tuple :: "('a \<Rightarrow> 's \<Rightarrow> 's outcome) \<Rightarrow> 'a list \<Rightarrow> 's \<Rightarrow> 's outcome" where
  "for_each_tuple f [] s = Inr s"
| "for_each_tuple f (x # xs) s = bind_outcome (f x s) (for_each_tuple f xs)"

text \<open>
  \<open>is_base_of_v<RefCountable, decay_t<decltype(arg)>>\<close>. A pointer and an \<open>ObjectPtr\<close> are not derived from \<open>RefCountable\<close>. (For an object
  itself the condition would hold, but then \<open>arg->add_ref()\<close> is no valid expression, so no program has such an element.)
\<close>

definition counted_type :: "stored_arg \<Rightarrow> bool" where
  "counted_type a = (case a of Stored_Reference l \<Rightarrow> False | Stored_Value \<Rightarrow> False
     | Stored_Pointer p \<Rightarrow> False | Stored_Handle p \<Rightarrow> False)"

fun arg_pointer :: "stored_arg \<Rightarrow> nat option" where
  "arg_pointer (Stored_Pointer p) = p"
| "arg_pointer (Stored_Handle p) = p"
| "arg_pointer a = None"

section \<open>The life of a task\<close>

definition task_new :: "nat option \<Rightarrow> passed_arg list \<Rightarrow> arg_state \<Rightarrow> (stored_arg list \<times> arg_state) outcome" where
  "task_new obj args st =
     (let tuple = Stored_Pointer obj # map store_arg args
      in bind_outcome
           (for_each_tuple (\<lambda>a st. if counted_type a
              then (case arg_pointer a of None \<Rightarrow> Inr st | Some x \<Rightarrow> object_add_ref x st) else Inr st) tuple st)
           (\<lambda>st'. Inr (tuple, st')))"

text \<open>
  \<open>invoke\<close> calls the member function on the object of the task, and passes the elements on: a reference must
  refer to a variable that still exists.
\<close>

definition task_invoke :: "stored_arg list \<Rightarrow> arg_state \<Rightarrow> arg_state outcome" where
  "task_invoke tuple st =
     (case tuple of
        Stored_Pointer (Some x) # args \<Rightarrow>
          if objects st x = None then Inl Use_After_Free
          else for_each_tuple (\<lambda>a st. case a of
                 Stored_Reference l \<Rightarrow> if locals_alive st l then Inr st else Inl Use_After_Free
               | _ \<Rightarrow> Inr st) args st
      | _ \<Rightarrow> Inl Null_Dereference)"

text \<open>The destructor: its loop, then the elements of the tuple.\<close>

definition task_destroy :: "stored_arg list \<Rightarrow> arg_state \<Rightarrow> arg_state outcome" where
  "task_destroy tuple st =
     bind_outcome
       (for_each_tuple (\<lambda>a st. if counted_type a
          then (case arg_pointer a of None \<Rightarrow> Inr st | Some x \<Rightarrow> object_release x st) else Inr st) tuple st)
       (for_each_tuple (\<lambda>a st. case a of Stored_Handle (Some x) \<Rightarrow> object_release x st | _ \<Rightarrow> Inr st) tuple)"

section \<open>Everybody else\<close>

text \<open>
  Between the request and the run others copy and drop references they hold, and calls return. \<open>owners x\<close> are the
  references to \<open>x\<close> that others hold, \<open>hs x\<close> those of the task.
\<close>

datatype env_event = Env_Take nat | Env_Drop nat | Env_Return nat

fun env_run :: "env_event list \<Rightarrow> arg_state \<Rightarrow> arg_state outcome" where
  "env_run [] st = Inr st"
| "env_run (Env_Take x # es) st = bind_outcome (object_add_ref x st) (env_run es)"
| "env_run (Env_Drop x # es) st = bind_outcome (object_release x st) (env_run es)"
| "env_run (Env_Return l # es) st = env_run es (st\<lparr>locals_alive := (locals_alive st)(l := False)\<rparr>)"

fun env_legal :: "env_event list \<Rightarrow> (nat \<Rightarrow> nat) \<Rightarrow> (nat \<Rightarrow> nat) \<Rightarrow> bool" where
  "env_legal [] owners hs = True"
| "env_legal (Env_Take x # es) owners hs \<longleftrightarrow>
     0 < owners x \<and> Suc (owners x + hs x) < 2 ^ 31 \<and> env_legal es (owners(x := Suc (owners x))) hs"
| "env_legal (Env_Drop x # es) owners hs \<longleftrightarrow> 0 < owners x \<and> env_legal es (owners(x := owners x - 1)) hs"
| "env_legal (Env_Return l # es) owners hs \<longleftrightarrow> env_legal es owners hs"

fun owners_after :: "env_event list \<Rightarrow> (nat \<Rightarrow> nat) \<Rightarrow> nat \<Rightarrow> nat" where
  "owners_after [] owners = owners"
| "owners_after (Env_Take x # es) owners = owners_after es (owners(x := Suc (owners x)))"
| "owners_after (Env_Drop x # es) owners = owners_after es (owners(x := owners x - 1))"
| "owners_after (Env_Return l # es) owners = owners_after es owners"

definition counts_ok :: "(nat \<Rightarrow> nat) \<Rightarrow> (nat \<Rightarrow> u32 option) \<Rightarrow> bool" where
  "counts_ok refs obs \<longleftrightarrow>
     (\<forall>x. refs x < 2 ^ 31 \<and> obs x = (if refs x = 0 then None else Some (word_of_nat (refs x))))"

definition handles :: "stored_arg list \<Rightarrow> nat \<Rightarrow> nat" where
  "handles tuple x = length (filter (\<lambda>a. a = Stored_Handle (Some x)) tuple)"

lemma release_counted:
  assumes "counts_ok refs (objects st)" and "0 < refs x"
  shows "\<exists>st'. object_release x st = Inr st' \<and> counts_ok (refs(x := refs x - 1)) (objects st') \<and> locals_alive st' = locals_alive st"
proof -
  have x: "refs x < 2 ^ 31" "objects st x = Some (word_of_nat (refs x))" using assms by (auto simp: counts_ok_def)
  from x(1) have "refs x - 1 < 2 ^ 31" by simp
  with release_ref_count [OF assms(2) x(1)] x(2) assms show ?thesis
    by (auto simp: object_release_def counts_ok_def)
qed

lemma add_ref_counted:
  assumes "counts_ok refs (objects st)" and "0 < refs x" and "Suc (refs x) < 2 ^ 31"
  shows "\<exists>st'. object_add_ref x st = Inr st' \<and> counts_ok (refs(x := Suc (refs x))) (objects st') \<and> locals_alive st' = locals_alive st"
  using assms by (auto simp: counts_ok_def object_add_ref_def add_ref_def)

lemma env_run_counted:
  "env_legal es owners hs \<Longrightarrow> counts_ok (\<lambda>x. owners x + hs x) (objects st) \<Longrightarrow>
     \<exists>st'. env_run es st = Inr st' \<and> counts_ok (\<lambda>x. owners_after es owners x + hs x) (objects st') \<and>
       (\<forall>l. locals_alive st' l \<longleftrightarrow> locals_alive st l \<and> Env_Return l \<notin> set es)"
proof (induction es owners hs arbitrary: st rule: env_legal.induct)
  case (2 x es owners hs)
  let ?o = "owners(x := Suc (owners x))"
  have f: "(\<lambda>y. ?o y + hs y) = (\<lambda>y. owners y + hs y)(x := Suc (owners x + hs x))" by auto
  from "2.prems" add_ref_counted [of "\<lambda>x. owners x + hs x" st x] obtain st1 where
    s: "object_add_ref x st = Inr st1" "counts_ok (\<lambda>y. ?o y + hs y) (objects st1)" "locals_alive st1 = locals_alive st"
    unfolding f by auto
  from "2.prems"(1) have "env_legal es ?o hs" by simp
  from "2.IH" [OF this s(2)] obtain st' where "env_run es st1 = Inr st'"
    "counts_ok (\<lambda>y. owners_after es ?o y + hs y) (objects st')"
    "\<forall>l. locals_alive st' l \<longleftrightarrow> locals_alive st1 l \<and> Env_Return l \<notin> set es" by blast
  with s show ?case by (intro exI [of _ st']) simp
next
  case (3 x es owners hs)
  let ?o = "owners(x := owners x - 1)"
  have pos: "0 < owners x" using "3.prems"(1) by simp
  then have f: "(\<lambda>y. ?o y + hs y) = (\<lambda>y. owners y + hs y)(x := owners x + hs x - 1)" by auto
  from pos "3.prems"(2) release_counted [of "\<lambda>x. owners x + hs x" st x] obtain st1 where
    s: "object_release x st = Inr st1" "counts_ok (\<lambda>y. ?o y + hs y) (objects st1)" "locals_alive st1 = locals_alive st"
    unfolding f by auto
  from "3.prems"(1) have "env_legal es ?o hs" by simp
  from "3.IH" [OF this s(2)] obtain st' where "env_run es st1 = Inr st'"
    "counts_ok (\<lambda>y. owners_after es ?o y + hs y) (objects st')"
    "\<forall>l. locals_alive st' l \<longleftrightarrow> locals_alive st1 l \<and> Env_Return l \<notin> set es" by blast
  with s show ?case by (intro exI [of _ st']) simp
next
  case (4 l es owners hs)
  let ?st = "st\<lparr>locals_alive := (locals_alive st)(l := False)\<rparr>"
  from "4.prems" have "env_legal es owners hs" "counts_ok (\<lambda>x. owners x + hs x) (objects ?st)" by simp_all
  from "4.IH" [OF this] show ?case by auto
qed simp

lemma for_each_skip: "(\<And>a st. a \<in> set tuple \<Longrightarrow> f a st = Inr st) \<Longrightarrow> for_each_tuple f tuple st = Inr st"
  by (induction tuple arbitrary: st) simp_all

lemma counted_type_never: "\<not> counted_type a"
  by (simp add: counted_type_def split: stored_arg.split)

lemma release_handles:
  "counts_ok (\<lambda>x. refs x + handles tuple x) (objects st) \<Longrightarrow>
     \<exists>st'. for_each_tuple (\<lambda>a st. case a of Stored_Handle (Some x) \<Rightarrow> object_release x st | _ \<Rightarrow> Inr st) tuple st = Inr st' \<and>
       counts_ok refs (objects st')"
proof (induction tuple arbitrary: st)
  case Nil
  then show ?case by (simp add: handles_def)
next
  case (Cons a tuple)
  show ?case
  proof (cases "\<exists>x. a = Stored_Handle (Some x)")
    case True
    then obtain x where a: "a = Stored_Handle (Some x)" ..
    have f: "(\<lambda>y. refs y + handles tuple y) = (\<lambda>y. refs y + handles (a # tuple) y)(x := refs x + handles (a # tuple) x - 1)"
      by (auto simp: a handles_def)
    have "0 < refs x + handles (a # tuple) x" by (simp add: a handles_def)
    from release_counted [OF Cons.prems this] obtain st1 where "object_release x st = Inr st1"
      "counts_ok (\<lambda>y. refs y + handles tuple y) (objects st1)" unfolding f by auto
    with Cons.IH [of st1] show ?thesis by (simp add: a)
  next
    case False
    then have "handles (a # tuple) = handles tuple" by (auto simp: handles_def fun_eq_iff)
    with Cons have "counts_ok (\<lambda>x. refs x + handles tuple x) (objects st)" by simp
    from Cons.IH [OF this] False show ?thesis by (auto split: stored_arg.split option.split)
  qed
qed

lemma invoke_references:
  "for_each_tuple (\<lambda>a st. case a of
       Stored_Reference l \<Rightarrow> if locals_alive st l then Inr st else Inl Use_After_Free | _ \<Rightarrow> Inr st) args st =
     (if \<forall>l. Stored_Reference l \<in> set args \<longrightarrow> locals_alive st l then Inr st else Inl Use_After_Free)"
  by (induction args) (auto split: stored_arg.split)

lemma two_faults: "(if a then u else if \<not> b then r else u) = (if a \<or> b then u else r)"
  by simp

lemma stored_reference: "Stored_Reference l \<in> set (map store_arg args) \<longleftrightarrow> Pass_Lvalue l \<in> set args"
proof (induction args)
  case (Cons a args)
  then show ?case by (cases a) simp_all
qed simp

section \<open>What a task needs from others\<close>

text \<open>
  C39: A task keeps alive only what it gets as an \<open>ObjectPtr\<close>, against the comment on its constructor: making it changes no counter. Whatever
  others then do with the references they hold, until the task runs and is destroyed, running it faults
  exactly if nobody has a reference to its object any more (neither others nor a handle among its own arguments), or if a variable that
  it was given as an lvalue is gone; destroying it gives back exactly its handles.
\<close>

theorem task_keeps_handles_only:
  assumes "tuple = Stored_Pointer (Some x) # map store_arg args"
    and "counts_ok (\<lambda>y. owners y + handles tuple y) (objects st)" and "env_legal es owners (handles tuple)"
  shows "task_new (Some x) args st = Inr (tuple, st) \<and>
    (\<exists>st' st''. env_run es st = Inr st' \<and>
      task_invoke tuple st' =
        (if (owners_after es owners x = 0 \<and> handles tuple x = 0) \<or>
            (\<exists>l. Pass_Lvalue l \<in> set args \<and> (\<not> locals_alive st l \<or> Env_Return l \<in> set es))
         then Inl Use_After_Free else Inr st') \<and>
      task_destroy tuple st' = Inr st'' \<and> counts_ok (owners_after es owners) (objects st''))"
proof -
  have new: "task_new (Some x) args st = Inr (tuple, st)"
    by (simp add: task_new_def for_each_skip counted_type_never assms(1))
  obtain st' where st': "env_run es st = Inr st'" "counts_ok (\<lambda>y. owners_after es owners y + handles tuple y) (objects st')"
    "\<forall>l. locals_alive st' l \<longleftrightarrow> locals_alive st l \<and> Env_Return l \<notin> set es"
    using env_run_counted [OF assms(3,2)] by blast
  have obj: "objects st' x = None \<longleftrightarrow> owners_after es owners x = 0 \<and> handles tuple x = 0"
    using st'(2) by (auto simp: counts_ok_def)
  have lv: "Stored_Reference l \<in> set (map store_arg args) \<longleftrightarrow> Pass_Lvalue l \<in> set args" for l
    by (rule stored_reference)
  have refs: "(\<forall>l. Stored_Reference l \<in> set (map store_arg args) \<longrightarrow> locals_alive st' l) \<longleftrightarrow>
      \<not> (\<exists>l. Pass_Lvalue l \<in> set args \<and> (\<not> locals_alive st l \<or> Env_Return l \<in> set es))"
    using st'(3) lv by blast
  have inv: "task_invoke tuple st' = (if objects st' x = None then Inl Use_After_Free
      else if \<forall>l. Stored_Reference l \<in> set (map store_arg args) \<longrightarrow> locals_alive st' l then Inr st' else Inl Use_After_Free)"
    unfolding task_invoke_def assms(1) list.case stored_arg.case option.case invoke_references ..
  have "task_invoke tuple st' =
      (if (owners_after es owners x = 0 \<and> handles tuple x = 0) \<or>
          (\<exists>l. Pass_Lvalue l \<in> set args \<and> (\<not> locals_alive st l \<or> Env_Return l \<in> set es))
       then Inl Use_After_Free else Inr st')"
    unfolding inv obj refs by (rule two_faults)
  moreover obtain st'' where "task_destroy tuple st' = Inr st''" "counts_ok (owners_after es owners) (objects st'')"
    using release_handles [OF st'(2)] by (auto simp: task_destroy_def for_each_skip counted_type_never)
  ultimately show ?thesis using new st'(1) by blast
qed

text \<open>The only owner of the object drops it before the task runs.\<close>

theorem task_keeps_handles_only_witness:
  "\<exists>st'. env_run [Env_Return 3, Env_Drop 7] \<lparr>objects = [7 \<mapsto> 1], locals_alive = (\<lambda>_. True)\<rparr> = Inr st' \<and>
     task_invoke [Stored_Pointer (Some 7), Stored_Value] st' = Inl Use_After_Free"
proof -
  let ?o = "(\<lambda>_. 0)(7 := 1) :: nat \<Rightarrow> nat" and ?st = "\<lparr>objects = [7 \<mapsto> 1], locals_alive = (\<lambda>_. True)\<rparr>"
    and ?t = "[Stored_Pointer (Some 7), Stored_Value]"
  have "counts_ok (\<lambda>y. ?o y + handles ?t y) (objects ?st)" by (simp add: counts_ok_def handles_def)
  moreover have "env_legal [Env_Return 3, Env_Drop 7] ?o (handles ?t)" by simp
  ultimately show ?thesis
    using task_keeps_handles_only [of ?t 7 "[Pass_Value]" ?o ?st "[Env_Return 3, Env_Drop 7]"] by (auto simp: handles_def)
qed

end
