(* ===== verification/Pool_Handles.thy ===== *)
theory Pool_Handles
  imports Memory_Pool Ref_Count
begin

text \<open>
  \<open>ObjectPool::acquire_ptr\<close>: an object of a class derived from \<open>PooledObject\<close>, held by \<open>ObjectPtr\<close>s. What \<open>on_zero_ref\<close> does is left to
  the class; here it gives the object back to its pool, as the operations of the service do. No code of the repository calls \<open>acquire_ptr\<close>.
\<close>

text \<open>The object with its counter. The constructor of the \<open>ObjectPtr\<close> that is returned takes the first reference.\<close>

definition acquire_ptr ::
    "'q lfq_ops \<Rightarrow> nat \<Rightarrow> (nat \<Rightarrow> nat option) \<Rightarrow> bool \<Rightarrow> nat \<Rightarrow> 'q object_pool
       \<Rightarrow> ((nat \<times> u32) option \<times> 'q object_pool) outcome" where
  "acquire_ptr Q sz new_mem ctor_ok t p =
     bind_outcome (acquire Q sz new_mem ctor_ok t p) (\<lambda>(obj, p').
       Inr (case obj of None \<Rightarrow> (None, p') | Some x \<Rightarrow> (Some (x, add_ref 0), p')))"

text \<open>References that are taken and dropped, by thread \<open>t\<close>, until the last one is gone.\<close>

fun use_ptr :: "'q lfq_ops \<Rightarrow> nat \<Rightarrow> ref_event list \<Rightarrow> (nat \<times> u32) option \<Rightarrow> 'q object_pool
    \<Rightarrow> ((nat \<times> u32) option \<times> 'q object_pool) outcome" where
  "use_ptr Q t [] h p = Inr (h, p)"
| "use_ptr Q t (e # es) None p = Inl Use_After_Free"
| "use_ptr Q t (Take # es) (Some (x, n)) p = use_ptr Q t es (Some (x, add_ref n)) p"
| "use_ptr Q t (Drop # es) (Some (x, n)) p =
     bind_outcome (release_ref n) (\<lambda>(n', final).
       if final then use_ptr Q t es None (release Q t (Some x) p) else use_ptr Q t es (Some (x, n')) p)"

text \<open>Only who holds a reference copies or drops it.\<close>

fun held_refs_ok :: "nat \<Rightarrow> ref_event list \<Rightarrow> bool" where
  "held_refs_ok k [] = True"
| "held_refs_ok k (Take # es) \<longleftrightarrow> 0 < k \<and> Suc k < 2 ^ 31 \<and> held_refs_ok (Suc k) es"
| "held_refs_ok k (Drop # es) \<longleftrightarrow> 0 < k \<and> held_refs_ok (k - 1) es"

lemma held_refs_ok_0: "held_refs_ok 0 es \<Longrightarrow> es = []"
  by (cases es; cases "hd es") auto

lemma use_ptr_counts:
  "0 < k \<Longrightarrow> k < 2 ^ 31 \<Longrightarrow> held_refs_ok k es \<Longrightarrow>
     use_ptr Q t es (Some (x, word_of_nat k)) p =
       Inr (if refs_after k es = 0 then (None, release Q t (Some x) p) else (Some (x, word_of_nat (refs_after k es)), p))"
proof (induction es arbitrary: k)
  case (Cons e es)
  show ?case
  proof (cases e)
    case Take
    have "add_ref (word_of_nat k) = word_of_nat (Suc k)" by (simp add: add_ref_def)
    with Take Cons.IH [of "Suc k"] Cons.prems show ?thesis by (simp del: of_nat_Suc)
  next
    case Drop
    note rel = release_ref_count [OF Cons.prems(1,2)]
    show ?thesis
    proof (cases "k = 1")
      case True
      with Drop Cons.prems have "es = []" by (simp add: held_refs_ok_0)
      with True Drop rel show ?thesis by simp
    next
      case False
      with Drop rel Cons.IH [of "k - 1"] Cons.prems show ?thesis by simp
    qed
  qed
qed simp

text \<open>
  A handle gives its slot back exactly once: after \<open>acquire_ptr\<close>, whatever copies of the handle are made and dropped, the pool is
  untouched while one is left, and with the last one it is as after one \<open>release\<close>. So its slots are then those
  that were there before the call, and the new chunk if one was made.
\<close>

theorem acquire_ptr_returns_slot:
  assumes "reliable_queue Q contents" and "finite T" and "t \<in> T"
    and "acquire_ptr Q sz new_mem True t p = Inr (Some (x, n), p1)" and "held_refs_ok 1 es" and "refs_after 1 es = 0"
  shows "\<exists>p2. use_ptr Q t es (Some (x, n)) p1 = Inr (None, p2) \<and> p2 = release Q t (Some x) p1 \<and>
    owned contents T p2 + mset (all_slots sz p) = owned contents T p + mset (all_slots sz p2)"
proof -
  from assms(4) have n: "n = word_of_nat 1" and acq: "acquire Q sz new_mem True t p = Inr (Some x, p1)"
    by (auto simp: acquire_ptr_def outcome_simps add_ref_def split: option.splits)
  have "owned contents T p1 + {#x#} + mset (all_slots sz p) = owned contents T p + mset (all_slots sz p1)"
    using reliable_queue.acquire_owned [OF assms(1-3) acq] by simp
  moreover have "owned contents T (release Q t (Some x) p1) = owned contents T p1 + {#x#}"
    by (simp add: reliable_queue.release_owned [OF assms(1-3)])
  moreover have "use_ptr Q t es (Some (x, n)) p1 = Inr (None, release Q t (Some x) p1)"
    using use_ptr_counts [of 1 es Q t x p1] assms(5,6) by (simp add: n)
  ultimately show ?thesis by (simp add: all_slots_def)
qed

theorem acquire_ptr_returns_slot_witness:
  "\<exists>x n p1 p2. acquire_ptr list_queue 64 (\<lambda>_. None) True 0 small_pool = Inr (Some (x, n), p1) \<and>
     use_ptr list_queue 0 [Take, Drop, Drop] (Some (x, n)) p1 = Inr (None, p2) \<and> p2 = release list_queue 0 (Some x) p1"
proof -
  obtain x n p1 where h: "acquire_ptr list_queue 64 (\<lambda>_. None) True 0 small_pool = Inr (Some (x, n), p1)"
    by (auto simp: acquire_ptr_def small_pool_acquire)
  have "held_refs_ok 1 [Take, Drop, Drop]" "refs_after 1 [Take, Drop, Drop] = 0" by simp_all
  from acquire_ptr_returns_slot [OF lq.reliable_queue_axioms _ _ h this, of "{0, 1}"] h show ?thesis by auto
qed

end
